(* ===== verification/Prelude.thy ===== *)
theory Prelude
  imports Main "HOL-Library.Word"
begin

text \<open>
  Shared vocabulary of the development: the C integer types, the faults an execution of the
  simulator itself can end in, the result type with its sequencing operator, checked accesses to
  C arrays, and the outcome predicate with which every component states what it keeps.
\<close>

unbundle bit_operations_syntax

named_theorems outcome_intros \<open>rules that decompose an outcome statement along the code\<close>
named_theorems reg_simps \<open>reads of the register file after writes\<close>
named_theorems mem_simps \<open>accesses to the simulated memory\<close>

section \<open>C integer types\<close>

type_synonym u8 = "8 word"
type_synonym u16 = "16 word"
type_synonym u32 = "32 word"
type_synonym u64 = "64 word"

section \<open>Faults of the simulator process\<close>

text \<open>
  What ends the C process (or leaves the C standard) instead of returning: an access outside an
  allocated block, a dereferenced null pointer, the use of a variable nothing has assigned, the
  overrun of a local or embedded buffer, a failed assertion, a \<^verbatim>\<open>scanf\<close> conversion whose
  result does not fit its destination, a write to a connection that was shut down, an overflow of a
  signed int, the release of something that is not allocated, an access to something released, and
  the exit of the process with a code from inside a function. These are not ARM exceptions: ARM
  exceptions are return codes of the handlers.
\<close>

datatype fault =
    Out_Of_Bounds
  | Null_Pointer
  | Uninitialised
  | Buffer_Overflow
  | Assertion_Failed
  | Undefined_Conversion
  | Broken_Pipe
  | Signed_Overflow
  | Invalid_Free
  | Use_After_Free
  | Process_Exit nat

type_synonym 'a res = "fault + 'a"

definition bindR :: "'a res \<Rightarrow> ('a \<Rightarrow> 'b res) \<Rightarrow> 'b res" where
  "bindR m f = (case m of Inl e \<Rightarrow> Inl e | Inr x \<Rightarrow> f x)"

lemma bindR_simps [simp]:
  "bindR (Inl e) f = Inl e"
  "bindR (Inr x) f = f x"
  by (simp_all add: bindR_def)

lemma bindR_assoc: "bindR (bindR m f) g = bindR m (\<lambda>x. bindR (f x) g)"
  by (cases m) simp_all

lemma bindR_Inr_right [simp]: "bindR m Inr = m"
  by (cases m) simp_all

lemma bindR_if: "bindR (if b then m else n) f = (if b then bindR m f else bindR n f)"
  by simp

lemma bindR_case:
  "bindR (case r of None \<Rightarrow> m | Some x \<Rightarrow> f x) g = (case r of None \<Rightarrow> bindR m g | Some x \<Rightarrow> bindR (f x) g)"
  "bindR (case z of (a, b) \<Rightarrow> h a b) g = (case z of (a, b) \<Rightarrow> bindR (h a b) g)"
  by (cases r; simp) (cases z; simp)

lemma bindR_eq_Inr: "bindR m f = Inr y \<longleftrightarrow> (\<exists>x. m = Inr x \<and> f x = Inr y)"
  by (cases m) simp_all

lemma bindR_eq_Inl: "bindR m f = Inl e \<longleftrightarrow> m = Inl e \<or> (\<exists>x. m = Inr x \<and> f x = Inl e)"
  by (cases m) simp_all

lemma bindR_cong [fundef_cong]:
  "m = m' \<Longrightarrow> (\<And>x. m' = Inr x \<Longrightarrow> f x = g x) \<Longrightarrow> bindR m f = bindR m' g"
  by (cases m') simp_all

section \<open>Checked array accesses\<close>

definition load :: "'a list \<Rightarrow> nat \<Rightarrow> 'a res" where
  "load xs i = (if i < length xs then Inr (xs ! i) else Inl Out_Of_Bounds)"

definition store :: "'a list \<Rightarrow> nat \<Rightarrow> 'a \<Rightarrow> 'a list res" where
  "store xs i v = (if i < length xs then Inr (xs[i := v]) else Inl Out_Of_Bounds)"

lemma load_in [simp]: "i < length xs \<Longrightarrow> load xs i = Inr (xs ! i)"
  by (simp add: load_def)

lemma load_out [simp]: "\<not> i < length xs \<Longrightarrow> load xs i = Inl Out_Of_Bounds"
  by (simp add: load_def)

lemma store_in [simp]: "i < length xs \<Longrightarrow> store xs i v = Inr (xs[i := v])"
  by (simp add: store_def)

lemma store_out [simp]: "\<not> i < length xs \<Longrightarrow> store xs i v = Inl Out_Of_Bounds"
  by (simp add: store_def)

section \<open>Outcomes\<close>

text \<open>
  \<open>outcome F P r\<close>: the computation either returns a value satisfying \<open>P\<close> or ends in one of the
  faults of \<open>F\<close>. With \<open>F = UNIV\<close> it is partial correctness, with \<open>F = {}\<close> it also says that the
  simulator does not fault.
\<close>

definition outcome :: "fault set \<Rightarrow> ('a \<Rightarrow> bool) \<Rightarrow> 'a res \<Rightarrow> bool" where
  "outcome F P r = (case r of Inl e \<Rightarrow> e \<in> F | Inr x \<Rightarrow> P x)"

lemma outcome_simps [simp]:
  "outcome F P (Inl e) \<longleftrightarrow> e \<in> F"
  "outcome F P (Inr x) \<longleftrightarrow> P x"
  by (simp_all add: outcome_def)

lemma outcome_bindR [simp]:
  "outcome F Q (bindR m f) \<longleftrightarrow> outcome F (\<lambda>x. outcome F Q (f x)) m"
  by (cases m) simp_all

lemma outcome_mono:
  "outcome F P r \<Longrightarrow> (\<And>x. P x \<Longrightarrow> Q x) \<Longrightarrow> F \<subseteq> G \<Longrightarrow> outcome G Q r"
  by (cases r) auto

lemma outcome_weaken: "outcome F P r \<Longrightarrow> (\<And>x. P x \<Longrightarrow> Q x) \<Longrightarrow> outcome F Q r"
  by (cases r) auto

lemma outcome_bindI [outcome_intros]:
  "outcome F P m \<Longrightarrow> (\<And>x. P x \<Longrightarrow> outcome F Q (f x)) \<Longrightarrow> outcome F Q (bindR m f)"
  by (cases m) auto

lemma outcome_Inr_iff: "outcome {} P r \<longleftrightarrow> (\<exists>x. r = Inr x \<and> P x)"
  by (cases r) auto

lemma outcomeD: "outcome F P r \<Longrightarrow> r = Inr x \<Longrightarrow> P x"
  by simp

lemma outcome_faultD: "outcome F P r \<Longrightarrow> r = Inl e \<Longrightarrow> e \<in> F"
  by simp

section \<open>Lists and words\<close>

lemma unat_add_no_wrap:
  "unat (a :: 'a::len word) + n < 2 ^ LENGTH('a) \<Longrightarrow> unat (a + of_nat n) = unat a + n"
  by (simp add: unat_word_ariths take_bit_eq_mod unsigned_of_nat)

lemma nth_list_update_if:
  "i < length xs \<Longrightarrow> xs[i := v] ! j = (if i = j then v else xs ! j)"
  by simp

end
