(* ===== verification/Util.thy ===== *)
theory Util
  imports Prelude
begin

text \<open>
  The bit-field macros of \<^verbatim>\<open>util.h\<close> and the functions of \<^verbatim>\<open>util.c\<close>. A machine on which the
  simulator is compiled is described by a \<open>host\<close>: its byte order, and what its shift instruction
  does with a count of 32 or more (C leaves this open; x86 reduces the count modulo 32, ARM shifts
  everything out). Left shifts of negative ints behave as on every two's complement compiler.
\<close>

section \<open>The host\<close>

record host =
  host_big_endian :: bool
  host_masks_shifts :: bool

definition c_shl :: "host \<Rightarrow> u32 \<Rightarrow> int \<Rightarrow> u32" where
  "c_shl h x n =
     (if 0 \<le> n \<and> n < 32 then push_bit (nat n) x
      else if host_masks_shifts h then push_bit (nat (n mod 32)) x
      else 0)"

definition c_shr :: "host \<Rightarrow> u32 \<Rightarrow> int \<Rightarrow> u32" where
  "c_shr h x n =
     (if 0 \<le> n \<and> n < 32 then drop_bit (nat n) x
      else if host_masks_shifts h then drop_bit (nat (n mod 32)) x
      else 0)"

lemma c_shl_in_range: "n < 32 \<Longrightarrow> c_shl h x (int n) = push_bit n x"
  by (simp add: c_shl_def)

lemma c_shr_in_range: "n < 32 \<Longrightarrow> c_shr h x (int n) = drop_bit n x"
  by (simp add: c_shr_def)

section \<open>Bit-field macros\<close>

definition get_bit :: "'a::len word \<Rightarrow> nat \<Rightarrow> 'a word" where
  "get_bit x i = drop_bit i x AND 1"

definition set_bit_c :: "u32 \<Rightarrow> nat \<Rightarrow> u32" where
  "set_bit_c x i = x OR push_bit i 1"

definition clr_bit :: "u32 \<Rightarrow> nat \<Rightarrow> u32" where
  "clr_bit x i = x AND NOT (push_bit i 1)"

definition get_bits :: "u32 \<Rightarrow> nat \<Rightarrow> nat \<Rightarrow> u32" where
  "get_bits x h l =
     drop_bit l x AND NOT (push_bit (h - l + 1) (drop_bit (h - l + 1) (NOT 0)))"

definition set_bits :: "u32 \<Rightarrow> nat \<Rightarrow> nat \<Rightarrow> u32 \<Rightarrow> u32" where
  "set_bits x h l bits =
     ((x AND NOT (push_bit l (signed_drop_bit l (NOT 0))))
      OR (x AND push_bit (h + 1) (drop_bit (h + 1) (NOT 0))))
     OR push_bit l bits"

definition reverse_2 :: "u16 \<Rightarrow> u16" where
  "reverse_2 x = push_bit 8 (x AND 0xFF) OR (drop_bit 8 x AND 0xFF)"

definition reverse_4 :: "u32 \<Rightarrow> u32" where
  "reverse_4 x =
     ((push_bit 24 (x AND 0xFF) OR push_bit 16 (drop_bit 8 x AND 0xFF))
      OR push_bit 8 (drop_bit 16 x AND 0xFF))
     OR (drop_bit 24 x AND 0xFF)"

section \<open>Functions of util.c\<close>

definition asr :: "host \<Rightarrow> u32 \<Rightarrow> nat \<Rightarrow> u32" where
  "asr h v shift =
     c_shr h v (int shift)
     OR (if get_bit v 31 \<noteq> 0 then c_shl h (NOT 0) (32 - int shift) else 0)"

definition ror :: "host \<Rightarrow> u32 \<Rightarrow> nat \<Rightarrow> u32" where
  "ror h v rotation =
     c_shr h v (int rotation) OR c_shl h v (32 - int rotation)"

text \<open>
  The object representation of a 32-bit variable: its four bytes in address order.
\<close>

definition object_bytes :: "host \<Rightarrow> u32 \<Rightarrow> u8 list" where
  "object_bytes h x =
     (let little = [ucast x, ucast (drop_bit 8 x), ucast (drop_bit 16 x), ucast (drop_bit 24 x)]
      in if host_big_endian h then rev little else little)"

definition object_value :: "host \<Rightarrow> u8 list \<Rightarrow> u32" where
  "object_value h bs =
     (let little = (if host_big_endian h then rev bs else bs)
      in ((push_bit 24 (ucast (little ! 3)) OR push_bit 16 (ucast (little ! 2)))
          OR push_bit 8 (ucast (little ! 1))) OR ucast (little ! 0))"

definition is_big_endian :: "host \<Rightarrow> bool" where
  "is_big_endian h \<longleftrightarrow> object_bytes h 1 ! 0 = 0"

definition switch_endian :: "host \<Rightarrow> u32 \<Rightarrow> u32" where
  "switch_endian h x =
     (let ptr0 = object_bytes h x;
          tmp = ptr0 ! 0;
          ptr1 = ptr0[0 := ptr0 ! 3];
          ptr2 = ptr1[3 := tmp];
          tmp = ptr2 ! 1;
          ptr3 = ptr2[1 := ptr2 ! 2];
          ptr4 = ptr3[2 := tmp]
      in object_value h ptr4)"

section \<open>What the macros compute\<close>

lemma bit_get_bit: "bit (get_bit x i) n \<longleftrightarrow> n = 0 \<and> bit x i"
  by (auto simp: get_bit_def bit_simps)

lemma get_bit_if: "get_bit x i = (if bit x i then 1 else 0)"
  by (rule bit_word_eqI) (auto simp: bit_get_bit bit_simps)

lemma get_bit_eq_1 [simp]: "get_bit x i = 1 \<longleftrightarrow> bit x i"
  by (simp add: get_bit_if)

lemma get_bit_eq_0 [simp]: "get_bit x i = 0 \<longleftrightarrow> \<not> bit x i"
  by (simp add: get_bit_if)

lemma bit_set_bit_c: "bit (set_bit_c x i) n \<longleftrightarrow> bit x n \<or> n = i \<and> n < 32"
  by (auto simp: set_bit_c_def bit_simps)

lemma bit_clr_bit: "bit (clr_bit x i) n \<longleftrightarrow> bit x n \<and> n \<noteq> i"
  by (auto simp: clr_bit_def bit_simps dest: bit_imp_le_length)

lemma high_mask:
  assumes "n \<le> 32"
  shows "push_bit n (drop_bit n (NOT 0 :: u32)) = NOT (mask n)"
  using assms by (intro bit_word_eqI) (auto simp: bit_push_bit_iff bit_drop_bit_eq bit_not_iff bit_mask_iff)

lemma get_bits_take_drop:
  assumes "l \<le> h" "h < 32"
  shows "get_bits x h l = take_bit (h - l + 1) (drop_bit l x)"
proof -
  have "push_bit (h - l + 1) (drop_bit (h - l + 1) (NOT 0 :: u32)) = NOT (mask (h - l + 1))"
    by (rule high_mask) (use assms in simp)
  then show ?thesis
    unfolding get_bits_def by (simp only: bit.double_compl take_bit_eq_mask)
qed

lemma bit_get_bits:
  "l \<le> h \<Longrightarrow> h < 32 \<Longrightarrow> bit (get_bits x h l) n \<longleftrightarrow> n \<le> h - l \<and> bit x (l + n)"
  by (auto simp: get_bits_take_drop bit_simps)

lemma unat_get_bits:
  "l \<le> h \<Longrightarrow> h < 32 \<Longrightarrow> unat (get_bits x h l) = unat x div 2 ^ l mod 2 ^ (h - l + 1)"
  by (simp only: get_bits_take_drop unsigned_take_bit_eq unat_drop_bit_eq)
    (simp only: take_bit_eq_mod drop_bit_eq_div)

lemma unat_get_bits_less: "l \<le> h \<Longrightarrow> h < 32 \<Longrightarrow> unat (get_bits x h l) < 2 ^ (h - l + 1)"
  by (simp add: unat_get_bits del: power_Suc)

lemma bit_set_bits:
  assumes "l \<le> h" "h < 32" "n < 32"
  shows "bit (set_bits x h l bits) n \<longleftrightarrow>
    (if n < l then bit x n
     else if n \<le> h then bit bits (n - l)
     else bit x n \<or> bit bits (n - l))"
proof -
  have m: "push_bit (h + 1) (drop_bit (h + 1) (NOT 0 :: u32)) = NOT (mask (h + 1))"
    by (rule high_mask) (use assms in simp)
  show ?thesis
    using assms unfolding set_bits_def m
    by (auto simp: bit_simps)
qed

section \<open>What the functions compute\<close>

lemma is_big_endian_host: "is_big_endian h \<longleftrightarrow> host_big_endian h"
  by (simp add: is_big_endian_def object_bytes_def Let_def)

lemma asr_signed_shift:
  assumes "0 < n" "n < 32"
  shows "asr h v n = signed_drop_bit n v"
  using assms
  by (intro bit_word_eqI)
    (auto simp: asr_def c_shr_def c_shl_def bit_simps nat_diff_distrib
      dest: bit_imp_le_length)

lemma ror_word_rotr:
  assumes "n < 32"
  shows "ror h v n = word_rotr n v"
proof (rule bit_word_eqI)
  fix i assume i: "i < LENGTH(32)"
  show "bit (ror h v n) i \<longleftrightarrow> bit (word_rotr n v) i"
  proof (cases "n = 0")
    case True
    then show ?thesis
      using i by (auto simp: ror_def c_shr_def c_shl_def bit_simps bit_word_rotr_iff)
  next
    case False
    have "(i + n) mod 32 = (if i + n < 32 then i + n else i + n - 32)"
      using i assms by (simp add: mod_if)
    then show ?thesis
      using i assms False
      by (auto simp: ror_def c_shr_def c_shl_def bit_simps bit_word_rotr_iff
          nat_diff_distrib add.commute dest: bit_imp_le_length)
  qed
qed

text \<open>
  Swapping the two ends and the two middle bytes reverses the bytes of the value, whatever the byte
  order of the host, which is what the macro \<^verbatim>\<open>reverse_4\<close> does with shifts and masks.
\<close>

lemma switch_endian_bytes:
  "switch_endian h x =
     ((push_bit 24 (ucast (ucast x :: u8)) OR push_bit 16 (ucast (ucast (drop_bit 8 x) :: u8)))
      OR push_bit 8 (ucast (ucast (drop_bit 16 x) :: u8))) OR ucast (ucast (drop_bit 24 x) :: u8)"
  by (cases "host_big_endian h")
    (simp_all add: switch_endian_def object_bytes_def object_value_def Let_def)

lemma and_FF: "(y :: 'a::len word) AND 0xFF = take_bit 8 y"
proof -
  have "(0xFF :: 'a word) = mask 8" by (simp add: mask_eq_exp_minus_1)
  then show ?thesis by (simp only: take_bit_eq_mask)
qed

lemma ucast_byte_mask: "(ucast (ucast (y :: u32) :: u8) :: u32) = y AND 0xFF"
  by (simp only: and_FF) (intro bit_word_eqI, auto simp: bit_simps)

lemma switch_endian_reverse_4: "switch_endian h x = reverse_4 x"
  by (simp only: switch_endian_bytes reverse_4_def ucast_byte_mask)

lemma bit_reverse_4_cases:
  "bit (reverse_4 x) n \<longleftrightarrow>
     (if n < 8 then bit x (n + 24)
      else if n < 16 then bit x (n + 8)
      else if n < 24 then bit x (n - 8)
      else n < 32 \<and> bit x (n - 24))"
  by (auto simp: reverse_4_def and_FF bit_simps add.commute)

lemma bit_reverse_4: "bit (reverse_4 x) n \<longleftrightarrow> n < 32 \<and> bit x (8 * (3 - n div 8) + n mod 8)"
proof -
  have dm: "n mod 8 = n - 8 * (n div 8)" by (simp add: minus_mult_div_eq_mod)
  have "8 \<le> n \<Longrightarrow> n < 16 \<Longrightarrow> n div 8 = 1"
    and "16 \<le> n \<Longrightarrow> n < 24 \<Longrightarrow> n div 8 = 2"
    and "24 \<le> n \<Longrightarrow> n < 32 \<Longrightarrow> n div 8 = 3"
    by simp_all
  then show ?thesis
    by (cases "n < 8"; cases "n < 16"; cases "n < 24"; cases "n < 32")
      (simp_all add: bit_reverse_4_cases dm add.commute)
qed

lemma reverse_4_reverse_4 [simp]: "reverse_4 (reverse_4 x) = x"
proof (rule bit_word_eqI)
  fix n assume n: "n < LENGTH(32)"
  have "(8 * (3 - n div 8) + n mod 8) div 8 = 3 - n div 8"
    and "(8 * (3 - n div 8) + n mod 8) mod 8 = n mod 8"
    and "8 * (3 - n div 8) + n mod 8 < 32"
    and "8 * (3 - (3 - n div 8)) + n mod 8 = n"
    using n by auto
  then show "bit (reverse_4 (reverse_4 x)) n \<longleftrightarrow> bit x n"
    using n by (simp add: bit_reverse_4)
qed

lemma switch_endian_switch_endian [simp]: "switch_endian h (switch_endian h' x) = x"
  by (simp only: switch_endian_reverse_4 reverse_4_reverse_4)

end
