(* ===== verification/Memory.thy ===== *)
theory Memory
  imports Util
begin

text \<open>
  The simulated memory of \<^verbatim>\<open>memory.c\<close>: a block of bytes with its size, behind a pointer that may
  be null. A read gives \<open>None\<close> where the function returns -1 and leaves the destination untouched;
  a write gives the return code with the new memory. The guard tests the first byte only, so the
  other bytes of a half or a word are accessed under C's rules for arrays.
\<close>

section \<open>Data and operations\<close>

record memory_data =
  msize :: nat
  mdata :: "u8 list"

type_synonym memory = "memory_data option"

text \<open>
  \<open>struct_ok\<close> says whether the allocation of the descriptor succeeds, \<open>block\<close> is what the
  allocation of the bytes gives (a null pointer, or a block with whatever it holds).
\<close>

definition memory_create :: "bool \<Rightarrow> u8 list option \<Rightarrow> nat \<Rightarrow> memory" where
  "memory_create struct_ok block size' =
     (if \<not> struct_ok then None
      else case block of
        None \<Rightarrow> None
      | Some bytes \<Rightarrow> Some \<lparr>msize = size', mdata = bytes\<rparr>)"

definition memory_get_size :: "memory \<Rightarrow> nat" where
  "memory_get_size mem = (case mem of Some m \<Rightarrow> msize m | None \<Rightarrow> 0)"

definition join_2 :: "u8 \<Rightarrow> u8 \<Rightarrow> u16" where
  "join_2 b1 b0 = push_bit 8 (ucast b1) OR ucast b0"

definition join_4 :: "u8 \<Rightarrow> u8 \<Rightarrow> u8 \<Rightarrow> u8 \<Rightarrow> u32" where
  "join_4 b3 b2 b1 b0 =
     ((push_bit 24 (ucast b3) OR push_bit 16 (ucast b2)) OR push_bit 8 (ucast b1)) OR ucast b0"

definition memory_read_byte :: "memory \<Rightarrow> u32 \<Rightarrow> u8 option res" where
  "memory_read_byte mem address =
     (case mem of
        None \<Rightarrow> Inr None
      | Some m \<Rightarrow>
          if unat address \<ge> msize m then Inr None
          else bindR (load (mdata m) (unat address)) (\<lambda>b. Inr (Some b)))"

definition memory_read_half :: "memory \<Rightarrow> u32 \<Rightarrow> bool \<Rightarrow> u16 option res" where
  "memory_read_half mem address be =
     (case mem of
        None \<Rightarrow> Inr None
      | Some m \<Rightarrow>
          if unat address \<ge> msize m then Inr None
          else
            bindR (load (mdata m) (unat address)) (\<lambda>d0.
            bindR (load (mdata m) (unat (address + 1))) (\<lambda>d1.
            Inr (Some (if be then join_2 d0 d1 else join_2 d1 d0)))))"

definition memory_read_word :: "memory \<Rightarrow> u32 \<Rightarrow> bool \<Rightarrow> u32 option res" where
  "memory_read_word mem address be =
     (case mem of
        None \<Rightarrow> Inr None
      | Some m \<Rightarrow>
          if unat address \<ge> msize m then Inr None
          else
            bindR (load (mdata m) (unat address)) (\<lambda>d0.
            bindR (load (mdata m) (unat (address + 1))) (\<lambda>d1.
            bindR (load (mdata m) (unat (address + 2))) (\<lambda>d2.
            bindR (load (mdata m) (unat (address + 3))) (\<lambda>d3.
            Inr (Some (if be then join_4 d0 d1 d2 d3 else join_4 d3 d2 d1 d0)))))))"

definition memory_write_byte :: "memory \<Rightarrow> u32 \<Rightarrow> u8 \<Rightarrow> (int \<times> memory) res" where
  "memory_write_byte mem address v =
     (case mem of
        None \<Rightarrow> Inr (-1, mem)
      | Some m \<Rightarrow>
          if unat address \<ge> msize m then Inr (-1, mem)
          else
            bindR (store (mdata m) (unat address) v) (\<lambda>d.
            Inr (0, Some (m\<lparr>mdata := d\<rparr>))))"

definition memory_write_half :: "memory \<Rightarrow> u32 \<Rightarrow> u16 \<Rightarrow> bool \<Rightarrow> (int \<times> memory) res" where
  "memory_write_half mem address v be =
     (case mem of
        None \<Rightarrow> Inr (-1, mem)
      | Some m \<Rightarrow>
          if unat address \<ge> msize m then Inr (-1, mem)
          else if be then
            bindR (store (mdata m) (unat address) (ucast (drop_bit 8 v))) (\<lambda>d.
            bindR (store d (unat (address + 1)) (ucast v)) (\<lambda>d.
            Inr (0, Some (m\<lparr>mdata := d\<rparr>))))
          else
            bindR (store (mdata m) (unat (address + 1)) (ucast (drop_bit 8 v))) (\<lambda>d.
            bindR (store d (unat address) (ucast v)) (\<lambda>d.
            Inr (0, Some (m\<lparr>mdata := d\<rparr>)))))"

definition memory_write_word :: "memory \<Rightarrow> u32 \<Rightarrow> u32 \<Rightarrow> bool \<Rightarrow> (int \<times> memory) res" where
  "memory_write_word mem address v be =
     (case mem of
        None \<Rightarrow> Inr (-1, mem)
      | Some m \<Rightarrow>
          if unat address \<ge> msize m then Inr (-1, mem)
          else if be then
            bindR (store (mdata m) (unat address) (ucast (drop_bit 24 v))) (\<lambda>d.
            bindR (store d (unat (address + 1)) (ucast (drop_bit 16 v))) (\<lambda>d.
            bindR (store d (unat (address + 2)) (ucast (drop_bit 8 v))) (\<lambda>d.
            bindR (store d (unat (address + 3)) (ucast v)) (\<lambda>d.
            Inr (0, Some (m\<lparr>mdata := d\<rparr>))))))
          else
            bindR (store (mdata m) (unat (address + 3)) (ucast (drop_bit 24 v))) (\<lambda>d.
            bindR (store d (unat (address + 2)) (ucast (drop_bit 16 v))) (\<lambda>d.
            bindR (store d (unat (address + 1)) (ucast (drop_bit 8 v))) (\<lambda>d.
            bindR (store d (unat address) (ucast v)) (\<lambda>d.
            Inr (0, Some (m\<lparr>mdata := d\<rparr>)))))))"

section \<open>Well-formed memories\<close>

text \<open>
  The block has the recorded size, and its addresses are 32-bit numbers. The simulator's memory has
  \<open>0x8000\<close> bytes.
\<close>

definition wf_memory :: "memory \<Rightarrow> bool" where
  "wf_memory mem =
     (case mem of None \<Rightarrow> True | Some m \<Rightarrow> length (mdata m) = msize m \<and> msize m < 2 ^ 32)"

definition inside :: "memory \<Rightarrow> u32 \<Rightarrow> nat \<Rightarrow> bool" where
  "inside mem a n = (case mem of None \<Rightarrow> False | Some m \<Rightarrow> unat a + n \<le> msize m)"

definition straddles :: "memory \<Rightarrow> u32 \<Rightarrow> nat \<Rightarrow> bool" where
  "straddles mem a n =
     (case mem of None \<Rightarrow> False | Some m \<Rightarrow> unat a < msize m \<and> msize m < unat a + n)"

definition byte_at :: "memory \<Rightarrow> nat \<Rightarrow> u8 option" where
  "byte_at mem i =
     (case mem of None \<Rightarrow> None | Some m \<Rightarrow> if i < length (mdata m) then Some (mdata m ! i) else None)"

lemma insideD:
  assumes "inside (Some m) a n" "wf_memory (Some m)"
  shows "unat a + n \<le> msize m" "length (mdata m) = msize m" "msize m < 4294967296"
  using assms by (auto simp: inside_def wf_memory_def)

lemma unat_add_numeral:
  fixes a :: u32
  assumes "unat a + n \<le> N" "N \<le> 2 ^ 32" "k < n" "w = of_nat k"
  shows "unat (a + w) = unat a + k"
  using assms unat_add_no_wrap [of a k] by simp

lemma unat_add_1_2_3:
  fixes a :: u32
  assumes "unat a + n \<le> 4294967296"
  shows "1 < n \<Longrightarrow> unat (a + 1) = Suc (unat a)"
    and "2 < n \<Longrightarrow> unat (a + 2) = unat a + 2"
    and "3 < n \<Longrightarrow> unat (a + 3) = unat a + 3"
  using unat_add_numeral [OF assms, of 1 1] unat_add_numeral [OF assms, of 2 2]
    unat_add_numeral [OF assms, of 3 3] by simp_all

section \<open>Bytes of a value\<close>

definition bytes_2 :: "u16 \<Rightarrow> bool \<Rightarrow> u8 list" where
  "bytes_2 v be = (let bs = [ucast (drop_bit 8 v), ucast v] in if be then bs else rev bs)"

definition bytes_4 :: "u32 \<Rightarrow> bool \<Rightarrow> u8 list" where
  "bytes_4 v be =
     (let bs = [ucast (drop_bit 24 v), ucast (drop_bit 16 v), ucast (drop_bit 8 v), ucast v]
      in if be then bs else rev bs)"

lemma join_2_split: "join_2 (ucast (drop_bit 8 v)) (ucast v) = v"
  by (rule bit_word_eqI) (auto simp: join_2_def bit_simps)

lemma byte_position_cases:
  assumes "(n :: nat) < 32"
  obtains k where "k < 8" "n = k" | k where "k < 8" "n = k + 8"
    | k where "k < 8" "n = k + 16" | k where "k < 8" "n = k + 24"
proof -
  have m: "n mod 8 < 8" and e: "n = n mod 8 + 8 * (n div 8)" by simp_all
  consider "n div 8 = 0" | "n div 8 = 1" | "n div 8 = 2" | "n div 8 = 3" using assms by fastforce
  then show thesis
    by cases (use that [OF m] e in simp_all)
qed

lemma bit_join_4:
  "bit (join_4 b3 b2 b1 b0) n \<longleftrightarrow>
     (if n < 8 then bit b0 n
      else if n < 16 then bit b1 (n - 8)
      else if n < 24 then bit b2 (n - 16)
      else n < 32 \<and> bit b3 (n - 24))"
  by (auto simp: join_4_def bit_simps dest: bit_imp_le_length)

lemma join_4_split:
  "join_4 (ucast (drop_bit 24 v)) (ucast (drop_bit 16 v)) (ucast (drop_bit 8 v)) (ucast v) = v"
proof (rule bit_word_eqI)
  fix n assume "n < LENGTH(32)"
  then have "n < 32" by simp
  then show "bit (join_4 (ucast (drop_bit 24 v)) (ucast (drop_bit 16 v)) (ucast (drop_bit 8 v))
      (ucast v)) n \<longleftrightarrow> bit v n"
    by (cases rule: byte_position_cases) (simp_all add: bit_join_4 bit_simps add.commute)
qed

lemma reverse_4_join_4: "reverse_4 (join_4 a b c d) = join_4 d c b a"
proof (rule bit_word_eqI)
  fix n assume "n < LENGTH(32)"
  then have "n < 32" by simp
  then show "bit (reverse_4 (join_4 a b c d)) n \<longleftrightarrow> bit (join_4 d c b a) n"
    by (cases rule: byte_position_cases) (simp_all add: bit_reverse_4_cases bit_join_4)
qed

section \<open>Behaviour of the accesses\<close>

lemma read_byte_inside:
  assumes "inside (Some m) a 1" "wf_memory (Some m)"
  shows "memory_read_byte (Some m) a = Inr (Some (mdata m ! unat a))"
  using insideD [OF assms] by (simp add: memory_read_byte_def)

lemma read_half_inside:
  assumes "inside (Some m) a 2" "wf_memory (Some m)"
  shows "memory_read_half (Some m) a be =
    Inr (Some (let d0 = mdata m ! unat a; d1 = mdata m ! (unat a + 1)
               in if be then join_2 d0 d1 else join_2 d1 d0))"
  using insideD [OF assms]
  by (simp add: memory_read_half_def unat_add_1_2_3 [of a 2] Let_def)

lemma read_word_inside:
  assumes "inside (Some m) a 4" "wf_memory (Some m)"
  shows "memory_read_word (Some m) a be =
    Inr (Some (let d0 = mdata m ! unat a; d1 = mdata m ! (unat a + 1);
                   d2 = mdata m ! (unat a + 2); d3 = mdata m ! (unat a + 3)
               in if be then join_4 d0 d1 d2 d3 else join_4 d3 d2 d1 d0))"
  using insideD [OF assms]
  by (simp add: memory_read_word_def unat_add_1_2_3 [of a 4] Let_def)

lemma write_byte_inside:
  assumes "inside (Some m) a 1" "wf_memory (Some m)"
  shows "memory_write_byte (Some m) a v =
    Inr (0, Some (m\<lparr>mdata := (mdata m)[unat a := v]\<rparr>))"
  using insideD [OF assms] by (simp add: memory_write_byte_def)

lemma write_half_inside:
  assumes "inside (Some m) a 2" "wf_memory (Some m)"
  shows "memory_write_half (Some m) a v be =
    Inr (0, Some (m\<lparr>mdata := (mdata m)
      [unat a := bytes_2 v be ! 0, unat a + 1 := bytes_2 v be ! 1]\<rparr>))"
  using insideD [OF assms]
  by (simp add: memory_write_half_def unat_add_1_2_3 [of a 2] bytes_2_def list_update_swap)

lemma write_word_inside:
  assumes "inside (Some m) a 4" "wf_memory (Some m)"
  shows "memory_write_word (Some m) a v be =
    Inr (0, Some (m\<lparr>mdata := (mdata m)
      [unat a := bytes_4 v be ! 0, unat a + 1 := bytes_4 v be ! 1,
       unat a + 2 := bytes_4 v be ! 2, unat a + 3 := bytes_4 v be ! 3]\<rparr>))"
  using insideD [OF assms]
  by (simp add: memory_write_word_def unat_add_1_2_3 [of a 4] bytes_4_def list_update_swap)

lemmas access_inside =
  read_byte_inside read_half_inside read_word_inside
  write_byte_inside write_half_inside write_word_inside

lemma wf_memory_update:
  "wf_memory (Some m) \<Longrightarrow> length d = length (mdata m) \<Longrightarrow> wf_memory (Some (m\<lparr>mdata := d\<rparr>))"
  by (simp add: wf_memory_def)

lemma inside_update [simp]: "inside (Some (m\<lparr>mdata := d\<rparr>)) a n \<longleftrightarrow> inside (Some m) a n"
  by (simp add: inside_def)

lemma not_inside: "\<not> inside mem a n \<Longrightarrow> mem = None \<or> straddles mem a n \<or> msize (the mem) \<le> unat a"
  by (cases mem) (auto simp: inside_def straddles_def)

lemma read_word_refused: "mem = None \<or> msize (the mem) \<le> unat a \<Longrightarrow> memory_read_word mem a be = Inr None"
  by (cases mem) (auto simp: memory_read_word_def)

lemma read_half_refused: "mem = None \<or> msize (the mem) \<le> unat a \<Longrightarrow> memory_read_half mem a be = Inr None"
  by (cases mem) (auto simp: memory_read_half_def)

lemma read_byte_refused: "mem = None \<or> msize (the mem) \<le> unat a \<Longrightarrow> memory_read_byte mem a = Inr None"
  by (cases mem) (auto simp: memory_read_byte_def)

lemma write_word_refused:
  "mem = None \<or> msize (the mem) \<le> unat a \<Longrightarrow> memory_write_word mem a v be = Inr (-1, mem)"
  by (cases mem) (auto simp: memory_write_word_def)

lemma write_half_refused:
  "mem = None \<or> msize (the mem) \<le> unat a \<Longrightarrow> memory_write_half mem a v be = Inr (-1, mem)"
  by (cases mem) (auto simp: memory_write_half_def)

lemma write_byte_refused:
  "mem = None \<or> msize (the mem) \<le> unat a \<Longrightarrow> memory_write_byte mem a v = Inr (-1, mem)"
  by (cases mem) (auto simp: memory_write_byte_def)

lemmas access_refused =
  read_byte_refused read_half_refused read_word_refused
  write_byte_refused write_half_refused write_word_refused

text \<open>The first byte past the block that a straddling access touches.\<close>

lemma straddles_offset:
  assumes "straddles (Some m) a n" "wf_memory (Some m)" "n \<le> 4"
  obtains "unat (a + 1) = length (mdata m)" "unat a < length (mdata m)" "1 < n"
    | "unat (a + 2) = length (mdata m)" "unat (a + 1) < length (mdata m)"
      "unat a < length (mdata m)" "2 < n"
    | "unat (a + 3) = length (mdata m)" "unat (a + 2) < length (mdata m)"
      "unat (a + 1) < length (mdata m)" "unat a < length (mdata m)" "3 < n"
proof -
  have b: "unat a < msize m" "msize m < unat a + n" "length (mdata m) = msize m"
    "msize m < 4294967296"
    using assms by (auto simp: straddles_def wf_memory_def)
  have "msize m = unat a + 1 \<or> msize m = unat a + 2 \<or> msize m = unat a + 3"
    using b assms(3) by linarith
  then show thesis
  proof (elim disjE)
    assume e: "msize m = unat a + 1"
    with b show thesis using that(1) unat_add_1_2_3(1) [of a 2] by simp
  next
    assume e: "msize m = unat a + 2"
    with b show thesis
      using that(2) unat_add_1_2_3(1) [of a 3] unat_add_1_2_3(2) [of a 3] by simp
  next
    assume e: "msize m = unat a + 3"
    with b show thesis
      using that(3) unat_add_1_2_3(1) [of a 4] unat_add_1_2_3(2) [of a 4]
        unat_add_1_2_3(3) [of a 4] by simp
  qed
qed

lemma read_word_straddles:
  assumes "straddles mem a 4" "wf_memory mem"
  shows "memory_read_word mem a be = Inl Out_Of_Bounds"
proof -
  obtain m where m: "mem = Some m" using assms(1) by (cases mem) (auto simp: straddles_def)
  with assms have "\<not> msize m \<le> unat a" by (simp add: straddles_def)
  with assms show ?thesis
    unfolding m by (elim straddles_offset) (simp_all add: memory_read_word_def)
qed

lemma read_half_straddles:
  assumes "straddles mem a 2" "wf_memory mem"
  shows "memory_read_half mem a be = Inl Out_Of_Bounds"
proof -
  obtain m where m: "mem = Some m" using assms(1) by (cases mem) (auto simp: straddles_def)
  with assms have "\<not> msize m \<le> unat a" by (simp add: straddles_def)
  with assms show ?thesis
    unfolding m by (elim straddles_offset) (simp_all add: memory_read_half_def)
qed

lemma write_word_straddles:
  assumes "straddles mem a 4" "wf_memory mem"
  shows "memory_write_word mem a v be = Inl Out_Of_Bounds"
proof -
  obtain m where m: "mem = Some m" using assms(1) by (cases mem) (auto simp: straddles_def)
  with assms have "\<not> msize m \<le> unat a" by (simp add: straddles_def)
  with assms show ?thesis
    unfolding m by (elim straddles_offset) (simp_all add: memory_write_word_def bindR_def store_def)
qed

lemma write_half_straddles:
  assumes "straddles mem a 2" "wf_memory mem"
  shows "memory_write_half mem a v be = Inl Out_Of_Bounds"
proof -
  obtain m where m: "mem = Some m" using assms(1) by (cases mem) (auto simp: straddles_def)
  with assms have "\<not> msize m \<le> unat a" by (simp add: straddles_def)
  with assms show ?thesis
    unfolding m by (elim straddles_offset) (simp_all add: memory_write_half_def)
qed

lemmas access_straddles =
  read_half_straddles read_word_straddles write_half_straddles write_word_straddles

lemma access_cases:
  obtains (null_or_beyond) "mem = None \<or> msize (the mem) \<le> unat a"
    | (straddles) "straddles mem a n"
    | (inside) m where "mem = Some m" "inside (Some m) a n"
proof (cases mem)
  case None
  then show thesis using null_or_beyond by simp
next
  case (Some m)
  consider "msize m \<le> unat a" | "unat a + n \<le> msize m"
    | "unat a < msize m" "msize m < unat a + n"
    by linarith
  then show thesis
    by cases (use Some that in \<open>auto simp: inside_def straddles_def\<close>)
qed

section \<open>What a write changes\<close>

definition same_shape :: "memory \<Rightarrow> memory \<Rightarrow> bool" where
  "same_shape mem mem' \<longleftrightarrow>
     (mem = None \<longleftrightarrow> mem' = None) \<and> memory_get_size mem = memory_get_size mem'"

lemma same_shape_refl [simp]: "same_shape mem mem"
  by (simp add: same_shape_def)

lemma same_shape_trans: "same_shape a b \<Longrightarrow> same_shape b c \<Longrightarrow> same_shape a c"
  by (simp add: same_shape_def)

lemma same_shape_update [simp]: "same_shape (Some m) (Some (m\<lparr>mdata := d\<rparr>))"
  by (simp add: same_shape_def memory_get_size_def)

definition write_keeps :: "memory \<Rightarrow> int \<times> memory \<Rightarrow> bool" where
  "write_keeps mem = (\<lambda>(rc, mem'). wf_memory mem' \<and> same_shape mem mem' \<and> rc \<in> {0, -1})"

lemma write_byte_outcome:
  assumes "wf_memory mem"
  shows "outcome {} (write_keeps mem) (memory_write_byte mem a v)"
  by (cases rule: access_cases [where mem = mem and a = a and n = 1])
    (use assms in \<open>auto simp: access_refused access_inside wf_memory_update write_keeps_def
       straddles_def split: option.splits\<close>)

lemma write_half_outcome:
  assumes "wf_memory mem"
  shows "outcome {Out_Of_Bounds} (write_keeps mem) (memory_write_half mem a v be)"
  by (cases rule: access_cases [where mem = mem and a = a and n = 2])
    (use assms in \<open>auto simp: access_refused access_inside access_straddles wf_memory_update
       write_keeps_def\<close>)

lemma write_word_outcome:
  assumes "wf_memory mem"
  shows "outcome {Out_Of_Bounds} (write_keeps mem) (memory_write_word mem a v be)"
  by (cases rule: access_cases [where mem = mem and a = a and n = 4])
    (use assms in \<open>auto simp: access_refused access_inside access_straddles wf_memory_update
       write_keeps_def\<close>)

lemma read_word_outcome:
  "wf_memory mem \<Longrightarrow> outcome {Out_Of_Bounds} (\<lambda>r. r = None \<or> inside mem a 4) (memory_read_word mem a be)"
  by (cases rule: access_cases [where mem = mem and a = a and n = 4])
    (auto simp: access_refused access_inside access_straddles)

lemma read_half_outcome:
  "wf_memory mem \<Longrightarrow> outcome {Out_Of_Bounds} (\<lambda>r. r = None \<or> inside mem a 2) (memory_read_half mem a be)"
  by (cases rule: access_cases [where mem = mem and a = a and n = 2])
    (auto simp: access_refused access_inside access_straddles)

lemma read_byte_outcome:
  "wf_memory mem \<Longrightarrow> outcome {} (\<lambda>r. r = None \<or> inside mem a 1) (memory_read_byte mem a)"
  by (cases rule: access_cases [where mem = mem and a = a and n = 1])
    (auto simp: access_refused access_inside straddles_def split: option.splits)

definition apart :: "u32 \<Rightarrow> nat \<Rightarrow> u32 \<Rightarrow> nat \<Rightarrow> bool" where
  "apart a n b k \<longleftrightarrow> unat a + n \<le> unat b \<or> unat b + k \<le> unat a"

text \<open>A word access reads back what was written there, and nothing else moves.\<close>

lemma read_word_written:
  assumes "inside mem a 4" "wf_memory mem" "memory_write_word mem a v be = Inr (rc, mem')"
  shows "memory_read_word mem' a be = Inr (Some v)"
proof -
  obtain m where m: "mem = Some m" using assms(1) by (cases mem) (auto simp: inside_def)
  note d = insideD [OF assms(1,2) [unfolded m]]
  have "mem' = Some (m\<lparr>mdata := (mdata m)
      [unat a := bytes_4 v be ! 0, unat a + 1 := bytes_4 v be ! 1,
       unat a + 2 := bytes_4 v be ! 2, unat a + 3 := bytes_4 v be ! 3]\<rparr>)"
    using assms unfolding m by (simp add: access_inside)
  then show ?thesis
    using assms(1,2) d unfolding m
    by (simp add: access_inside wf_memory_update Let_def nth_list_update bytes_4_def join_4_split)
qed

lemma read_half_written:
  assumes "inside mem a 2" "wf_memory mem" "memory_write_half mem a v be = Inr (rc, mem')"
  shows "memory_read_half mem' a be = Inr (Some v)"
proof -
  obtain m where m: "mem = Some m" using assms(1) by (cases mem) (auto simp: inside_def)
  note d = insideD [OF assms(1,2) [unfolded m]]
  have "mem' = Some (m\<lparr>mdata := (mdata m)
      [unat a := bytes_2 v be ! 0, unat a + 1 := bytes_2 v be ! 1]\<rparr>)"
    using assms unfolding m by (simp add: access_inside)
  then show ?thesis
    using assms(1,2) d unfolding m
    by (simp add: access_inside wf_memory_update Let_def nth_list_update bytes_2_def join_2_split)
qed

lemma read_byte_written:
  assumes "inside mem a 1" "wf_memory mem" "memory_write_byte mem a v = Inr (rc, mem')"
  shows "memory_read_byte mem' a = Inr (Some v)"
proof -
  obtain m where m: "mem = Some m" using assms(1) by (cases mem) (auto simp: inside_def)
  show ?thesis
    using assms insideD [OF assms(1,2) [unfolded m]] unfolding m
    by (auto simp: access_inside wf_memory_update)
qed

lemma byte_at_write_word:
  assumes "inside mem a 4" "wf_memory mem" "memory_write_word mem a v be = Inr (rc, mem')"
    and "i < unat a \<or> unat a + 4 \<le> i"
  shows "byte_at mem' i = byte_at mem i"
proof -
  obtain m where m: "mem = Some m" using assms(1) by (cases mem) (auto simp: inside_def)
  show ?thesis
    using assms insideD [OF assms(1,2) [unfolded m]] unfolding m
    by (auto simp: access_inside byte_at_def nth_list_update)
qed

lemma byte_at_write_half:
  assumes "inside mem a 2" "wf_memory mem" "memory_write_half mem a v be = Inr (rc, mem')"
    and "i < unat a \<or> unat a + 2 \<le> i"
  shows "byte_at mem' i = byte_at mem i"
proof -
  obtain m where m: "mem = Some m" using assms(1) by (cases mem) (auto simp: inside_def)
  show ?thesis
    using assms insideD [OF assms(1,2) [unfolded m]] unfolding m
    by (auto simp: access_inside byte_at_def nth_list_update)
qed

lemma byte_at_write_byte:
  assumes "inside mem a 1" "wf_memory mem" "memory_write_byte mem a v = Inr (rc, mem')"
    and "i \<noteq> unat a"
  shows "byte_at mem' i = byte_at mem i"
proof -
  obtain m where m: "mem = Some m" using assms(1) by (cases mem) (auto simp: inside_def)
  show ?thesis
    using assms insideD [OF assms(1,2) [unfolded m]] unfolding m
    by (auto simp: access_inside byte_at_def nth_list_update)
qed

lemma read_word_frame:
  assumes "inside mem a 4" "inside mem b 4" "wf_memory mem" "apart a 4 b 4"
    and "memory_write_word mem a v be = Inr (rc, mem')"
  shows "memory_read_word mem' b be' = memory_read_word mem b be'"
proof -
  obtain m where m: "mem = Some m" using assms(1) by (cases mem) (auto simp: inside_def)
  show ?thesis
    using assms insideD [OF assms(1,3) [unfolded m]] insideD [OF assms(2,3) [unfolded m]]
    unfolding m
    by (auto simp: access_inside wf_memory_update Let_def nth_list_update apart_def)
qed

lemma read_word_swaps:
  assumes "inside mem a 4" "wf_memory mem" "memory_read_word mem a be = Inr (Some v)"
  shows "memory_read_word mem a (\<not> be) = Inr (Some (reverse_4 v))"
proof -
  obtain m where m: "mem = Some m" using assms(1) by (cases mem) (auto simp: inside_def)
  show ?thesis
    using assms unfolding m by (auto simp: access_inside Let_def reverse_4_join_4)
qed

section \<open>Word stores\<close>

text \<open>
  The contract the block transfers rely on: a store of words indexed by byte addresses, with a
  predicate that says which addresses hold a whole word.
\<close>

fun store_block :: "('m \<Rightarrow> u32 \<Rightarrow> u32 \<Rightarrow> (int \<times> 'm) res) \<Rightarrow> 'm \<Rightarrow> u32 \<Rightarrow> u32 list \<Rightarrow> 'm res" where
  "store_block wr m a [] = Inr m"
| "store_block wr m a (v # vs) =
     bindR (wr m a v) (\<lambda>(rc, m'). store_block wr m' (a + 4) vs)"

fun load_block :: "('m \<Rightarrow> u32 \<Rightarrow> u32 option res) \<Rightarrow> 'm \<Rightarrow> u32 \<Rightarrow> nat \<Rightarrow> u32 option list res" where
  "load_block rd m a 0 = Inr []"
| "load_block rd m a (Suc n) =
     bindR (rd m a) (\<lambda>v. bindR (load_block rd m (a + 4) n) (\<lambda>vs. Inr (v # vs)))"

locale word_store =
  fixes rd :: "'m \<Rightarrow> u32 \<Rightarrow> u32 option res"
    and wr :: "'m \<Rightarrow> u32 \<Rightarrow> u32 \<Rightarrow> (int \<times> 'm) res"
    and ok :: "'m \<Rightarrow> u32 \<Rightarrow> bool"
  assumes wr_ok: "ok m a \<Longrightarrow> \<exists>m'. wr m a v = Inr (0, m')"
    and ok_wr: "ok m a \<Longrightarrow> wr m a v = Inr (rc, m') \<Longrightarrow> ok m' b \<longleftrightarrow> ok m b"
    and rd_same: "ok m a \<Longrightarrow> wr m a v = Inr (rc, m') \<Longrightarrow> rd m' a = Inr (Some v)"
    and rd_other: "ok m a \<Longrightarrow> ok m b \<Longrightarrow> apart a 4 b 4 \<Longrightarrow> wr m a v = Inr (rc, m') \<Longrightarrow>
      rd m' b = rd m b"
begin

definition block_ok :: "'m \<Rightarrow> u32 \<Rightarrow> nat \<Rightarrow> bool" where
  "block_ok m a n \<longleftrightarrow> unat a + 4 * n \<le> 2 ^ 32 \<and> (\<forall>k < n. ok m (a + of_nat (4 * k)))"

lemma block_ok_Suc:
  assumes "block_ok m a (Suc n)"
  shows "ok m a" and "n = 0 \<or> block_ok m (a + 4) n \<and> unat (a + 4) = unat a + 4"
proof -
  from assms show "ok m a" by (auto simp: block_ok_def dest: spec [of _ 0])
  show "n = 0 \<or> block_ok m (a + 4) n \<and> unat (a + 4) = unat a + 4"
  proof (cases n)
    case (Suc j)
    have u: "unat (a + 4) = unat a + 4"
      using assms Suc unat_add_no_wrap [of a 4] by (simp add: block_ok_def)
    have "ok m (a + 4 + of_nat (4 * k))" if "k < n" for k
    proof -
      have "ok m (a + of_nat (4 * Suc k))" using assms that unfolding block_ok_def by blast
      then show ?thesis by (simp add: algebra_simps)
    qed
    then show ?thesis using assms u by (simp add: block_ok_def)
  qed simp
qed

lemma block_ok_wr: "ok m b \<Longrightarrow> wr m b v = Inr (rc, m') \<Longrightarrow> block_ok m' a n \<longleftrightarrow> block_ok m a n"
  by (simp add: block_ok_def ok_wr)

lemma store_block_frame:
  assumes "block_ok m a (length vs)" "ok m b" "apart b 4 a (4 * length vs)"
    and "store_block wr m a vs = Inr m'"
  shows "rd m' b = rd m b \<and> ok m' b"
  using assms
proof (induction vs arbitrary: m a)
  case Nil
  then show ?case by simp
next
  case (Cons v vs)
  note b = block_ok_Suc [OF Cons.prems(1) [simplified]]
  obtain rc m1 where w: "wr m a v = Inr (rc, m1)"
    and r: "store_block wr m1 (a + 4) vs = Inr m'"
    using Cons.prems(4) by (auto simp: bindR_eq_Inr)
  have k: "ok m1 b" "rd m1 b = rd m b"
    using w b(1) Cons.prems(2,3) ok_wr [OF b(1) w] rd_other [OF b(1) _ _ w]
    by (auto simp: apart_def)
  show ?case
  proof (cases vs)
    case Nil
    with r k show ?thesis by simp
  next
    case (Cons v' vs')
    then have "block_ok m1 (a + 4) (length vs)" "unat (a + 4) = unat a + 4"
      using b block_ok_wr [OF b(1) w] by auto
    with Cons.IH [OF _ k(1) _ r] Cons.prems(3) k(2) show ?thesis
      by (auto simp: apart_def)
  qed
qed

lemma load_block_stored:
  assumes "block_ok m a (length vs)"
  shows "\<exists>m'. store_block wr m a vs = Inr m' \<and> load_block rd m' a (length vs) = Inr (map Some vs)
    \<and> (\<forall>b. ok m' b \<longleftrightarrow> ok m b)"
  using assms
proof (induction vs arbitrary: m a)
  case Nil
  then show ?case by simp
next
  case (Cons v vs)
  note b = block_ok_Suc [OF Cons.prems [simplified]]
  obtain m1 where w: "wr m a v = Inr (0, m1)" using wr_ok [OF b(1)] by blast
  have o1: "ok m1 b' \<longleftrightarrow> ok m b'" for b' using ok_wr [OF b(1) w] .
  show ?case
  proof (cases vs)
    case Nil
    with w rd_same [OF b(1) w] o1 show ?thesis by simp
  next
    case vs: (Cons v' vs')
    then have bk: "block_ok m1 (a + 4) (length vs)" and u: "unat (a + 4) = unat a + 4"
      using b block_ok_wr [OF b(1) w] by auto
    obtain m2 where m2: "store_block wr m1 (a + 4) vs = Inr m2"
      "load_block rd m2 (a + 4) (length vs) = Inr (map Some vs)" "\<forall>b. ok m2 b \<longleftrightarrow> ok m1 b"
      using Cons.IH [OF bk] by blast
    have "rd m2 a = rd m1 a"
      using store_block_frame [OF bk _ _ m2(1), of a] b(1) o1 u by (simp add: apart_def)
    with w m2 rd_same [OF b(1) w] o1 show ?thesis by simp
  qed
qed

end

definition holds_word :: "memory \<Rightarrow> u32 \<Rightarrow> bool" where
  "holds_word mem a \<longleftrightarrow> wf_memory mem \<and> inside mem a 4"

lemma holds_word_write:
  assumes "holds_word mem a" "memory_write_word mem a v be = Inr (rc, mem')"
  shows "holds_word mem' b \<longleftrightarrow> holds_word mem b"
proof -
  obtain m where m: "mem = Some m" using assms(1) by (cases mem) (auto simp: inside_def holds_word_def)
  show ?thesis
    using assms unfolding m by (auto simp: access_inside holds_word_def wf_memory_def)
qed

interpretation be_words: word_store
  "\<lambda>mem a. memory_read_word mem a be" "\<lambda>mem a v. memory_write_word mem a v be" holds_word for be
proof unfold_locales
  fix mem a v assume a: "holds_word mem a"
  then obtain m where "mem = Some m" by (cases mem) (auto simp: inside_def holds_word_def)
  with a show "\<exists>mem'. memory_write_word mem a v be = Inr (0, mem')"
    by (auto simp: holds_word_def access_inside)
qed (use holds_word_write read_word_written read_word_frame in \<open>auto simp: holds_word_def\<close>)

section \<open>Properties\<close>

text \<open>C8: A word written inside the memory, in either byte order, is read back by the word access
  of the same order; the write returns 0, keeps the memory well formed, and changes no byte outside
  the four it addresses.\<close>

theorem memory_word_roundtrip:
  assumes "wf_memory mem" "inside mem a 4"
  shows "\<exists>mem'. memory_write_word mem a v be = Inr (0, mem')
    \<and> memory_read_word mem' a be = Inr (Some v)
    \<and> wf_memory mem' \<and> same_shape mem mem'
    \<and> (\<forall>i. i < unat a \<or> unat a + 4 \<le> i \<longrightarrow> byte_at mem' i = byte_at mem i)"
proof -
  obtain mem' where w: "memory_write_word mem a v be = Inr (0, mem')"
    using be_words.wr_ok [of mem a] assms by (auto simp: holds_word_def)
  with write_word_outcome [OF assms(1), of a v be] show ?thesis
    using read_word_written [OF assms(2,1) w] byte_at_write_word [OF assms(2,1) w]
    by (auto simp: write_keeps_def)
qed

theorem memory_word_roundtrip_witness:
  "\<exists>mem'. memory_write_word (Some \<lparr>msize = 8, mdata = replicate 8 0\<rparr>) 3 0x11223344 True = Inr (0, mem')
    \<and> memory_read_word mem' 3 True = Inr (Some 0x11223344)"
  using memory_word_roundtrip [of "Some \<lparr>msize = 8, mdata = replicate 8 0\<rparr>" 3 "0x11223344" True]
  by (auto simp: wf_memory_def inside_def)

text \<open>Halves and bytes read back what was written, with no other byte changed.\<close>

theorem memory_half_byte_roundtrip:
  assumes "wf_memory mem" "inside mem a 2"
  shows "\<exists>mem1 mem2.
      memory_write_half mem a h be = Inr (0, mem1) \<and> memory_read_half mem1 a be = Inr (Some h)
    \<and> (\<forall>i. i < unat a \<or> unat a + 2 \<le> i \<longrightarrow> byte_at mem1 i = byte_at mem i)
    \<and> memory_write_byte mem a b = Inr (0, mem2) \<and> memory_read_byte mem2 a = Inr (Some b)
    \<and> (\<forall>i. i \<noteq> unat a \<longrightarrow> byte_at mem2 i = byte_at mem i)"
proof -
  have i1: "inside mem a 1" using assms(2) by (auto simp: inside_def split: option.splits)
  obtain mem1 mem2 where w: "memory_write_half mem a h be = Inr (0, mem1)"
    "memory_write_byte mem a b = Inr (0, mem2)"
    using assms i1 by (cases mem) (auto simp: access_inside inside_def)
  then show ?thesis
    using read_half_written [OF assms(2,1) w(1)] byte_at_write_half [OF assms(2,1) w(1)]
      read_byte_written [OF i1 assms(1) w(2)] byte_at_write_byte [OF i1 assms(1) w(2)]
    by blast
qed

theorem memory_half_byte_roundtrip_witness:
  "\<exists>mem1. memory_write_half (Some \<lparr>msize = 4, mdata = replicate 4 0\<rparr>) 2 0x5566 False = Inr (0, mem1)
    \<and> memory_read_half mem1 2 False = Inr (Some 0x5566)"
  using memory_half_byte_roundtrip [of "Some \<lparr>msize = 4, mdata = replicate 4 0\<rparr>" 2 "0x5566" False 0]
  by (auto simp: wf_memory_def inside_def)

text \<open>C28: The outcome of a word access is decided by the address alone: -1 exactly for a null memory
  or an address at or past the size, a fault of the simulator exactly when the word starts inside
  and ends outside (the guard tests the first byte only), a value exactly when it is inside.\<close>

theorem memory_word_access_outcome:
  assumes "wf_memory mem"
  shows "(memory_read_word mem a be = Inr None \<longleftrightarrow> memory_get_size mem \<le> unat a)
    \<and> (memory_read_word mem a be = Inl Out_Of_Bounds \<longleftrightarrow> straddles mem a 4)
    \<and> ((\<exists>v. memory_read_word mem a be = Inr (Some v)) \<longleftrightarrow> inside mem a 4)
    \<and> (memory_write_word mem a w be = Inr (-1, mem) \<longleftrightarrow> memory_get_size mem \<le> unat a)
    \<and> (memory_write_word mem a w be = Inl Out_Of_Bounds \<longleftrightarrow> straddles mem a 4)"
proof (cases rule: access_cases [where mem = mem and a = a and n = 4])
  case null_or_beyond
  then show ?thesis
    by (cases mem)
      (auto simp: read_word_refused write_word_refused straddles_def inside_def memory_get_size_def)
next
  case straddles
  with assms show ?thesis
    by (cases mem)
      (auto simp: read_word_straddles write_word_straddles straddles_def inside_def
        memory_get_size_def)
next
  case (inside m)
  with assms show ?thesis
    by (auto simp: access_inside straddles_def inside_def memory_get_size_def)
qed

theorem memory_word_access_outcome_witness:
  "memory_read_word (Some \<lparr>msize = 8, mdata = replicate 8 0\<rparr>) 6 True = Inl Out_Of_Bounds
    \<and> memory_read_word (Some \<lparr>msize = 8, mdata = replicate 8 0\<rparr>) 8 True = Inr None"
  using memory_word_access_outcome [of "Some \<lparr>msize = 8, mdata = replicate 8 0\<rparr>" 6 True 0]
    memory_word_access_outcome [of "Some \<lparr>msize = 8, mdata = replicate 8 0\<rparr>" 8 True 0]
  by (auto simp: wf_memory_def straddles_def memory_get_size_def)

text \<open>Reading a word in the other byte order gives the bytes of the value reversed, as the
  macro \<^verbatim>\<open>reverse_4\<close> does.\<close>

theorem memory_word_endianness:
  assumes "wf_memory mem" "inside mem a 4" "memory_read_word mem a be = Inr (Some v)"
  shows "memory_read_word mem a (\<not> be) = Inr (Some (reverse_4 v))"
  using assms read_word_swaps by blast

theorem memory_word_endianness_witness:
  "memory_read_word (Some \<lparr>msize = 4, mdata = [0x44, 0x33, 0x22, 0x11]\<rparr>) 0 False
     = Inr (Some (reverse_4 0x44332211))"
  using memory_word_endianness [of "Some \<lparr>msize = 4, mdata = [0x44, 0x33, 0x22, 0x11]\<rparr>" 0 True "0x44332211"]
  by (simp add: wf_memory_def inside_def memory_read_word_def join_4_def)

end
