(* ===== verification/Arm_Constants.thy ===== *)
theory Arm_Constants
  imports Prelude
begin

text \<open>
  The constants of \<^verbatim>\<open>arm_constants.h\<close> and the name tables of \<^verbatim>\<open>arm_constants.c\<close>. Mode numbers,
  register numbers and exception numbers are small C integers used as indices and switch labels and
  are natural numbers here; condition and shift codes are compared with instruction fields and are
  32-bit words.
\<close>

section \<open>Processor modes\<close>

abbreviation USR :: nat where "USR \<equiv> 0x10"
abbreviation FIQ :: nat where "FIQ \<equiv> 0x11"
abbreviation IRQ :: nat where "IRQ \<equiv> 0x12"
abbreviation SVC :: nat where "SVC \<equiv> 0x13"
abbreviation ABT :: nat where "ABT \<equiv> 0x17"
abbreviation UND :: nat where "UND \<equiv> 0x1b"
abbreviation SYS :: nat where "SYS \<equiv> 0x1f"

section \<open>Registers\<close>

abbreviation SP :: nat where "SP \<equiv> 13"
abbreviation LR :: nat where "LR \<equiv> 14"
abbreviation PC :: nat where "PC \<equiv> 15"
abbreviation CPSR :: nat where "CPSR \<equiv> 16"
abbreviation SPSR :: nat where "SPSR \<equiv> 17"

section \<open>Exceptions, by priority\<close>

abbreviation RESET :: nat where "RESET \<equiv> 1"
abbreviation DATA_ABORT :: nat where "DATA_ABORT \<equiv> 2"
abbreviation FAST_INTERRUPT :: nat where "FAST_INTERRUPT \<equiv> 3"
abbreviation INTERRUPT :: nat where "INTERRUPT \<equiv> 4"
abbreviation IMPRECISE_ABORT :: nat where "IMPRECISE_ABORT \<equiv> 5"
abbreviation PREFETCH_ABORT :: nat where "PREFETCH_ABORT \<equiv> 6"
abbreviation UNDEFINED_INSTRUCTION :: nat where "UNDEFINED_INSTRUCTION \<equiv> 7"
abbreviation SOFTWARE_INTERRUPT :: nat where "SOFTWARE_INTERRUPT \<equiv> 8"
abbreviation END_SIMULATION :: nat where "END_SIMULATION \<equiv> 9"

section \<open>Bits of the status register\<close>

abbreviation N_bit :: nat where "N_bit \<equiv> 31"
abbreviation Z_bit :: nat where "Z_bit \<equiv> 30"
abbreviation C_bit :: nat where "C_bit \<equiv> 29"
abbreviation V_bit :: nat where "V_bit \<equiv> 28"

section \<open>Shift operations\<close>

abbreviation LSL :: u32 where "LSL \<equiv> 0"
abbreviation LSR :: u32 where "LSR \<equiv> 1"
abbreviation ASR :: u32 where "ASR \<equiv> 2"
abbreviation ROR :: u32 where "ROR \<equiv> 3"

section \<open>Condition codes\<close>

abbreviation EQ :: u32 where "EQ \<equiv> 0x0"
abbreviation NE :: u32 where "NE \<equiv> 0x1"
abbreviation CS :: u32 where "CS \<equiv> 0x2"
abbreviation CC :: u32 where "CC \<equiv> 0x3"
abbreviation MI :: u32 where "MI \<equiv> 0x4"
abbreviation PL :: u32 where "PL \<equiv> 0x5"
abbreviation VS :: u32 where "VS \<equiv> 0x6"
abbreviation VC :: u32 where "VC \<equiv> 0x7"
abbreviation HI :: u32 where "HI \<equiv> 0x8"
abbreviation LS :: u32 where "LS \<equiv> 0x9"
abbreviation GE :: u32 where "GE \<equiv> 0xA"
abbreviation LT :: u32 where "LT \<equiv> 0xB"
abbreviation GT :: u32 where "GT \<equiv> 0xC"
abbreviation LE :: u32 where "LE \<equiv> 0xD"
abbreviation AL :: u32 where "AL \<equiv> 0xE"

section \<open>Name tables\<close>

definition arm_mode_names :: "string option list" where
  "arm_mode_names =
     replicate 16 None
     @ [Some ''USR'', Some ''FIQ'', Some ''IRQ'', Some ''SVC'', None, None, None,
        Some ''ABT'', None, None, None, Some ''UND'', None, None, None, Some ''SYS'']"

definition arm_register_names :: "string list" where
  "arm_register_names =
     [''R00'', ''R01'', ''R02'', ''R03'', ''R04'', ''R05'',
      ''R06'', ''R07'', ''R08'', ''R09'', ''R10'', ''R11'',
      ''R12'', ''SP'', ''LR'', ''PC'', ''CPSR'', ''SPSR'']"

definition arm_exception_names :: "string option list" where
  "arm_exception_names =
     [None, Some ''reset'', Some ''data abort'', Some ''fast interrupt'', Some ''interrupt'',
      Some ''imprecise abort'', Some ''prefetch abort'', Some ''undefined instruction'',
      Some ''software interrupt'']"

definition arm_get_exception_name :: "nat \<Rightarrow> string option res" where
  "arm_get_exception_name exception =
     (if exception < 8 then load arm_exception_names exception else Inr None)"

definition arm_get_mode_name :: "nat \<Rightarrow> string option res" where
  "arm_get_mode_name mode = load arm_mode_names mode"

text \<open>The search loop of \<^verbatim>\<open>arm_get_mode_number\<close>, from index \<open>i\<close> over the rest of the table.\<close>

fun find_mode_number :: "string \<Rightarrow> nat \<Rightarrow> string option list \<Rightarrow> int" where
  "find_mode_number name i [] = -1"
| "find_mode_number name i (entry # rest) =
     (if entry \<noteq> None \<and> entry = Some name then int i
      else find_mode_number name (Suc i) rest)"

definition arm_get_mode_number :: "string \<Rightarrow> int" where
  "arm_get_mode_number name = find_mode_number name 0 arm_mode_names"

definition arm_get_register_name :: "nat \<Rightarrow> string res" where
  "arm_get_register_name reg = load arm_register_names reg"

lemma length_arm_mode_names [simp]: "length arm_mode_names = 32"
  by (simp add: arm_mode_names_def)

lemma find_mode_number_bounds:
  "find_mode_number name i xs = -1 \<or>
   (\<exists>k < length xs. find_mode_number name i xs = int (i + k) \<and> xs ! k = Some name)"
proof (induction xs arbitrary: i)
  case Nil
  then show ?case by simp
next
  case (Cons x xs)
  show ?case
  proof (cases "x = Some name")
    case True
    then show ?thesis by (intro disjI2 exI [of _ 0]) simp
  next
    case False
    with Cons.IH [of "Suc i"] show ?thesis
      by (auto intro: exI [of _ "Suc k" for k])
  qed
qed

lemma find_mode_number_absent:
  "find_mode_number name i xs = -1 \<longleftrightarrow> Some name \<notin> set xs"
  by (induction xs arbitrary: i) auto

end
