(* ===== verification/Registers.thy ===== *)
theory Registers
  imports Util Arm_Constants
begin

text \<open>
  The banked register file of \<^verbatim>\<open>registers.c\<close>. Every register owns an array of values and a
  table of seven pointers into it, one per mode; a pointer is an index into the array, \<open>None\<close> is the
  null pointer. On a little-endian host the values are stored with their bytes reversed, except
  those of the CPSR, which \<^verbatim>\<open>registers_read_cpsr\<close> and \<^verbatim>\<open>registers_write_cpsr\<close> access directly.
  Allocations are assumed to succeed, as the code assumes.
\<close>

section \<open>Data and operations\<close>

abbreviation N_REGISTRES :: nat where "N_REGISTRES \<equiv> 18"
abbreviation N_MODES :: nat where "N_MODES \<equiv> 7"

record register_data =
  rdata :: "u32 list"
  rptrs :: "nat option list"

type_synonym registers = "register_data list"

definition register_create :: "nat \<Rightarrow> register_data" where
  "register_create i =
     (if i \<in> {8, 9, 10, 11, 12} then
        \<lparr>rdata = replicate 2 0,
         rptrs = map (\<lambda>j. if j < N_MODES - 1 then Some 0 else Some 1) [0..<N_MODES]\<rparr>
      else if i \<in> {13, 14} then
        \<lparr>rdata = replicate 6 0,
         rptrs = map (\<lambda>j. if 2 \<le> j then Some j else Some 0) [0..<N_MODES]\<rparr>
      else if i = 17 then
        \<lparr>rdata = replicate 5 0,
         rptrs = map (\<lambda>j. if 2 \<le> j then Some (j - 2) else None) [0..<N_MODES]\<rparr>
      else
        \<lparr>rdata = replicate 1 0,
         rptrs = map (\<lambda>j. Some 0) [0..<N_MODES]\<rparr>)"

definition registers_create :: registers where
  "registers_create = map register_create [0..<N_REGISTRES]"

definition get_read_write_mode :: "nat \<Rightarrow> nat" where
  "get_read_write_mode mode =
     (if mode = USR then 0
      else if mode = SYS then 1
      else if mode = SVC then 2
      else if mode = ABT then 3
      else if mode = UND then 4
      else if mode = IRQ then 5
      else if mode = FIQ then 6
      else 0)"

definition registers_get_mode :: "registers \<Rightarrow> nat" where
  "registers_get_mode r = unat (get_bits (rdata (r ! CPSR) ! 0) 5 0)"

definition registers_mode_has_spsr :: "nat \<Rightarrow> bool" where
  "registers_mode_has_spsr mode \<longleftrightarrow> get_read_write_mode mode \<ge> 2"

definition registers_current_mode_has_spsr :: "registers \<Rightarrow> bool" where
  "registers_current_mode_has_spsr r = registers_mode_has_spsr (registers_get_mode r)"

definition registers_in_a_privileged_mode :: "registers \<Rightarrow> bool" where
  "registers_in_a_privileged_mode r \<longleftrightarrow> registers_get_mode r \<noteq> USR"

definition registers_read :: "host \<Rightarrow> registers \<Rightarrow> nat \<Rightarrow> nat \<Rightarrow> u32 res" where
  "registers_read h r reg mode =
     bindR (load r reg) (\<lambda>rd.
     bindR (load (rptrs rd) (get_read_write_mode mode)) (\<lambda>ptr.
     case ptr of
       None \<Rightarrow> Inl Null_Pointer
     | Some k \<Rightarrow>
         bindR (load (rdata rd) k) (\<lambda>x.
         Inr (if \<not> is_big_endian h then switch_endian h x else x))))"

definition registers_read_cpsr :: "registers \<Rightarrow> u32" where
  "registers_read_cpsr r = rdata (r ! CPSR) ! 0"

definition registers_read_spsr :: "host \<Rightarrow> registers \<Rightarrow> nat \<Rightarrow> u32 res" where
  "registers_read_spsr h r mode = registers_read h r SPSR mode"

definition registers_write :: "host \<Rightarrow> registers \<Rightarrow> nat \<Rightarrow> nat \<Rightarrow> u32 \<Rightarrow> registers res" where
  "registers_write h r reg mode v =
     bindR (load r reg) (\<lambda>rd.
     bindR (load (rptrs rd) (get_read_write_mode mode)) (\<lambda>ptr.
     case ptr of
       None \<Rightarrow> Inl Null_Pointer
     | Some k \<Rightarrow>
         bindR (store (rdata rd) k (if \<not> is_big_endian h then switch_endian h v else v)) (\<lambda>d.
         Inr (r[reg := rd\<lparr>rdata := d\<rparr>]))))"

definition registers_write_cpsr :: "registers \<Rightarrow> u32 \<Rightarrow> registers" where
  "registers_write_cpsr r v = r[CPSR := (r ! CPSR)\<lparr>rdata := (rdata (r ! CPSR))[0 := v]\<rparr>]"

definition registers_write_spsr :: "host \<Rightarrow> registers \<Rightarrow> nat \<Rightarrow> u32 \<Rightarrow> registers res" where
  "registers_write_spsr h r mode v =
     (if registers_mode_has_spsr mode then registers_write h r SPSR mode v else Inr r)"

section \<open>Well-formed register files\<close>

text \<open>
  The pointer tables are those the constructor sets up, and the arrays have the allocated lengths.
\<close>

definition wf_registers :: "registers \<Rightarrow> bool" where
  "wf_registers r \<longleftrightarrow>
     length r = N_REGISTRES \<and>
     (\<forall>i < N_REGISTRES. rptrs (r ! i) = rptrs (register_create i) \<and>
        length (rdata (r ! i)) = length (rdata (register_create i)))"

text \<open>
  The storage cell a register name denotes in a mode, and what an access to it does.
\<close>

definition cell :: "nat \<Rightarrow> nat \<Rightarrow> fault + nat" where
  "cell reg mode =
     (let m = get_read_write_mode mode in
      if reg \<ge> N_REGISTRES then Inl Out_Of_Bounds
      else if 8 \<le> reg \<and> reg \<le> 12 then Inr (if m < 6 then 0 else 1)
      else if reg = 13 \<or> reg = 14 then
        (if m < 2 then Inr 0 else if m < 6 then Inr m else Inl Out_Of_Bounds)
      else if reg = 17 then (if m < 2 then Inl Null_Pointer else Inr (m - 2))
      else Inr 0)"

lemma get_read_write_mode_le: "get_read_write_mode mode \<le> 6"
  by (simp add: get_read_write_mode_def)

lemma wf_registers_create: "wf_registers registers_create"
  by (simp add: wf_registers_def registers_create_def)

lemma rptrs_create:
  assumes "m \<le> 6"
  shows "rptrs (register_create i) ! m =
    (if 8 \<le> i \<and> i \<le> 12 then Some (if m < 6 then 0 else 1)
     else if i = 13 \<or> i = 14 then Some (if 2 \<le> m then m else 0)
     else if i = 17 then (if 2 \<le> m then Some (m - 2) else None)
     else Some 0)"
  using assms by (auto simp: register_create_def less_Suc_eq_le simp flip: One_nat_def simp del: upt_Suc)

lemma length_create:
  "length (rptrs (register_create i)) = 7"
  "length (rdata (register_create i)) =
    (if 8 \<le> i \<and> i \<le> 12 then 2 else if i = 13 \<or> i = 14 then 6 else if i = 17 then 5 else 1)"
  by (auto simp: register_create_def)

lemma registers_read_cell:
  assumes "wf_registers r"
  shows "registers_read h r reg mode =
    bindR (cell reg mode) (\<lambda>k. Inr (if host_big_endian h then rdata (r ! reg) ! k
                                      else reverse_4 (rdata (r ! reg) ! k)))"
proof (cases "reg < N_REGISTRES")
  case True
  then have w: "length r = 18" "rptrs (r ! reg) = rptrs (register_create reg)"
    "length (rdata (r ! reg)) = length (rdata (register_create reg))"
    using assms by (auto simp: wf_registers_def)
  then show ?thesis
    using True get_read_write_mode_le [of mode]
    by (auto simp: registers_read_def cell_def Let_def length_create rptrs_create less_Suc_eq_le
        is_big_endian_host switch_endian_reverse_4)
next
  case False
  then show ?thesis using assms by (simp add: registers_read_def cell_def wf_registers_def)
qed

lemma registers_write_cell:
  assumes "wf_registers r"
  shows "registers_write h r reg mode v =
    bindR (cell reg mode) (\<lambda>k. Inr (r[reg := (r ! reg)\<lparr>rdata := (rdata (r ! reg))
      [k := (if host_big_endian h then v else reverse_4 v)]\<rparr>]))"
proof (cases "reg < N_REGISTRES")
  case True
  then have w: "length r = 18" "rptrs (r ! reg) = rptrs (register_create reg)"
    "length (rdata (r ! reg)) = length (rdata (register_create reg))"
    using assms by (auto simp: wf_registers_def)
  then show ?thesis
    using True get_read_write_mode_le [of mode]
    by (auto simp: registers_write_def cell_def Let_def length_create rptrs_create less_Suc_eq_le
        is_big_endian_host switch_endian_reverse_4)
next
  case False
  then show ?thesis using assms by (simp add: registers_write_def cell_def wf_registers_def)
qed

lemma cell_in_range: "cell reg mode = Inr k \<Longrightarrow> reg < 18 \<and> k < length (rdata (register_create reg))"
  using get_read_write_mode_le [of mode]
  by (auto simp: cell_def Let_def length_create split: if_splits)

lemma wf_registers_update:
  assumes "wf_registers r" "length d = length (rdata (r ! i))"
  shows "wf_registers (r[i := (r ! i)\<lparr>rdata := d\<rparr>])"
proof (cases "i < length r")
  case True
  with assms show ?thesis by (simp add: wf_registers_def nth_list_update)
next
  case False
  with assms show ?thesis by (simp add: list_update_beyond)
qed

lemma wf_registers_write:
  "wf_registers r \<Longrightarrow> registers_write h r reg mode v = Inr r' \<Longrightarrow> wf_registers r'"
  by (auto simp: registers_write_cell bindR_eq_Inr intro: wf_registers_update)

lemma registers_read_written:
  assumes "wf_registers r" "registers_write h r reg mode v = Inr r'"
  shows "registers_read h r' reg' mode' =
    (if reg' = reg \<and> cell reg' mode' = cell reg mode then Inr v else registers_read h r reg' mode')"
proof -
  obtain k where k: "cell reg mode = Inr k" and r': "r' = r[reg := (r ! reg)\<lparr>rdata := (rdata (r ! reg))
      [k := (if host_big_endian h then v else reverse_4 v)]\<rparr>]"
    using assms by (auto simp: registers_write_cell bindR_eq_Inr)
  have w: "wf_registers r'" using assms by (rule wf_registers_write)
  have l: "length r = 18" "reg < 18" "k < length (rdata (r ! reg))"
    using assms(1) cell_in_range [OF k] by (auto simp: wf_registers_def)
  show ?thesis
  proof (cases "cell reg' mode'")
    case (Inl e)
    then show ?thesis using k by (simp add: registers_read_cell [OF w] registers_read_cell [OF assms(1)])
  next
    case (Inr k')
    then show ?thesis
      using k l
      by (simp add: registers_read_cell [OF w] registers_read_cell [OF assms(1)])
        (auto simp: r' nth_list_update)
  qed
qed

lemma registers_write_total:
  "wf_registers r \<Longrightarrow> (\<exists>r'. registers_write h r reg mode v = Inr r') \<longleftrightarrow> (\<exists>k. cell reg mode = Inr k)"
  by (simp add: registers_write_cell bindR_eq_Inr)

lemma wf_registers_write_cpsr [intro]: "wf_registers r \<Longrightarrow> wf_registers (registers_write_cpsr r v)"
  by (simp add: registers_write_cpsr_def wf_registers_update)

lemma wf_registers_cpsr: "wf_registers r \<Longrightarrow> length r = 18 \<and> length (rdata (r ! CPSR)) = 1"
  by (auto simp: wf_registers_def length_create)

lemma read_cpsr_write_cpsr [reg_simps]:
  "wf_registers r \<Longrightarrow> registers_read_cpsr (registers_write_cpsr r v) = v"
  using wf_registers_cpsr [of r] by (simp add: registers_read_cpsr_def registers_write_cpsr_def)

lemma read_cpsr_write:
  assumes "wf_registers r" "registers_write h r reg mode v = Inr r'" "reg \<noteq> CPSR"
  shows "registers_read_cpsr r' = registers_read_cpsr r"
  using assms by (auto simp: registers_read_cpsr_def registers_write_cell bindR_eq_Inr)

lemma read_write_cpsr [reg_simps]:
  assumes "wf_registers r" "reg \<noteq> CPSR"
  shows "registers_read h (registers_write_cpsr r v) reg mode = registers_read h r reg mode"
  using assms wf_registers_write_cpsr [OF assms(1), of v]
  by (simp add: registers_read_cell registers_write_cpsr_def cong: if_cong)

lemma get_mode_cpsr: "registers_get_mode r = unat (get_bits (registers_read_cpsr r) 5 0)"
  by (simp add: registers_get_mode_def registers_read_cpsr_def)


section \<open>Register banks\<close>

text \<open>
  The contract the instruction handlers rely on: a store of 32-bit values named by a register and
  a mode, where two names denote the same value exactly when their physical cells coincide, and an
  access to a name without a cell faults.
\<close>

fun write_list :: "('r \<Rightarrow> nat \<Rightarrow> nat \<Rightarrow> u32 \<Rightarrow> 'r res) \<Rightarrow> 'r \<Rightarrow> nat \<Rightarrow> (nat \<times> u32) list \<Rightarrow> 'r res" where
  "write_list wr r mode [] = Inr r"
| "write_list wr r mode ((reg, v) # xs) = bindR (wr r reg mode v) (\<lambda>r'. write_list wr r' mode xs)"

locale register_bank =
  fixes rd :: "'r \<Rightarrow> nat \<Rightarrow> nat \<Rightarrow> u32 res"
    and wr :: "'r \<Rightarrow> nat \<Rightarrow> nat \<Rightarrow> u32 \<Rightarrow> 'r res"
    and wf :: "'r \<Rightarrow> bool"
    and phys :: "nat \<Rightarrow> nat \<Rightarrow> nat res"
  assumes wf_wr: "wf r \<Longrightarrow> wr r reg mode v = Inr r' \<Longrightarrow> wf r'"
    and wr_total: "wf r \<Longrightarrow> phys reg mode = Inr k \<Longrightarrow> \<exists>r'. wr r reg mode v = Inr r'"
    and wr_fault: "wf r \<Longrightarrow> phys reg mode = Inl e \<Longrightarrow> wr r reg mode v = Inl e"
    and rd_total: "wf r \<Longrightarrow> phys reg mode = Inr k \<Longrightarrow> \<exists>v. rd r reg mode = Inr v"
    and rd_fault: "wf r \<Longrightarrow> phys reg mode = Inl e \<Longrightarrow> rd r reg mode = Inl e"
    and rd_wr: "wf r \<Longrightarrow> wr r reg mode v = Inr r' \<Longrightarrow> rd r' reg' mode' =
      (if reg' = reg \<and> phys reg' mode' = phys reg mode then Inr v else rd r reg' mode')"
begin

lemma rd_wr_same: "wf r \<Longrightarrow> wr r reg mode v = Inr r' \<Longrightarrow> rd r' reg mode = Inr v"
  by (simp add: rd_wr)

lemma rd_wr_other: "wf r \<Longrightarrow> wr r reg mode v = Inr r' \<Longrightarrow> reg' \<noteq> reg \<Longrightarrow> rd r' reg' mode' = rd r reg' mode'"
  by (simp add: rd_wr)

lemma wr_defined: "wf r \<Longrightarrow> wr r reg mode v = Inr r' \<Longrightarrow> \<exists>k. phys reg mode = Inr k"
  using wr_fault [of r reg mode _ v] by (cases "phys reg mode") auto

lemma write_list_frame:
  assumes "wf r" "write_list wr r mode xs = Inr r'" "reg \<notin> fst ` set xs"
  shows "wf r' \<and> rd r' reg mode' = rd r reg mode'"
  using assms
proof (induction xs arbitrary: r)
  case Nil
  then show ?case by simp
next
  case (Cons x xs)
  obtain i v where x: "x = (i, v)" by force
  obtain r1 where w: "wr r i mode v = Inr r1" and r: "write_list wr r1 mode xs = Inr r'"
    using Cons.prems(2) x by (auto simp: bindR_eq_Inr)
  show ?case
    using Cons.IH [OF wf_wr [OF Cons.prems(1) w] r] Cons.prems(1,3) x rd_wr_other [OF _ w] by auto
qed

lemma write_list_reads:
  assumes "wf r" "distinct (map fst xs)" "\<forall>reg \<in> fst ` set xs. \<exists>k. phys reg mode = Inr k"
  shows "\<exists>r'. write_list wr r mode xs = Inr r' \<and> wf r' \<and> (\<forall>(reg, v) \<in> set xs. rd r' reg mode = Inr v)"
  using assms
proof (induction xs arbitrary: r)
  case Nil
  then show ?case by simp
next
  case (Cons x xs)
  obtain i v where x: "x = (i, v)" by force
  obtain r1 where w: "wr r i mode v = Inr r1"
    using wr_total Cons.prems(1,3) x by fastforce
  have w1: "wf r1" using wf_wr Cons.prems(1) w by blast
  then obtain r2 where r2: "write_list wr r1 mode xs = Inr r2" "wf r2"
    "\<forall>(reg, v) \<in> set xs. rd r2 reg mode = Inr v"
    using Cons.IH [OF w1] Cons.prems(2,3) by auto
  have "rd r2 i mode = Inr v"
    using write_list_frame [OF w1 r2(1), of i] Cons.prems(1,2) x rd_wr_same [OF _ w] by auto
  with x w r2 show ?case by auto
qed

end

interpretation banks: register_bank
  "registers_read h" "registers_write h" wf_registers cell for h
proof unfold_locales
  fix r :: registers and reg mode v k
  assume "wf_registers r" "cell reg mode = Inr k"
  then show "\<exists>r'. registers_write h r reg mode v = Inr r'" by (simp add: registers_write_cell)
qed (use wf_registers_write registers_read_written in
      \<open>auto simp: registers_write_cell registers_read_cell\<close>)

section \<open>Properties\<close>

lemma cell_fault_iff:
  assumes "reg < N_REGISTRES"
  shows "(cell reg mode = Inl Out_Of_Bounds \<longleftrightarrow> reg \<in> {SP, LR} \<and> mode = FIQ)
    \<and> (cell reg mode = Inl Null_Pointer \<longleftrightarrow> reg = SPSR \<and> \<not> registers_mode_has_spsr mode)
    \<and> ((\<exists>k. cell reg mode = Inr k) \<longleftrightarrow>
        \<not> (reg \<in> {SP, LR} \<and> mode = FIQ) \<and> \<not> (reg = SPSR \<and> \<not> registers_mode_has_spsr mode))"
  using assms
  by (auto simp: cell_def Let_def registers_mode_has_spsr_def get_read_write_mode_def)

lemma cell_low:
  "reg < 16 \<Longrightarrow> mode \<noteq> FIQ \<Longrightarrow> \<exists>k. cell reg mode = Inr k"
  using cell_fault_iff [of reg mode] by auto

text \<open>C9: A register written in a mode is read back in every mode that shares its cell, on a host of
  either byte order, and every other register of every mode keeps its value.\<close>

theorem registers_read_after_write:
  assumes "wf_registers r" "cell reg mode = Inr k"
  shows "\<exists>r'. registers_write h r reg mode v = Inr r' \<and> wf_registers r'
    \<and> (\<forall>reg' mode'. registers_read h r' reg' mode' =
        (if reg' = reg \<and> cell reg' mode' = Inr k then Inr v else registers_read h r reg' mode'))"
  using banks.wr_total [OF assms] banks.wf_wr [OF assms(1)] banks.rd_wr [OF assms(1)] assms(2)
  by fastforce

theorem registers_read_after_write_witness:
  "\<exists>r'. registers_write \<lparr>host_big_endian = False, host_masks_shifts = True\<rparr>
      registers_create LR IRQ 0x11223344 = Inr r'
    \<and> registers_read \<lparr>host_big_endian = False, host_masks_shifts = True\<rparr> r' LR IRQ = Inr 0x11223344"
  using registers_read_after_write [of registers_create LR IRQ 5
      "\<lparr>host_big_endian = False, host_masks_shifts = True\<rparr>" "0x11223344"]
  by (auto simp: wf_registers_create cell_def get_read_write_mode_def)

text \<open>The banking of the register file: r0 to r7, the pc and the CPSR are one register in all
  modes; r8 to r12 are shared by all modes but FIQ; of r13, r14 and the SPSR, the modes other than
  user and system have their own, for every pair of modes in which the access succeeds.\<close>

theorem registers_banking:
  assumes "reg < N_REGISTRES" "cell reg m1 = Inr k1" "cell reg m2 = Inr k2"
  shows "cell reg m1 = cell reg m2 \<longleftrightarrow>
    (if reg \<le> 7 \<or> reg = PC \<or> reg = CPSR then True
     else if reg \<le> 12 then (m1 = FIQ \<longleftrightarrow> m2 = FIQ)
     else get_read_write_mode m1 = get_read_write_mode m2
        \<or> \<not> registers_mode_has_spsr m1 \<and> \<not> registers_mode_has_spsr m2)"
proof -
  have q: "mode = FIQ \<longleftrightarrow> \<not> get_read_write_mode mode < 6" for mode
    by (simp add: get_read_write_mode_def)
  consider "reg \<le> 7 \<or> reg = PC \<or> reg = CPSR" | "8 \<le> reg" "reg \<le> 12" | "reg = SP \<or> reg = LR" | "reg = SPSR"
    using assms(1) by linarith
  then show ?thesis
  proof cases
    case 1
    then show ?thesis by (auto simp: cell_def Let_def)
  next
    case 2
    then have "\<not> (reg \<le> 7 \<or> reg = PC \<or> reg = CPSR)" by auto
    with 2 show ?thesis by (simp add: cell_def Let_def q)
  next
    case 3
    then show ?thesis
      using assms(2,3) unfolding registers_mode_has_spsr_def
      by (auto simp: cell_def Let_def split: if_splits)
  next
    case 4
    then show ?thesis
      using assms(2,3) unfolding registers_mode_has_spsr_def
      by (auto simp: cell_def Let_def split: if_splits)
  qed
qed

theorem registers_banking_witness:
  "cell LR IRQ \<noteq> cell LR SVC \<and> cell LR USR = cell LR SYS"
  using registers_banking [of LR IRQ 5 SVC 2] registers_banking [of LR USR 0 SYS 0]
  by (simp add: cell_def registers_mode_has_spsr_def get_read_write_mode_def)

text \<open>C29: An access to a register number of the file faults in exactly two situations: r13 or r14
  in FIQ mode, whose pointer is one past the six values allocated, and the SPSR in a mode that has
  none, whose pointer is null; the write through \<^verbatim>\<open>registers_write_spsr\<close> never faults.\<close>

theorem registers_access_faults:
  assumes "wf_registers r" "reg < N_REGISTRES"
  shows "(registers_read h r reg mode = Inl Out_Of_Bounds \<longleftrightarrow> reg \<in> {SP, LR} \<and> mode = FIQ)
    \<and> (registers_read h r reg mode = Inl Null_Pointer \<longleftrightarrow>
        reg = SPSR \<and> \<not> registers_mode_has_spsr mode)
    \<and> (registers_write h r reg mode v = Inl Out_Of_Bounds \<longleftrightarrow> reg \<in> {SP, LR} \<and> mode = FIQ)
    \<and> (registers_write h r reg mode v = Inl Null_Pointer \<longleftrightarrow>
        reg = SPSR \<and> \<not> registers_mode_has_spsr mode)
    \<and> (\<exists>r'. registers_write_spsr h r mode v = Inr r')"
  using cell_fault_iff [OF assms(2), of mode] cell_fault_iff [of SPSR mode]
  by (auto simp: registers_read_cell [OF assms(1)] registers_write_cell [OF assms(1)]
      registers_write_spsr_def bindR_eq_Inl bindR_eq_Inr)

theorem registers_access_faults_witness:
  "registers_read \<lparr>host_big_endian = False, host_masks_shifts = True\<rparr> registers_create SP FIQ
      = Inl Out_Of_Bounds
    \<and> registers_read \<lparr>host_big_endian = False, host_masks_shifts = True\<rparr> registers_create SPSR USR
      = Inl Null_Pointer"
  using registers_access_faults [OF wf_registers_create, of SP
      "\<lparr>host_big_endian = False, host_masks_shifts = True\<rparr>" FIQ 0]
    registers_access_faults [OF wf_registers_create, of SPSR
      "\<lparr>host_big_endian = False, host_masks_shifts = True\<rparr>" USR 0]
  by (simp add: registers_mode_has_spsr_def get_read_write_mode_def)

end
