(* ===== verification/Arm_Core.thy ===== *)
theory Arm_Core
  imports Memory Registers
begin

text \<open>
  The processor of \<^verbatim>\<open>arm_core.c\<close>: its cycle counter, its registers and its memory, together with
  the process around it (the host, standard output and standard input). Every operation takes the
  state and returns the new one, without the calls of \<^verbatim>\<open>trace_register\<close> and \<^verbatim>\<open>trace_memory\<close>: the accesses
  with them are in \<open>Traced\<close>.
\<close>

section \<open>State\<close>

record arm_core_data =
  cycle_count :: u32
  reg :: registers
  mem :: memory

record sim = arm_core_data +
  sim_host :: host
  stdout :: string
  stdin :: string

text \<open>The byte order of memory accesses; \<^verbatim>\<open>Makefile.am\<close> defines \<^verbatim>\<open>BIG_ENDIAN_SIMULATOR\<close>.\<close>

definition ENDIANESS :: bool where
  "ENDIANESS = True"

section \<open>Operations\<close>

definition arm_current_mode_has_spsr :: "sim \<Rightarrow> bool" where
  "arm_current_mode_has_spsr p = registers_current_mode_has_spsr (reg p)"

definition arm_in_a_privileged_mode :: "sim \<Rightarrow> bool" where
  "arm_in_a_privileged_mode p = registers_in_a_privileged_mode (reg p)"

definition arm_get_cycle_count :: "sim \<Rightarrow> u32" where
  "arm_get_cycle_count p = cycle_count p"

definition arm_read_register_internal :: "nat \<Rightarrow> nat \<Rightarrow> sim \<Rightarrow> u32 res" where
  "arm_read_register_internal i mode p =
     bindR (registers_read (sim_host p) (reg p) i mode) (\<lambda>v.
     Inr (if i = 15 then (v + 4) AND 0xFFFFFFFD else v))"

definition arm_read_register :: "nat \<Rightarrow> sim \<Rightarrow> u32 res" where
  "arm_read_register i p = arm_read_register_internal i (registers_get_mode (reg p)) p"

definition arm_read_usr_register :: "nat \<Rightarrow> sim \<Rightarrow> u32 res" where
  "arm_read_usr_register i p = arm_read_register_internal i USR p"

definition arm_read_cpsr :: "sim \<Rightarrow> u32" where
  "arm_read_cpsr p = registers_read_cpsr (reg p)"

definition arm_read_spsr :: "sim \<Rightarrow> u32 res" where
  "arm_read_spsr p = registers_read_spsr (sim_host p) (reg p) (registers_get_mode (reg p))"

definition arm_write_register_internal :: "nat \<Rightarrow> nat \<Rightarrow> u32 \<Rightarrow> sim \<Rightarrow> sim res" where
  "arm_write_register_internal i mode v p =
     bindR (registers_write (sim_host p) (reg p) i mode v) (\<lambda>r. Inr (p\<lparr>reg := r\<rparr>))"

definition arm_write_register :: "nat \<Rightarrow> u32 \<Rightarrow> sim \<Rightarrow> sim res" where
  "arm_write_register i v p = arm_write_register_internal i (registers_get_mode (reg p)) v p"

definition arm_write_usr_register :: "nat \<Rightarrow> u32 \<Rightarrow> sim \<Rightarrow> sim res" where
  "arm_write_usr_register i v p = arm_write_register_internal i USR v p"

definition arm_write_cpsr :: "u32 \<Rightarrow> sim \<Rightarrow> sim" where
  "arm_write_cpsr v p = p\<lparr>reg := registers_write_cpsr (reg p) v\<rparr>"

definition arm_write_spsr :: "u32 \<Rightarrow> sim \<Rightarrow> sim res" where
  "arm_write_spsr v p =
     bindR (registers_write_spsr (sim_host p) (reg p) (registers_get_mode (reg p)) v) (\<lambda>r.
     Inr (p\<lparr>reg := r\<rparr>))"

definition arm_read_byte :: "u32 \<Rightarrow> sim \<Rightarrow> u8 option res" where
  "arm_read_byte address p = memory_read_byte (mem p) address"

definition arm_read_half :: "u32 \<Rightarrow> sim \<Rightarrow> u16 option res" where
  "arm_read_half address p = memory_read_half (mem p) address ENDIANESS"

definition arm_read_word :: "u32 \<Rightarrow> sim \<Rightarrow> u32 option res" where
  "arm_read_word address p = memory_read_word (mem p) address ENDIANESS"

definition arm_fetch :: "sim \<Rightarrow> (u32 option \<times> sim) res" where
  "arm_fetch p =
     (let mode = registers_get_mode (reg p) in
      bindR (registers_read (sim_host p) (reg p) 15 mode) (\<lambda>address.
      bindR (registers_write (sim_host p) (reg p) 15 mode (address + 4)) (\<lambda>r.
      let p1 = p\<lparr>reg := r\<rparr> in
      bindR (memory_read_word (mem p1) address ENDIANESS) (\<lambda>result.
      Inr (result, p1\<lparr>cycle_count := cycle_count p1 + 1\<rparr>)))))"

definition arm_write_byte :: "u32 \<Rightarrow> u8 \<Rightarrow> sim \<Rightarrow> (int \<times> sim) res" where
  "arm_write_byte address v p =
     bindR (memory_write_byte (mem p) address v) (\<lambda>(rc, m). Inr (rc, p\<lparr>mem := m\<rparr>))"

definition arm_write_half :: "u32 \<Rightarrow> u16 \<Rightarrow> sim \<Rightarrow> (int \<times> sim) res" where
  "arm_write_half address v p =
     bindR (memory_write_half (mem p) address v ENDIANESS) (\<lambda>(rc, m). Inr (rc, p\<lparr>mem := m\<rparr>))"

definition arm_write_word :: "u32 \<Rightarrow> u32 \<Rightarrow> sim \<Rightarrow> (int \<times> sim) res" where
  "arm_write_word address v p =
     bindR (memory_write_word (mem p) address v ENDIANESS) (\<lambda>(rc, m). Inr (rc, p\<lparr>mem := m\<rparr>))"

section \<open>Well-formed states\<close>

definition wf_sim :: "sim \<Rightarrow> bool" where
  "wf_sim p \<longleftrightarrow> wf_registers (reg p) \<and> wf_memory (mem p)"

definition mode_of :: "u32 \<Rightarrow> nat" where
  "mode_of v = unat (get_bits v 5 0)"

definition cur_mode :: "sim \<Rightarrow> nat" where
  "cur_mode p = mode_of (arm_read_cpsr p)"

lemma registers_get_mode_cur: "registers_get_mode (reg p) = cur_mode p"
  by (simp add: cur_mode_def mode_of_def arm_read_cpsr_def get_mode_cpsr)

lemma arm_read_register_cell:
  "arm_read_register i p =
     bindR (registers_read (sim_host p) (reg p) i (cur_mode p)) (\<lambda>v.
     Inr (if i = 15 then (v + 4) AND 0xFFFFFFFD else v))"
  by (simp add: arm_read_register_def arm_read_register_internal_def registers_get_mode_cur)

lemma arm_write_register_cell:
  "arm_write_register i v p =
     bindR (registers_write (sim_host p) (reg p) i (cur_mode p) v) (\<lambda>r. Inr (p\<lparr>reg := r\<rparr>))"
  by (simp add: arm_write_register_def arm_write_register_internal_def registers_get_mode_cur)

text \<open>
  The general registers as the program under simulation sees them: the stored value of register
  \<open>i\<close> in mode \<open>mode\<close>, without the pc adjustment of \<^verbatim>\<open>arm_read_register_internal\<close>.
\<close>

definition raw :: "sim \<Rightarrow> nat \<Rightarrow> nat \<Rightarrow> u32 res" where
  "raw p i mode = registers_read (sim_host p) (reg p) i mode"

lemma arm_read_register_raw:
  "arm_read_register i p =
     bindR (raw p i (cur_mode p)) (\<lambda>v. Inr (if i = 15 then (v + 4) AND 0xFFFFFFFD else v))"
  by (simp add: arm_read_register_cell raw_def)

lemma arm_write_registerE:
  assumes "wf_sim p" "arm_write_register i v p = Inr p'"
  obtains r where "p' = p\<lparr>reg := r\<rparr>" "wf_sim p'"
    "registers_write (sim_host p) (reg p) i (cur_mode p) v = Inr r"
  using assms banks.wf_wr by (fastforce simp: arm_write_register_cell bindR_eq_Inr wf_sim_def)

lemma cur_mode_write_register:
  assumes "wf_sim p" "arm_write_register i v p = Inr p'" "i < 16"
  shows "arm_read_cpsr p' = arm_read_cpsr p" "cur_mode p' = cur_mode p"
proof -
  show "arm_read_cpsr p' = arm_read_cpsr p"
    by (rule arm_write_registerE [OF assms(1,2)])
      (use assms(1,3) read_cpsr_write in \<open>auto simp: arm_read_cpsr_def wf_sim_def\<close>)
  then show "cur_mode p' = cur_mode p" by (simp add: cur_mode_def)
qed

lemma raw_write_register:
  assumes "wf_sim p" "arm_write_register i v p = Inr p'" 
  shows "raw p' j mode = (if j = i \<and> cell j mode = cell i (cur_mode p) then Inr v else raw p j mode)"
  by (rule arm_write_registerE [OF assms(1,2)])
    (use assms(1) banks.rd_wr in \<open>auto simp: raw_def wf_sim_def\<close>)

lemma arm_write_register_total:
  assumes "wf_sim p" "i < 16" "cur_mode p \<noteq> FIQ"
  obtains p' where "arm_write_register i v p = Inr p'"
proof -
  obtain k where "cell i (cur_mode p) = Inr k"
    using cell_low assms by blast
  then have "\<exists>r. registers_write (sim_host p) (reg p) i (cur_mode p) v = Inr r"
    using banks.wr_total assms by (auto simp: wf_sim_def)
  with that show thesis by (auto simp: arm_write_register_cell)
qed

lemma raw_total:
  assumes "wf_sim p" "i < 16" "mode \<noteq> FIQ"
  obtains v where "raw p i mode = Inr v"
proof -
  obtain k where "cell i mode = Inr k" using cell_low assms by blast
  then have "\<exists>v. raw p i mode = Inr v"
    using assms(1) unfolding raw_def wf_sim_def by (blast intro: banks.rd_total)
  with that show thesis by blast
qed

lemma wf_sim_write_cpsr: "wf_sim p \<Longrightarrow> wf_sim (arm_write_cpsr v p)"
  by (auto simp: wf_sim_def arm_write_cpsr_def)

lemma cpsr_write_cpsr [simp]: "wf_sim p \<Longrightarrow> arm_read_cpsr (arm_write_cpsr v p) = v"
  by (simp add: arm_read_cpsr_def arm_write_cpsr_def wf_sim_def read_cpsr_write_cpsr)

lemma cur_mode_write_cpsr [simp]: "wf_sim p \<Longrightarrow> cur_mode (arm_write_cpsr v p) = mode_of v"
  by (simp add: cur_mode_def)

lemma raw_write_cpsr [simp]: "wf_sim p \<Longrightarrow> i \<noteq> CPSR \<Longrightarrow> raw (arm_write_cpsr v p) i mode = raw p i mode"
  by (simp add: raw_def arm_write_cpsr_def wf_sim_def read_write_cpsr)

lemma unat_nibble [simp]:
  "unat (get_bits x 19 16) < 16" "unat (get_bits x 15 12) < 16"
  "unat (get_bits x 11 8) < 16" "unat (get_bits x 3 0) < 16"
  using unat_get_bits_less [of 16 19 x] unat_get_bits_less [of 12 15 x]
    unat_get_bits_less [of 8 11 x] unat_get_bits_less [of 0 3 x] by simp_all

lemma get_bits_cong_low:
  assumes "\<forall>n \<le> h. bit x n = bit y n" "h < 32"
  shows "get_bits x h 0 = get_bits y h 0"
  using assms by (intro bit_word_eqI) (auto simp: bit_get_bits)

lemma mode_of_flags [simp]:
  "5 < i \<Longrightarrow> mode_of (set_bit_c v i) = mode_of v"
  "5 < i \<Longrightarrow> mode_of (clr_bit v i) = mode_of v"
  unfolding mode_of_def
  by (rule arg_cong [where f = unat], rule get_bits_cong_low;
      simp add: bit_set_bit_c bit_clr_bit)+

lemma raw_pc:
  assumes "wf_sim p" obtains a where "raw p 15 mode = Inr a"
proof -
  have "cell 15 mode = Inr 0" by (simp add: cell_def)
  then show thesis using banks.rd_total assms that by (fastforce simp: raw_def wf_sim_def)
qed

lemma write_pc:
  assumes "wf_sim p" obtains p' where "arm_write_register 15 v p = Inr p'"
proof -
  have "cell 15 (cur_mode p) = Inr 0" by (simp add: cell_def)
  then show thesis
    using assms that by (auto simp: arm_write_register_cell wf_sim_def registers_write_cell)
qed

lemma arm_fetch_raw:
  "arm_fetch p =
     bindR (raw p 15 (cur_mode p)) (\<lambda>address.
     bindR (arm_write_register 15 (address + 4) p) (\<lambda>p1.
     bindR (memory_read_word (mem p1) address ENDIANESS) (\<lambda>result.
     Inr (result, p1\<lparr>cycle_count := cycle_count p1 + 1\<rparr>))))"
  by (simp add: arm_fetch_def arm_write_register_cell raw_def registers_get_mode_cur Let_def
      bindR_assoc)

lemma arm_current_mode_has_spsr_cur:
  "arm_current_mode_has_spsr p = registers_mode_has_spsr (cur_mode p)"
  by (simp add: arm_current_mode_has_spsr_def registers_current_mode_has_spsr_def registers_get_mode_cur)

lemma arm_read_spsr_raw: "arm_read_spsr p = raw p SPSR (cur_mode p)"
  by (simp add: arm_read_spsr_def registers_read_spsr_def raw_def registers_get_mode_cur)

lemma raw_spsr_outcome:
  assumes "wf_sim p"
  shows "outcome (if registers_mode_has_spsr mode then {} else {Null_Pointer})
    (\<lambda>_. True) (raw p SPSR mode)"
  using assms
  by (auto simp: raw_def wf_sim_def registers_read_cell cell_def Let_def registers_mode_has_spsr_def)

section \<open>Effects of register writes\<close>

text \<open>
  \<open>writes p i v p'\<close>: \<open>p'\<close> is \<open>p\<close> with the value \<open>v\<close> in the cell that \<open>i\<close> denotes in the current
  mode; the status register, the memory and everything else are those of \<open>p\<close>.
\<close>

definition writes :: "sim \<Rightarrow> nat \<Rightarrow> u32 \<Rightarrow> sim \<Rightarrow> bool" where
  "writes p i v p' \<longleftrightarrow> wf_sim p' \<and> arm_read_cpsr p' = arm_read_cpsr p \<and> p' = p\<lparr>reg := reg p'\<rparr>
     \<and> (\<forall>j mode. raw p' j mode =
          (if j = i \<and> cell j mode = cell i (cur_mode p) then Inr v else raw p j mode))"

lemma writes_write_register:
  assumes "wf_sim p" "arm_write_register i v p = Inr p'" "i < 16"
  shows "writes p i v p'"
  by (rule arm_write_registerE [OF assms(1,2)])
    (use raw_write_register [OF assms(1,2)] cur_mode_write_register(1) [OF assms] in
      \<open>simp add: writes_def\<close>)

lemma arm_write_register_writes:
  assumes "wf_sim p" "i < 16" "i \<in> {SP, LR} \<Longrightarrow> cur_mode p \<noteq> FIQ"
  obtains p' where "arm_write_register i v p = Inr p'" "writes p i v p'"
proof -
  obtain k where "cell i (cur_mode p) = Inr k"
    using cell_fault_iff [of i "cur_mode p"] assms(2,3) by auto
  then obtain r where "registers_write (sim_host p) (reg p) i (cur_mode p) v = Inr r"
    using banks.wr_total assms(1) unfolding wf_sim_def by blast
  then have "arm_write_register i v p = Inr (p\<lparr>reg := r\<rparr>)" by (simp add: arm_write_register_cell)
  with that writes_write_register [OF assms(1) this assms(2)] show thesis by blast
qed

lemma arm_write_spsr_writes:
  assumes "wf_sim p" "registers_mode_has_spsr (cur_mode p)"
  obtains p' where "arm_write_spsr v p = Inr p'" "writes p SPSR v p'"
proof -
  have w: "wf_registers (reg p)" using assms(1) by (simp add: wf_sim_def)
  obtain k where "cell SPSR (cur_mode p) = Inr k"
    using cell_fault_iff [of SPSR "cur_mode p"] assms(2) by auto
  then obtain r where r: "registers_write (sim_host p) (reg p) SPSR (cur_mode p) v = Inr r"
    using banks.wr_total [OF w] by blast
  then have e: "arm_write_spsr v p = Inr (p\<lparr>reg := r\<rparr>)"
    using assms(2) by (simp add: arm_write_spsr_def registers_write_spsr_def registers_get_mode_cur)
  moreover have "writes p SPSR v (p\<lparr>reg := r\<rparr>)"
    using banks.wf_wr [OF w r] banks.rd_wr [OF w r] read_cpsr_write [OF w r] assms(1)
    by (auto simp: writes_def wf_sim_def arm_read_cpsr_def raw_def)
  ultimately show thesis using that by blast
qed

lemma writesD:
  assumes "writes p i v p'"
  shows "wf_sim p'" "arm_read_cpsr p' = arm_read_cpsr p" "cur_mode p' = cur_mode p"
    "mem p' = mem p" "cycle_count p' = cycle_count p" "stdout p' = stdout p" "stdin p' = stdin p"
    "sim_host p' = sim_host p"
    "raw p' j mode = (if j = i \<and> cell j mode = cell i (cur_mode p) then Inr v else raw p j mode)"
proof -
  have p': "p' = p\<lparr>reg := reg p'\<rparr>" using assms by (simp add: writes_def)
  show "mem p' = mem p" "cycle_count p' = cycle_count p" "stdout p' = stdout p" "stdin p' = stdin p"
    "sim_host p' = sim_host p"
    by (subst p', simp)+
qed (use assms in \<open>auto simp: writes_def cur_mode_def\<close>)

lemma writes_same: "writes p i v p' \<Longrightarrow> raw p' i (cur_mode p) = Inr v"
  by (simp add: writesD(9))

lemma writes_other: "writes p i v p' \<Longrightarrow> j \<noteq> i \<Longrightarrow> raw p' j mode = raw p j mode"
  by (simp add: writesD(9))

lemma write_cpsr_frame [simp]:
  "mem (arm_write_cpsr v p) = mem p" "cycle_count (arm_write_cpsr v p) = cycle_count p"
  "stdout (arm_write_cpsr v p) = stdout p" "stdin (arm_write_cpsr v p) = stdin p"
  "sim_host (arm_write_cpsr v p) = sim_host p"
  by (simp_all add: arm_write_cpsr_def)

lemma arm_read_register_total:
  assumes "wf_sim p" "i < 16" "i \<in> {SP, LR} \<Longrightarrow> cur_mode p \<noteq> FIQ"
  obtains v where "raw p i (cur_mode p) = Inr v"
    "arm_read_register i p = Inr (if i = 15 then (v + 4) AND 0xFFFFFFFD else v)"
proof -
  obtain k where "cell i (cur_mode p) = Inr k"
    using cell_fault_iff [of i "cur_mode p"] assms(2,3) by auto
  then obtain v where "raw p i (cur_mode p) = Inr v"
    using banks.rd_total assms(1) unfolding wf_sim_def raw_def by blast
  with that show thesis by (simp add: arm_read_register_raw)
qed

section \<open>A concrete state\<close>

text \<open>
  A processor in supervisor mode with cleared registers and the given bytes of memory, on a
  little-endian host that masks over-long shifts; the theorems are instantiated on it.
\<close>

definition demo_sim :: "u8 list \<Rightarrow> sim" where
  "demo_sim bs = arm_write_cpsr 0x153
     \<lparr>cycle_count = 0, reg = registers_create, mem = Some \<lparr>msize = length bs, mdata = bs\<rparr>,
      sim_host = \<lparr>host_big_endian = False, host_masks_shifts = True\<rparr>, stdout = [], stdin = []\<rparr>"

lemma wf_demo_sim: "length bs < 2 ^ 32 \<Longrightarrow> wf_sim (demo_sim bs)"
  unfolding demo_sim_def
  by (rule wf_sim_write_cpsr) (simp add: wf_sim_def wf_registers_create wf_memory_def)

lemma demo_sim_simps:
  "mem (demo_sim bs) = Some \<lparr>msize = length bs, mdata = bs\<rparr>" "stdout (demo_sim bs) = []"
  "stdin (demo_sim bs) = []" "cycle_count (demo_sim bs) = 0"
  "arm_read_cpsr (demo_sim bs) = 0x153" "cur_mode (demo_sim bs) = SVC"
proof -
  show "arm_read_cpsr (demo_sim bs) = 0x153"
    by (simp add: demo_sim_def arm_write_cpsr_def arm_read_cpsr_def read_cpsr_write_cpsr
        wf_registers_create)
  then show "cur_mode (demo_sim bs) = SVC"
    by (simp add: cur_mode_def mode_of_def get_bits_take_drop)
qed (simp_all add: demo_sim_def)

lemma raw_demo_sim:
  "length bs < 2 ^ 32 \<Longrightarrow> cell i mode = Inr k \<Longrightarrow> i \<noteq> CPSR \<Longrightarrow> raw (demo_sim bs) i mode = Inr 0"
proof -
  assume bs: "length bs < 2 ^ 32" and c: "cell i mode = Inr k" and i: "i \<noteq> CPSR"
  have z: "k < length (rdata (register_create i)) \<Longrightarrow> rdata (register_create i) ! k = 0"
    by (auto simp: register_create_def split: if_splits)
  have "k < length (rdata (register_create i))" "i < 18" using cell_in_range [OF c] by simp_all
  then have "rdata (registers_create ! i) ! k = 0" using z by (simp add: registers_create_def)
  moreover have "reverse_4 0 = (0 :: u32)" by (simp add: reverse_4_def)
  ultimately show ?thesis
    using i c bs unfolding demo_sim_def
    by (subst raw_write_cpsr)
      (simp_all add: wf_sim_def wf_registers_create wf_memory_def raw_def registers_read_cell)
qed

end
