(* ===== verification/Core_Invariant.thy ===== *)
theory Core_Invariant
  imports Arm_Core
begin

text \<open>
  The interface between the core and the instruction handlers, as a locale: an invariant that every
  operation of \<^verbatim>\<open>arm_core.c\<close> keeps, with the faults each may end in. The handlers prove once, in
  this locale, that they keep any such invariant; the two interpretations at the end give the facts
  for all well-formed states and for the states that never enter FIQ mode.
\<close>

section \<open>Invariants of the core\<close>

text \<open>
  The contract under which the instruction handlers run. \<open>I\<close> is an invariant of the state, \<open>M\<close> the
  modes the processor may be in, \<open>FR\<close> the faults a register access may end in. Whatever is composed
  of the operations below, with status values taken from the CPSR or an SPSR, keeps \<open>I\<close>.
\<close>

locale core_invariant =
  fixes I :: "sim \<Rightarrow> bool"
    and M :: "nat set"
    and FR :: "fault set"
  assumes I_wf: "I p \<Longrightarrow> wf_sim p"
    and I_cpsr: "I p \<Longrightarrow> mode_of (arm_read_cpsr p) \<in> M"
    and I_spsr: "I p \<Longrightarrow> arm_read_spsr p = Inr v \<Longrightarrow> mode_of v \<in> M"
    and I_read_register: "I p \<Longrightarrow> i < 16 \<Longrightarrow> outcome FR (\<lambda>v. True) (arm_read_register i p)"
    and I_write_register: "I p \<Longrightarrow> i < 16 \<Longrightarrow> outcome FR I (arm_write_register i v p)"
    and I_write_cpsr: "I p \<Longrightarrow> mode_of v \<in> M \<Longrightarrow> I (arm_write_cpsr v p)"
    and I_write_spsr: "I p \<Longrightarrow> mode_of v \<in> M \<Longrightarrow> outcome {} I (arm_write_spsr v p)"
    and I_mem: "I p \<Longrightarrow> wf_memory m \<Longrightarrow> same_shape (mem p) m \<Longrightarrow> I (p\<lparr>mem := m\<rparr>)"
    and I_cycle: "I p \<Longrightarrow> I (p\<lparr>cycle_count := c\<rparr>)"
    and I_stdout: "I p \<Longrightarrow> I (p\<lparr>stdout := out\<rparr>)"
    and I_stdin: "I p \<Longrightarrow> I (p\<lparr>stdin := inp\<rparr>)"
    and M_modes: "SVC \<in> M" "IRQ \<in> M"
begin

lemma read_registerI [outcome_intros]:
  "I p \<Longrightarrow> i < 16 \<Longrightarrow> FR \<subseteq> F \<Longrightarrow> (\<And>v. Q v) \<Longrightarrow> outcome F Q (arm_read_register i p)"
  by (rule outcome_mono [OF I_read_register]) auto

lemma write_registerI [outcome_intros]:
  "I p \<Longrightarrow> i < 16 \<Longrightarrow> FR \<subseteq> F \<Longrightarrow> (\<And>p'. I p' \<Longrightarrow> Q p') \<Longrightarrow> outcome F Q (arm_write_register i v p)"
  by (rule outcome_mono [OF I_write_register]) auto

lemma write_spsrI [outcome_intros]:
  "I p \<Longrightarrow> mode_of v \<in> M \<Longrightarrow> (\<And>p'. I p' \<Longrightarrow> Q p') \<Longrightarrow> outcome F Q (arm_write_spsr v p)"
  by (rule outcome_mono [OF I_write_spsr]) auto

lemma read_spsrI [outcome_intros]:
  assumes "I p" "\<not> arm_current_mode_has_spsr p \<Longrightarrow> Null_Pointer \<in> F" "\<And>v. mode_of v \<in> M \<Longrightarrow> Q v"
  shows "outcome F Q (arm_read_spsr p)"
  using assms I_spsr [OF assms(1)] raw_spsr_outcome [OF I_wf, OF assms(1), of "cur_mode p"]
  by (cases "arm_read_spsr p") (auto simp: arm_read_spsr_raw arm_current_mode_has_spsr_cur split: if_splits)

lemma read_byteI [outcome_intros]:
  "I p \<Longrightarrow> (\<And>v. Q v) \<Longrightarrow> outcome F Q (arm_read_byte a p)"
  unfolding arm_read_byte_def
  by (rule outcome_mono [OF read_byte_outcome]) (auto simp: wf_sim_def dest: I_wf)

lemma read_halfI [outcome_intros]:
  "I p \<Longrightarrow> Out_Of_Bounds \<in> F \<Longrightarrow> (\<And>v. Q v) \<Longrightarrow> outcome F Q (arm_read_half a p)"
  unfolding arm_read_half_def
  by (rule outcome_mono [OF read_half_outcome]) (auto simp: wf_sim_def dest: I_wf)

lemma read_wordI [outcome_intros]:
  "I p \<Longrightarrow> Out_Of_Bounds \<in> F \<Longrightarrow> (\<And>v. Q v) \<Longrightarrow> outcome F Q (arm_read_word a p)"
  unfolding arm_read_word_def
  by (rule outcome_mono [OF read_word_outcome]) (auto simp: wf_sim_def dest: I_wf)

lemma write_byteI [outcome_intros]:
  assumes "I p" "\<And>rc p'. I p' \<Longrightarrow> Q (rc, p')"
  shows "outcome F Q (arm_write_byte a v p)"
proof -
  have w: "wf_memory (mem p)" using assms(1) I_wf by (simp add: wf_sim_def)
  show ?thesis unfolding arm_write_byte_def
    by (simp, rule outcome_mono [OF write_byte_outcome [OF w]])
      (auto simp: write_keeps_def intro!: assms(2) I_mem assms(1))
qed

lemma write_halfI [outcome_intros]:
  assumes "I p" "Out_Of_Bounds \<in> F" "\<And>rc p'. I p' \<Longrightarrow> Q (rc, p')"
  shows "outcome F Q (arm_write_half a v p)"
proof -
  have w: "wf_memory (mem p)" using assms(1) I_wf by (simp add: wf_sim_def)
  show ?thesis unfolding arm_write_half_def
    by (simp, rule outcome_mono [OF write_half_outcome [OF w]])
      (auto simp: write_keeps_def intro!: assms I_mem)
qed

lemma write_wordI [outcome_intros]:
  assumes "I p" "Out_Of_Bounds \<in> F" "\<And>rc p'. I p' \<Longrightarrow> Q (rc, p')"
  shows "outcome F Q (arm_write_word a v p)"
proof -
  have w: "wf_memory (mem p)" using assms(1) I_wf by (simp add: wf_sim_def)
  show ?thesis unfolding arm_write_word_def
    by (simp, rule outcome_mono [OF write_word_outcome [OF w]])
      (auto simp: write_keeps_def intro!: assms I_mem)
qed

lemma fetchI [outcome_intros]:
  assumes "I p" "Out_Of_Bounds \<in> F" "\<And>r p'. I p' \<Longrightarrow> Q (r, p')"
  shows "outcome F Q (arm_fetch p)"
proof -
  have w: "wf_sim p" using assms(1) by (rule I_wf)
  obtain a where a: "raw p 15 (cur_mode p) = Inr a" using w by (rule raw_pc)
  obtain p1 where p1: "arm_write_register 15 (a + 4) p = Inr p1" using w by (rule write_pc)
  have "I p1" using I_write_register [OF assms(1), of 15 "a + 4"] p1 by simp
  then have i: "I (p1\<lparr>cycle_count := cycle_count p1 + 1\<rparr>)" and wm: "wf_memory (mem p1)"
    using I_cycle I_wf by (auto simp: wf_sim_def)
  show ?thesis
    using a p1 unfolding arm_fetch_raw
    by simp (rule outcome_mono [OF read_word_outcome [OF wm]]; use assms(2,3) i in auto)
qed

end

section \<open>The two invariants of the simulator\<close>

text \<open>
  A well-formed state whose modes (that of the CPSR and those saved in SPSRs) are in \<open>M\<close>, on the
  host \<open>h\<close> and with a memory of the shape of \<open>m0\<close>. With all modes, register accesses may fault in
  FIQ mode; without FIQ, they never fault.
\<close>

definition modes_in :: "nat set \<Rightarrow> sim \<Rightarrow> bool" where
  "modes_in M p \<longleftrightarrow> mode_of (arm_read_cpsr p) \<in> M
     \<and> (\<forall>mode v. raw p SPSR mode = Inr v \<longrightarrow> mode_of v \<in> M)"

definition core_inv :: "nat set \<Rightarrow> host \<Rightarrow> memory \<Rightarrow> sim \<Rightarrow> bool" where
  "core_inv M h m0 p \<longleftrightarrow> wf_sim p \<and> modes_in M p \<and> sim_host p = h \<and> same_shape m0 (mem p)"

lemma core_inv_write_register:
  assumes "core_inv M h m0 p" "i < 16" "arm_write_register i v p = Inr p'"
  shows "core_inv M h m0 p'"
proof -
  have w: "wf_sim p" using assms(1) by (simp add: core_inv_def)
  have mo: "modes_in M p'"
    using assms(1,2) cur_mode_write_register [OF w assms(3,2)] raw_write_register [OF w assms(3)]
    by (auto simp: core_inv_def modes_in_def)
  show ?thesis
    by (rule arm_write_registerE [OF w assms(3)]) (use assms(1) mo in \<open>auto simp: core_inv_def\<close>)
qed

lemma core_inv_write_cpsr:
  assumes "core_inv M h m0 p" "mode_of v \<in> M"
  shows "core_inv M h m0 (arm_write_cpsr v p)"
  using assms wf_sim_write_cpsr by (auto simp: core_inv_def modes_in_def)

lemma core_inv_write_spsr:
  assumes "core_inv M h m0 p" "mode_of v \<in> M"
  shows "outcome {} (core_inv M h m0) (arm_write_spsr v p)"
proof (cases "registers_mode_has_spsr (cur_mode p)")
  case False
  with assms(1) show ?thesis
    by (simp add: arm_write_spsr_def registers_write_spsr_def registers_get_mode_cur)
next
  case True
  have w: "wf_registers (reg p)" using assms(1) by (simp add: core_inv_def wf_sim_def)
  obtain k where "cell SPSR (cur_mode p) = Inr k"
    using True cell_fault_iff [of SPSR "cur_mode p"] by auto
  then obtain r where r: "registers_write (sim_host p) (reg p) SPSR (cur_mode p) v = Inr r"
    using banks.wr_total [OF w] by blast
  have "modes_in M (p\<lparr>reg := r\<rparr>)"
    using assms banks.rd_wr [OF w r] read_cpsr_write [OF w r]
    by (auto simp: core_inv_def modes_in_def raw_def arm_read_cpsr_def)
  with r True assms(1) banks.wf_wr [OF w r] show ?thesis
    by (simp add: arm_write_spsr_def registers_write_spsr_def registers_get_mode_cur core_inv_def
        wf_sim_def)
qed

lemma cell_low_fault: "i < 16 \<Longrightarrow> cell i mode = Inl e \<Longrightarrow> e = Out_Of_Bounds"
  by (auto simp: cell_def Let_def split: if_splits)

lemma core_inv_wf: "core_inv M h m0 p \<Longrightarrow> wf_sim p"
  by (simp add: core_inv_def)

lemma core_inv_cpsr: "core_inv M h m0 p \<Longrightarrow> mode_of (arm_read_cpsr p) \<in> M"
  by (simp add: core_inv_def modes_in_def)

lemma core_inv_read_register:
  assumes "core_inv M h m0 p" "i < 16"
  shows "outcome {Out_Of_Bounds} (\<lambda>v. True) (arm_read_register i p)"
    and "FIQ \<notin> M \<Longrightarrow> outcome {} (\<lambda>v. True) (arm_read_register i p)"
proof -
  have w: "wf_sim p" using assms(1) by (simp add: core_inv_def)
  have "arm_read_register i p = Inl e \<Longrightarrow> e = Out_Of_Bounds" for e
    using w cell_low_fault [OF assms(2)]
    by (auto simp: arm_read_register_raw raw_def wf_sim_def registers_read_cell bindR_eq_Inl)
  then show "outcome {Out_Of_Bounds} (\<lambda>v. True) (arm_read_register i p)"
    by (cases "arm_read_register i p") auto
  assume "FIQ \<notin> M"
  then have "cur_mode p \<noteq> FIQ" using assms(1) by (auto simp: core_inv_def modes_in_def cur_mode_def)
  then obtain v where "raw p i (cur_mode p) = Inr v" using raw_total [OF w assms(2)] by blast
  then show "outcome {} (\<lambda>v. True) (arm_read_register i p)" by (simp add: arm_read_register_raw)
qed

lemma core_inv_write_register_outcome:
  assumes "core_inv M h m0 p" "i < 16"
  shows "outcome {Out_Of_Bounds} (core_inv M h m0) (arm_write_register i v p)"
    and "FIQ \<notin> M \<Longrightarrow> outcome {} (core_inv M h m0) (arm_write_register i v p)"
proof -
  have w: "wf_sim p" using assms(1) by (simp add: core_inv_def)
  have "arm_write_register i v p = Inl e \<Longrightarrow> e = Out_Of_Bounds" for e
    using w cell_low_fault [OF assms(2)]
    by (auto simp: arm_write_register_cell wf_sim_def registers_write_cell bindR_eq_Inl)
  then show "outcome {Out_Of_Bounds} (core_inv M h m0) (arm_write_register i v p)"
    using core_inv_write_register [OF assms]
    by (cases "arm_write_register i v p") auto
  assume "FIQ \<notin> M"
  then have "cur_mode p \<noteq> FIQ" using assms(1) by (auto simp: core_inv_def modes_in_def cur_mode_def)
  then obtain p' where "arm_write_register i v p = Inr p'"
    using arm_write_register_total [OF w assms(2)] by blast
  then show "outcome {} (core_inv M h m0) (arm_write_register i v p)"
    using core_inv_write_register [OF assms] by simp
qed

lemma core_inv_frame:
  "core_inv M h m0 p \<Longrightarrow> wf_memory m \<Longrightarrow> same_shape (mem p) m \<Longrightarrow> core_inv M h m0 (p\<lparr>mem := m\<rparr>)"
  "core_inv M h m0 p \<Longrightarrow> core_inv M h m0 (p\<lparr>cycle_count := c\<rparr>)"
  "core_inv M h m0 p \<Longrightarrow> core_inv M h m0 (p\<lparr>stdout := out\<rparr>)"
  "core_inv M h m0 p \<Longrightarrow> core_inv M h m0 (p\<lparr>stdin := inp\<rparr>)"
  by (auto simp: core_inv_def modes_in_def raw_def arm_read_cpsr_def wf_sim_def
      intro: same_shape_trans)

lemma core_inv_spsr: "core_inv M h m0 p \<Longrightarrow> arm_read_spsr p = Inr v \<Longrightarrow> mode_of v \<in> M"
  by (auto simp: core_inv_def modes_in_def arm_read_spsr_def registers_read_spsr_def raw_def)

lemmas core_inv_rules =
  core_inv_wf core_inv_cpsr
  core_inv_write_cpsr core_inv_write_spsr core_inv_read_register core_inv_write_register_outcome
  core_inv_frame core_inv_spsr

interpretation any_mode: core_invariant "core_inv UNIV h m0" UNIV "{Out_Of_Bounds}" for h m0
  by unfold_locales (simp_all add: core_inv_rules)

interpretation not_fiq: core_invariant "core_inv (- {FIQ}) h m0" "- {FIQ}" "{}" for h m0
  by unfold_locales (simp_all only: core_inv_rules, auto intro: core_inv_rules)

end
