(* ===== verification/Stdio.thy ===== *)
theory Stdio
  imports Prelude
begin

text \<open>
  What the program uses of the formatted input and output of the C library: the conversions
  \<^verbatim>\<open>%d\<close>, \<^verbatim>\<open>%x\<close>, \<^verbatim>\<open>%08x\<close>, \<^verbatim>\<open>%02x\<close> and \<^verbatim>\<open>%02X\<close> of \<^verbatim>\<open>printf\<close> and \<^verbatim>\<open>snprintf\<close>, and
  \<^verbatim>\<open>%d\<close> and \<^verbatim>\<open>%x\<close> of \<^verbatim>\<open>scanf\<close> and \<^verbatim>\<open>sscanf\<close>. Characters are bytes.
\<close>

section \<open>Printing\<close>

definition dec_digit :: "nat \<Rightarrow> char" where
  "dec_digit n = char_of (48 + n)"

definition hex_digit :: "nat \<Rightarrow> char" where
  "hex_digit n = (if n < 10 then char_of (48 + n) else char_of (87 + n))"

fun show_dec :: "nat \<Rightarrow> string" where
  "show_dec n = (if n < 10 then [dec_digit n] else show_dec (n div 10) @ [dec_digit (n mod 10)])"

fun show_hex :: "nat \<Rightarrow> string" where
  "show_hex n = (if n < 16 then [hex_digit n] else show_hex (n div 16) @ [hex_digit (n mod 16)])"

declare show_dec.simps [simp del] show_hex.simps [simp del]

definition format_d :: "u32 \<Rightarrow> string" where
  "format_d v = (if sint v < 0 then CHR ''-'' # show_dec (nat (- sint v)) else show_dec (nat (sint v)))"

definition format_x :: "u32 \<Rightarrow> string" where
  "format_x v = show_hex (unat v)"

section \<open>Scanning\<close>

definition is_space :: "char \<Rightarrow> bool" where
  "is_space c \<longleftrightarrow> c = CHR '' '' \<or> of_char c \<in> {9 .. 13 :: nat}"

definition is_dec :: "char \<Rightarrow> bool" where
  "is_dec c \<longleftrightarrow> of_char c \<in> {48 .. 57 :: nat}"

definition dec_value :: "char \<Rightarrow> nat" where
  "dec_value c = of_char c - 48"

fun read_dec :: "nat \<Rightarrow> string \<Rightarrow> nat \<times> string" where
  "read_dec acc [] = (acc, [])"
| "read_dec acc (c # cs) =
     (if is_dec c then read_dec (10 * acc + dec_value c) cs else (acc, c # cs))"

text \<open>
  One \<^verbatim>\<open>%d\<close> conversion: the value if there is one, and the rest of the input.
\<close>

definition scan_d :: "string \<Rightarrow> int option \<times> string" where
  "scan_d inp =
     (let inp1 = dropWhile is_space inp;
          negative = (inp1 \<noteq> [] \<and> hd inp1 = CHR ''-'');
          inp2 = (if inp1 \<noteq> [] \<and> (hd inp1 = CHR ''-'' \<or> hd inp1 = CHR ''+'') then tl inp1 else inp1)
      in if inp2 \<noteq> [] \<and> is_dec (hd inp2) then
           (let (n, rest) = read_dec 0 inp2 in (Some (if negative then - int n else int n), rest))
         else (None, inp2))"

lemma show_dec_nonempty: "show_dec n \<noteq> []"
  by (subst show_dec.simps) simp

lemma is_dec_dec_digit: "n < 10 \<Longrightarrow> is_dec (dec_digit n)"
  by (simp add: is_dec_def dec_digit_def)

lemma dec_value_dec_digit: "n < 10 \<Longrightarrow> dec_value (dec_digit n) = n"
  by (simp add: dec_value_def dec_digit_def)

lemma read_dec_append:
  "\<forall>c \<in> set xs. is_dec c \<Longrightarrow> read_dec acc (xs @ ys) = read_dec (fst (read_dec acc xs)) ys"
  by (induction xs arbitrary: acc) auto

lemma show_dec_digits: "\<forall>c \<in> set (show_dec n). is_dec c"
proof (induction n rule: show_dec.induct)
  case (1 n)
  show ?case
  proof (cases "n < 10")
    case True
    then show ?thesis by (subst show_dec.simps) (simp add: is_dec_dec_digit)
  next
    case False
    with 1 show ?thesis by (subst show_dec.simps) (auto simp: is_dec_dec_digit)
  qed
qed

lemma read_dec_show_dec: "fst (read_dec 0 (show_dec n)) = n"
proof (induction n rule: show_dec.induct)
  case (1 n)
  show ?case
  proof (cases "n < 10")
    case True
    then show ?thesis
      by (subst show_dec.simps) (simp add: is_dec_dec_digit dec_value_dec_digit)
  next
    case False
    with 1 show ?thesis
      by (subst show_dec.simps)
        (simp add: read_dec_append [OF show_dec_digits] is_dec_dec_digit dec_value_dec_digit)
  qed
qed

section \<open>Hexadecimal conversions\<close>

definition hex_digit_upper :: "nat \<Rightarrow> char" where
  "hex_digit_upper n = (if n < 10 then char_of (48 + n) else char_of (55 + n))"

text \<open>\<^verbatim>\<open>%0<n>x\<close> and \<^verbatim>\<open>%0<n>X\<close>: the digits, padded with zeros to at least \<open>n\<close>.\<close>

fun hex_fixed :: "(nat \<Rightarrow> char) \<Rightarrow> nat \<Rightarrow> nat \<Rightarrow> string" where
  "hex_fixed d 0 v = []"
| "hex_fixed d (Suc n) v = hex_fixed d n (v div 16) @ [d (v mod 16)]"

definition format_08x :: "u32 \<Rightarrow> string" where
  "format_08x v = hex_fixed hex_digit 8 (unat v)"

definition format_08X :: "u32 \<Rightarrow> string" where
  "format_08X v = hex_fixed hex_digit_upper 8 (unat v)"

definition format_02x :: "u8 \<Rightarrow> string" where
  "format_02x v = hex_fixed hex_digit 2 (unat v)"

definition format_02X :: "u8 \<Rightarrow> string" where
  "format_02X v = hex_fixed hex_digit_upper 2 (unat v)"

definition pad_left :: "nat \<Rightarrow> string \<Rightarrow> string" where
  "pad_left n s = replicate (n - length s) CHR '' '' @ s"

definition is_hex :: "char \<Rightarrow> bool" where
  "is_hex c \<longleftrightarrow> of_char c \<in> ({48 .. 57} \<union> {65 .. 70} \<union> {97 .. 102} :: nat set)"

definition hex_value :: "char \<Rightarrow> nat" where
  "hex_value c =
     (let n = of_char c in if n < 58 then n - 48 else if n < 71 then n - 55 else n - 87)"

fun read_hex :: "nat \<Rightarrow> nat \<Rightarrow> string \<Rightarrow> nat \<times> string" where
  "read_hex width acc [] = (acc, [])"
| "read_hex width acc (c # cs) =
     (if 0 < width \<and> is_hex c then read_hex (width - 1) (16 * acc + hex_value c) cs
      else (acc, c # cs))"

text \<open>
  One \<^verbatim>\<open>%x\<close> conversion of at most \<open>width\<close> characters into an unsigned object of \<open>bits\<close> bits: the
  value, \<open>None\<close> where nothing matches, and the rest of the input. A number that does not fit the
  object has no defined result.
\<close>

definition scan_x :: "nat \<Rightarrow> nat \<Rightarrow> string \<Rightarrow> (nat option \<times> string) res" where
  "scan_x bits width inp =
     (let inp1 = dropWhile is_space inp;
          signed = (inp1 \<noteq> [] \<and> 0 < width \<and> hd inp1 \<in> {CHR ''-'', CHR ''+''});
          negative = (signed \<and> hd inp1 = CHR ''-'');
          (w2, inp2) = (if signed then (width - 1, tl inp1) else (width, inp1));
          prefixed = (2 \<le> w2 \<and> 2 \<le> length inp2 \<and> hd inp2 = CHR ''0''
                      \<and> inp2 ! 1 \<in> {CHR ''x'', CHR ''X''});
          (w3, inp3) = (if prefixed then (w2 - 2, drop 2 inp2) else (w2, inp2))
      in if inp3 \<noteq> [] \<and> 0 < w3 \<and> is_hex (hd inp3) then
           (let (n, rest) = read_hex w3 0 inp3 in
            if n < 2 ^ bits \<and> (negative \<longrightarrow> n = 0) then Inr (Some n, rest)
            else Inl Undefined_Conversion)
         else Inr (None, inp3))"

definition atoi :: "string \<Rightarrow> int res" where
  "atoi s =
     (case fst (scan_d s) of
        None \<Rightarrow> Inr 0
      | Some n \<Rightarrow> if - (2 ^ 31) \<le> n \<and> n < 2 ^ 31 then Inr n else Inl Undefined_Conversion)"

section \<open>C strings and character arrays\<close>

text \<open>
  A character pointer is the rest of its array. The string at the pointer ends before the first
  null character; an array without one is overrun.
\<close>

abbreviation NUL :: char where "NUL \<equiv> CHR 0x00"

definition c_string :: "string \<Rightarrow> string res" where
  "c_string data = (if NUL \<in> set data then Inr (takeWhile (\<lambda>c. c \<noteq> NUL) data) else Inl Out_Of_Bounds)"

text \<open>The pointer moved by \<open>n\<close>, at most just past the array.\<close>

definition advance :: "nat \<Rightarrow> 'a list \<Rightarrow> 'a list res" where
  "advance n data = (if n \<le> length data then Inr (drop n data) else Inl Out_Of_Bounds)"

text \<open>The writes of \<^verbatim>\<open>strcpy\<close> and \<^verbatim>\<open>snprintf\<close> at an offset of an array.\<close>

definition store_list :: "'a list \<Rightarrow> nat \<Rightarrow> 'a list \<Rightarrow> 'a list res" where
  "store_list xs i ys =
     (if i + length ys \<le> length xs then Inr (take i xs @ ys @ drop (i + length ys) xs)
      else Inl Out_Of_Bounds)"

definition store_string :: "string \<Rightarrow> nat \<Rightarrow> string \<Rightarrow> string res" where
  "store_string buffer i s = store_list buffer i (s @ [NUL])"

section \<open>Facts\<close>

lemma length_hex_fixed [simp]: "length (hex_fixed d n v) = n"
  by (induction n arbitrary: v) auto

lemma length_formats [simp]:
  "length (format_08x w) = 8" "length (format_08X w) = 8"
  "length (format_02x b) = 2" "length (format_02X b) = 2"
  by (simp_all add: format_08x_def format_08X_def format_02x_def format_02X_def)

lemma is_hex_hex_digit:
  assumes "n < 16" shows "is_hex (hex_digit n)" "hex_value (hex_digit n) = n"
proof -
  have "n \<in> {0,1,2,3,4,5,6,7,8,9,10,11,12,13,14,15}"
    using assms by (simp only: insert_iff empty_iff) arith
  then show "is_hex (hex_digit n)" "hex_value (hex_digit n) = n"
    by (auto simp: is_hex_def hex_digit_def hex_value_def)
qed

lemma hex_fixed_digits: "\<forall>c \<in> set (hex_fixed hex_digit n v). is_hex c"
  by (induction n arbitrary: v) (auto simp: is_hex_hex_digit)

lemma read_hex_append:
  "\<forall>c \<in> set xs. is_hex c \<Longrightarrow> length xs \<le> w \<Longrightarrow>
    read_hex w acc (xs @ ys) = read_hex (w - length xs) (fst (read_hex w acc xs)) ys"
  by (induction xs arbitrary: w acc) auto

lemma read_hex_value:
  "\<forall>c \<in> set xs. is_hex c \<Longrightarrow> length xs \<le> w \<Longrightarrow> 
    read_hex w acc xs = (fst (read_hex w acc xs), [])"
  by (induction xs arbitrary: w acc) auto

lemma read_hex_fixed:
  "n \<le> w \<Longrightarrow> v < 16 ^ n \<Longrightarrow> fst (read_hex w 0 (hex_fixed hex_digit n v)) = v"
proof (induction n arbitrary: v w)
  case (Suc n)
  have "v div 16 < 16 ^ n" using Suc.prems by (simp add: less_mult_imp_div_less)
  with Suc show ?case
    by (simp add: read_hex_append [OF hex_fixed_digits] is_hex_hex_digit)
qed simp

lemma not_is_hex_space:
  "is_hex c \<Longrightarrow> \<not> is_space c \<and> c \<notin> {CHR ''-'', CHR ''+'', CHR ''x'', CHR ''X'', NUL}"
  by (auto simp: is_hex_def is_space_def)

text \<open>Digits written in hexadecimal are read back, whatever follows them.\<close>

lemma scan_x_plain:
  assumes "dropWhile is_space s = s" "hd s \<notin> {CHR ''-'', CHR ''+''}"
    "\<not> (2 \<le> length s \<and> s ! 1 \<in> {CHR ''x'', CHR ''X''})"
    "s \<noteq> []" "is_hex (hd s)" "0 < w" "read_hex w 0 s = (v, rest)" "v < 2 ^ bits"
  shows "scan_x bits w s = Inr (Some v, rest)"
  using assms unfolding scan_x_def Let_def by auto

lemma scan_x_fixed:
  assumes "0 < n" "n \<le> w" "v < 16 ^ n" "v < 2 ^ bits"
    and end': "w = n \<or> rest = [] \<or> \<not> is_hex (hd rest)"
    and "n = 1 \<Longrightarrow> rest = [] \<or> \<not> hd rest \<in> {CHR ''x'', CHR ''X''}"
  shows "scan_x bits w (hex_fixed hex_digit n v @ rest) = Inr (Some v, rest)"
proof -
  let ?h = "hex_fixed hex_digit n v"
  obtain c cs where h: "?h = c # cs" using assms(1) length_hex_fixed [of hex_digit n v]
    by (cases ?h) auto
  have hx: "\<forall>c \<in> set ?h. is_hex c" by (rule hex_fixed_digits)
  then have c: "is_hex c" by (simp add: h)
  have second: "(c # cs @ rest) ! 1 \<notin> {CHR ''x'', CHR ''X''} \<or> length (cs @ rest) < 1"
  proof (cases cs)
    case Nil
    then have "n = 1" using h length_hex_fixed [of hex_digit n v] by simp
    with Nil assms(6) show ?thesis by (cases rest) auto
  next
    case (Cons d ds)
    then have "is_hex d" using hx h by simp
    with Cons show ?thesis using not_is_hex_space by auto
  qed
  have r: "read_hex w 0 (?h @ rest) = (v, rest)"
  proof -
    have "read_hex w 0 (?h @ rest) = read_hex (w - n) v rest"
      using read_hex_append [OF hx, of w 0 rest] assms(2) read_hex_fixed [OF assms(2,3)] by simp
    also have "\<dots> = (v, rest)" using end' by (cases rest) auto
    finally show ?thesis .
  qed
  have d: "dropWhile is_space (?h @ rest) = ?h @ rest"
    using c not_is_hex_space by (simp add: h)
  have signed: "hd (?h @ rest) \<notin> {CHR ''-'', CHR ''+''}"
    using not_is_hex_space [OF c] by (simp add: h)
  have prefixed: "\<not> (2 \<le> length (?h @ rest) \<and> (?h @ rest) ! 1 \<in> {CHR ''x'', CHR ''X''})"
    using second unfolding h by auto
  have "?h @ rest \<noteq> []" "is_hex (hd (?h @ rest))" using c by (simp_all add: h)
  with d signed prefixed r assms(1,2,4) show ?thesis
    by (intro scan_x_plain) simp_all
qed

end
