(* ===== verification/Arm_Exception.thy ===== *)
theory Arm_Exception
  imports Core_Invariant Stdio
begin

text \<open>
  The exceptions of \<^verbatim>\<open>arm_exception.c\<close>: the software interrupts the simulator serves itself
  (end of the simulation, output of a character, a number or a string, input of a number), the
  entry of an IRQ and the reset. The result is the code the caller gets with the new state.
\<close>

section \<open>Operations\<close>

definition IRQ_vector_ADR :: u32 where
  "IRQ_vector_ADR = 0x18"

definition Exception_bit_9 :: u32 where
  "Exception_bit_9 = push_bit 9 0"

text \<open>
  The loop of \<^verbatim>\<open>print_string\<close>: \<open>room\<close> is what is left of the buffer of 100 characters, \<open>prev\<close> the
  content of the variable \<^verbatim>\<open>value\<close>, \<open>None\<close> before the first successful read.
\<close>

fun print_string_loop :: "nat \<Rightarrow> u32 \<Rightarrow> u8 option \<Rightarrow> string \<Rightarrow> sim \<Rightarrow> string res" where
  "print_string_loop room address prev c p =
     bindR (arm_read_byte address p) (\<lambda>r.
     case (case r of Some b \<Rightarrow> Some b | None \<Rightarrow> prev) of
       None \<Rightarrow> Inl Uninitialised
     | Some b \<Rightarrow>
         (case room of
            0 \<Rightarrow> Inl Buffer_Overflow
          | Suc room' \<Rightarrow>
              if b \<noteq> 0 then print_string_loop room' (address + 1) (Some b) (c @ [char_of (unat b)]) p
              else Inr c))"

declare print_string_loop.simps [simp del]

definition print_string :: "sim \<Rightarrow> sim res" where
  "print_string p =
     bindR (arm_read_register 0 p) (\<lambda>address.
     bindR (print_string_loop 100 address None [] p) (\<lambda>c.
     Inr (p\<lparr>stdout := stdout p @ c\<rparr>)))"

definition scanint :: "sim \<Rightarrow> (u32 \<times> sim) res" where
  "scanint p =
     (let (x, rest) = scan_d (stdin p) in
      case x of
        None \<Rightarrow> Inl Uninitialised
      | Some n \<Rightarrow>
          if - (2 ^ 31) \<le> n \<and> n < 2 ^ 31 then Inr (word_of_int n, p\<lparr>stdin := rest\<rparr>)
          else Inl Undefined_Conversion)"

definition software_interrupt :: "nat \<Rightarrow> u32 \<Rightarrow> sim \<Rightarrow> (int \<times> sim) res" where
  "software_interrupt exception instruction p =
     (if instruction = 0x123456 then Inr (int END_SIMULATION, p)
      else if instruction = 0x000001 then
        bindR (arm_read_register 0 p) (\<lambda>v.
        Inr (0, p\<lparr>stdout := stdout p @ [char_of (unat (ucast v :: u8))]\<rparr>))
      else if instruction = 0x000002 then
        bindR (arm_read_register 0 p) (\<lambda>v.
        Inr (0, p\<lparr>stdout := stdout p @ format_d v\<rparr>))
      else if instruction = 0x000003 then
        bindR (print_string p) (\<lambda>p. Inr (0, p))
      else if instruction = 0x000004 then
        bindR (scanint p) (\<lambda>(x, p).
        bindR (arm_write_register 0 x p) (\<lambda>p. Inr (0, p)))
      else
        Inr (int exception,
             p\<lparr>stdout := stdout p @ ''Unknown software interrupt '' @ format_x instruction
                         @ [CHR 0x0A]\<rparr>))"

definition enter_irq :: "u32 \<Rightarrow> sim \<Rightarrow> (int \<times> sim) res" where
  "enter_irq cpsr p =
     bindR (arm_read_register SP p) (\<lambda>sp_adr.
     bindR (arm_read_register PC p) (\<lambda>R14_irq.
     let SPSR_irq = cpsr;
         cpsr1 = set_bits cpsr 4 0 (of_nat IRQ);
         cpsr2 = clr_bit cpsr1 5;
         cpsr3 = set_bit_c cpsr2 7;
         p1 = arm_write_cpsr cpsr3 p
     in
     bindR (arm_write_spsr SPSR_irq p1) (\<lambda>p.
     bindR (arm_write_register PC (IRQ_vector_ADR - 4) p) (\<lambda>p.
     bindR (arm_write_register LR R14_irq p) (\<lambda>p.
     bindR (arm_write_register SP sp_adr p) (\<lambda>p.
     Inr (int INTERRUPT, p)))))))"

definition arm_exception :: "nat \<Rightarrow> sim \<Rightarrow> (int \<times> sim) res" where
  "arm_exception exception p =
     (let reset_cpsr = 0x153 OR Exception_bit_9 in
      if exception = SOFTWARE_INTERRUPT then
        bindR (arm_read_register 15 p) (\<lambda>pc.
        let address = pc - 8 in
        bindR (arm_read_word address p) (\<lambda>r.
        case r of
          None \<Rightarrow> Inl Uninitialised
        | Some instruction \<Rightarrow> software_interrupt exception (instruction AND 0xFFFFFF) p))
      else if exception = INTERRUPT then
        (let cpsr = arm_read_cpsr p in
         if get_bit cpsr 7 = 0 then enter_irq cpsr p else Inr (1, p))
      else if exception = RESET then
        bindR (arm_write_register 15 0 (arm_write_cpsr reset_cpsr p)) (\<lambda>p.
        Inr (int exception, p))
      else Inr (int exception, p))"

text \<open>
  \<^verbatim>\<open>arm_create\<close>: \<open>ok\<close> says whether the allocation of the structure succeeds; the host and
  the standard input are those of the process.
\<close>

definition arm_create :: "bool \<Rightarrow> host \<Rightarrow> string \<Rightarrow> registers \<Rightarrow> memory \<Rightarrow> sim option res" where
  "arm_create ok h inp r m =
     (if ok then
        bindR (arm_exception RESET
          \<lparr>cycle_count = 0, reg = r, mem = m, sim_host = h, stdout = [], stdin = inp\<rparr>) (\<lambda>(_, p).
        bindR (arm_write_register 13 (of_nat (memory_get_size m)) p) (\<lambda>p.
        Inr (Some p)))
      else Inr None)"

section \<open>Every exception keeps the invariants of the core\<close>

lemma mode_of_take_bit: "mode_of v = unat (take_bit 6 v)"
  by (simp add: mode_of_def get_bits_take_drop)

lemma mode_of_irq [simp]: "mode_of (clr_bit (set_bits v 4 0 18) 5) = IRQ"
proof -
  have "take_bit 6 (clr_bit (set_bits v 4 0 18) 5) = take_bit 6 (18 :: u32)"
  proof (rule bit_word_eqI)
    fix n assume "n < LENGTH(32)"
    have "n < 6 \<Longrightarrow> n \<in> {0, 1, 2, 3, 4, 5}" by auto
    then show "bit (take_bit 6 (clr_bit (set_bits v 4 0 18) 5)) n \<longleftrightarrow> bit (take_bit 6 18 :: u32) n"
      by (cases "n < 6"; simp only: bit_take_bit_iff) (auto simp: bit_simps bit_clr_bit bit_set_bits)
  qed
  then show ?thesis by (simp add: mode_of_take_bit)
qed

lemma mode_of_reset: "mode_of (0x153 OR Exception_bit_9) = SVC"
  by (simp add: mode_of_take_bit Exception_bit_9_def)

context core_invariant
begin

lemma print_string_loop_outcome:
  "I p \<Longrightarrow> outcome {Uninitialised, Buffer_Overflow} (\<lambda>_. True) (print_string_loop room a prev c p)"
  by (induction room arbitrary: a prev c; subst print_string_loop.simps)
    (auto split: option.split intro!: outcome_intros)

lemma print_string_outcome:
  "I p \<Longrightarrow> outcome (FR \<union> {Uninitialised, Buffer_Overflow}) I (print_string p)"
  unfolding print_string_def
  by (auto intro!: outcome_intros outcome_mono [OF print_string_loop_outcome] I_stdout)

lemma scanint_outcome:
  "I p \<Longrightarrow> outcome {Uninitialised, Undefined_Conversion} (\<lambda>(x, p'). I p') (scanint p)"
  by (auto simp: scanint_def split: prod.split option.split intro: I_stdin)

lemma software_interrupt_outcome:
  "I p \<Longrightarrow> outcome (FR \<union> {Uninitialised, Buffer_Overflow, Undefined_Conversion}) (\<lambda>(rc, p'). I p')
     (software_interrupt e ins p)"
  unfolding software_interrupt_def
  by (auto intro!: I_stdout read_registerI write_registerI outcome_mono [OF print_string_outcome]
        outcome_mono [OF scanint_outcome] split: prod.splits)

lemma enter_irq_outcome:
  assumes "I p" shows "outcome FR (\<lambda>(rc, p'). I p') (enter_irq (arm_read_cpsr p) p)"
  using assms unfolding enter_irq_def Let_def
  by (auto intro!: outcome_intros I_write_cpsr intro: I_cpsr simp: mode_of_irq M_modes)

lemma arm_exception_outcome:
  assumes "I p"
  shows "outcome (FR \<union> {Out_Of_Bounds, Uninitialised, Buffer_Overflow, Undefined_Conversion})
           (\<lambda>(rc, p'). I p') (arm_exception e p)"
  using assms unfolding arm_exception_def Let_def
  by (auto intro!: outcome_intros outcome_mono [OF software_interrupt_outcome] 
       outcome_mono [OF enter_irq_outcome] I_write_cpsr simp: mode_of_reset M_modes split: option.split)

end

section \<open>Properties\<close>

lemma cell_irq:
  "cell SP mode = cell SP IRQ \<longleftrightarrow> mode = IRQ" "cell LR mode = cell LR IRQ \<longleftrightarrow> mode = IRQ"
  "cell SPSR mode = cell SPSR IRQ \<longleftrightarrow> mode = IRQ" "cell PC mode = Inr 0"
  by (auto simp: cell_def Let_def get_read_write_mode_def)

lemma bit_irq_mode: "bit (18 :: u32) n \<longleftrightarrow> n \<in> {1, 4}"
proof -
  have "(18 :: u32) = push_bit 1 1 OR push_bit 4 1" by simp
  then show ?thesis by (subst \<open>18 = _\<close>) (simp only: bit_or_iff bit_push_bit_iff bit_1_iff, auto)
qed

lemma irq_cpsr_bits:
  fixes v :: u32
  assumes "n < 32"
  shows "bit (set_bit_c (clr_bit (set_bits v 4 0 18) 5) 7) n \<longleftrightarrow>
    (if n < 5 then n \<in> {1, 4} else if n = 5 then False else if n = 7 then True else bit v n)"
  using assms bit_irq_mode [of n]
  by (auto simp: bit_set_bit_c bit_clr_bit bit_set_bits)

lemma irq_entry_effect:
  assumes "wf_sim p" "cur_mode p \<noteq> FIQ" "\<not> bit (arm_read_cpsr p) 7"
    "raw p PC (cur_mode p) = Inr pc" "raw p SP (cur_mode p) = Inr sp"
  shows "\<exists>p'. arm_exception INTERRUPT p = Inr (int INTERRUPT, p') \<and> wf_sim p' \<and> cur_mode p' = IRQ
    \<and> (\<forall>n < 32. bit (arm_read_cpsr p') n =
         (if n < 5 then n \<in> {1, 4} else if n = 5 then False else if n = 7 then True
          else bit (arm_read_cpsr p) n))
    \<and> (\<forall>j < 18. j \<noteq> CPSR \<longrightarrow> (\<forall>mode. raw p' j mode =
         (if j = PC then Inr (0x18 - 4)
          else if j = LR \<and> mode = IRQ then Inr ((pc + 4) AND 0xFFFFFFFD)
          else if j = SP \<and> mode = IRQ then Inr sp
          else if j = SPSR \<and> mode = IRQ then Inr (arm_read_cpsr p)
          else raw p j mode)))
    \<and> mem p' = mem p \<and> stdout p' = stdout p \<and> stdin p' = stdin p \<and> cycle_count p' = cycle_count p"
proof -
  let ?c = "arm_read_cpsr p"
  define c' where "c' = set_bit_c (clr_bit (set_bits ?c 4 0 18) 5) 7"
  let ?p1 = "arm_write_cpsr c' p"
  have m: "mode_of c' = IRQ" by (simp add: c'_def)
  have w1: "wf_sim ?p1" and m1: "cur_mode ?p1 = IRQ"
    using wf_sim_write_cpsr assms(1) m by simp_all
  obtain p2 where p2: "arm_write_spsr ?c ?p1 = Inr p2" "writes ?p1 SPSR ?c p2"
    using arm_write_spsr_writes [OF w1, of ?c] m1
    by (auto simp: registers_mode_has_spsr_def get_read_write_mode_def)
  obtain p3 where p3: "arm_write_register PC (0x18 - 4) p2 = Inr p3" "writes p2 PC (0x18 - 4) p3"
    using arm_write_register_writes [OF writesD(1) [OF p2(2)], of PC "0x18 - 4"] by auto
  have m3: "cur_mode p3 = IRQ" using writesD(3) [OF p2(2)] writesD(3) [OF p3(2)] m1 by simp
  obtain p4 where p4: "arm_write_register LR ((pc + 4) AND 0xFFFFFFFD) p3 = Inr p4"
    "writes p3 LR ((pc + 4) AND 0xFFFFFFFD) p4"
    using arm_write_register_writes [OF writesD(1) [OF p3(2)], of LR "(pc + 4) AND 0xFFFFFFFD"] m3
    by auto
  have m4: "cur_mode p4 = IRQ" using writesD(3) [OF p4(2)] m3 by simp
  obtain p5 where p5: "arm_write_register SP sp p4 = Inr p5" "writes p4 SP sp p5"
    using arm_write_register_writes [OF writesD(1) [OF p4(2)], of SP sp] m4 by auto
  have run: "arm_exception INTERRUPT p = Inr (int INTERRUPT, p5)"
    using assms p2(1) p3(1) p4(1) p5(1)
    by (simp add: arm_exception_def enter_irq_def arm_read_register_raw Let_def IRQ_vector_ADR_def
        flip: c'_def)
  note ws = p2(2) p3(2) p4(2) p5(2)
  have "cur_mode p5 = IRQ" using writesD(3) [OF p5(2)] m4 by simp
  moreover have "arm_read_cpsr p5 = c'"
    using ws [THEN writesD(2)] assms(1) by simp
  moreover have "raw p5 j mode =
      (if j = PC then Inr (0x18 - 4)
       else if j = LR \<and> mode = IRQ then Inr ((pc + 4) AND 0xFFFFFFFD)
       else if j = SP \<and> mode = IRQ then Inr sp
       else if j = SPSR \<and> mode = IRQ then Inr ?c else raw p j mode)"
    if "j < 18" "j \<noteq> CPSR" for j mode
    using that assms(1) m1 m3 m4 writesD(3) [OF p2(2)]
    by (auto simp: ws [THEN writesD(9)] cell_irq)
  moreover have "mem p5 = mem p" "stdout p5 = stdout p" "stdin p5 = stdin p" "cycle_count p5 = cycle_count p"
    using ws [THEN writesD(4)] ws [THEN writesD(6)] ws [THEN writesD(7)] ws [THEN writesD(5)] by simp_all
  moreover have "\<forall>n < 32. bit c' n = (if n < 5 then n \<in> {1, 4} else if n = 5 then False
      else if n = 7 then True else bit ?c n)"
    unfolding c'_def by (intro allI impI irq_cpsr_bits)
  ultimately show ?thesis
    using run writesD(1) [OF p5(2)] by (intro exI [of _ p5]) simp
qed

text \<open>C6: An interrupt that is not masked enters IRQ mode: the status register is saved in the SPSR of
  that mode, the mode bits, the I bit and the T bit are set as for an IRQ and no other bit changes,
  LR of IRQ mode gets the value read from PC, the program continues just before the vector 0x18, the
  stack pointer of the interrupted mode is copied, and no other register, no memory, no output and
  no cycle counter changes.\<close>

theorem irq_entry:
  assumes "wf_sim p" "cur_mode p \<noteq> FIQ" "\<not> bit (arm_read_cpsr p) 7"
    "raw p PC (cur_mode p) = Inr pc" "raw p SP (cur_mode p) = Inr sp"
  shows "\<exists>p'. arm_exception INTERRUPT p = Inr (int INTERRUPT, p') \<and> wf_sim p' \<and> cur_mode p' = IRQ
    \<and> (\<forall>n < 32. bit (arm_read_cpsr p') n =
         (if n < 5 then n \<in> {1, 4} else if n = 5 then False else if n = 7 then True
          else bit (arm_read_cpsr p) n))
    \<and> (\<forall>j < 18. j \<noteq> CPSR \<longrightarrow> (\<forall>mode. raw p' j mode =
         (if j = PC then Inr (0x18 - 4)
          else if j = LR \<and> mode = IRQ then Inr ((pc + 4) AND 0xFFFFFFFD)
          else if j = SP \<and> mode = IRQ then Inr sp
          else if j = SPSR \<and> mode = IRQ then Inr (arm_read_cpsr p)
          else raw p j mode)))
    \<and> mem p' = mem p \<and> stdout p' = stdout p \<and> stdin p' = stdin p \<and> cycle_count p' = cycle_count p"
  by (rule irq_entry_effect [OF assms])

theorem irq_entry_witness:
  "\<exists>p'. arm_exception INTERRUPT (demo_sim []) = Inr (int INTERRUPT, p') \<and> cur_mode p' = IRQ
    \<and> raw p' LR IRQ = Inr 4 \<and> raw p' SPSR IRQ = Inr 0x153"
proof -
  have r: "raw (demo_sim []) i SVC = Inr 0" if i: "i \<in> {SP, PC}" for i
  proof -
    obtain k where "cell i SVC = Inr k" using cell_low [of i SVC] i by auto
    then show ?thesis using i by (intro raw_demo_sim) auto
  qed
  have "\<not> bit (0x153 :: u32) 7" by simp
  then show ?thesis
    using irq_entry [of "demo_sim []" 0 0] r wf_demo_sim [of "[]"] by (auto simp: demo_sim_simps)
qed

lemma arm_create_effect:
  assumes "wf_registers r" "wf_memory m"
  shows "\<exists>p. arm_create True h inp r m = Inr (Some p) \<and> wf_sim p \<and> arm_read_cpsr p = 0x153
    \<and> cur_mode p = SVC \<and> cycle_count p = 0 \<and> mem p = m \<and> sim_host p = h
    \<and> stdout p = [] \<and> stdin p = inp
    \<and> (\<forall>j < 18. j \<noteq> CPSR \<longrightarrow> (\<forall>mode. raw p j mode =
         (if j = PC then Inr 0
          else if j = SP \<and> mode = SVC then Inr (of_nat (memory_get_size m))
          else registers_read h r j mode)))"
proof -
  let ?p0 = "\<lparr>cycle_count = 0, reg = r, mem = m, sim_host = h, stdout = [], stdin = inp\<rparr>"
  let ?c = "0x153 OR Exception_bit_9"
  have c: "?c = 0x153" by (simp add: Exception_bit_9_def)
  have w: "wf_sim ?p0" using assms by (simp add: wf_sim_def)
  let ?p1 = "arm_write_cpsr ?c ?p0"
  have w1: "wf_sim ?p1" and m1: "cur_mode ?p1 = SVC"
    using wf_sim_write_cpsr [OF w, of ?c] w mode_of_reset by simp_all
  obtain p2 where p2: "arm_write_register 15 0 ?p1 = Inr p2" "writes ?p1 15 0 p2"
    using arm_write_register_writes [OF w1, of 15 0] by auto
  have m2: "cur_mode p2 = SVC" using writesD(3) [OF p2(2)] m1 by simp
  obtain p3 where p3: "arm_write_register 13 (of_nat (memory_get_size m)) p2 = Inr p3"
    "writes p2 13 (of_nat (memory_get_size m)) p3"
    using arm_write_register_writes [OF writesD(1) [OF p2(2)], of 13] m2 by auto
  have run: "arm_create True h inp r m = Inr (Some p3)"
    using p2(1) p3(1) by (simp add: arm_create_def arm_exception_def Let_def)
  note ws = p2(2) p3(2)
  have cpsr: "arm_read_cpsr p3 = 0x153" using ws [THEN writesD(2)] w c by simp
  have raw: "raw p3 j mode = (if j = PC then Inr 0
          else if j = SP \<and> mode = SVC then Inr (of_nat (memory_get_size m))
          else registers_read h r j mode)" if "j < 18" "j \<noteq> CPSR" for j mode
  proof -
    have "raw ?p1 j mode = registers_read h r j mode"
      using that w by simp (simp add: raw_def)
    moreover have "cell SP mode = cell SP SVC \<longleftrightarrow> mode = SVC" "cell PC mode = cell PC SVC"
      by (auto simp: cell_def Let_def get_read_write_mode_def)
    ultimately show ?thesis
      using ws [THEN writesD(9), of j mode] m1 m2 by (auto simp: cell_def)
  qed
  show ?thesis
    using run writesD [OF p3(2)] writesD [OF p2(2)] m2 cpsr raw
    by (intro exI [of _ p3]) auto
qed

text \<open>The construction resets the processor: supervisor mode, PC 0, the stack pointer of that mode
  at the end of the memory, a cycle counter of 0, and no output; every other register keeps its
  value.\<close>

theorem arm_create_reset:
  assumes "wf_registers r" "wf_memory m"
  shows "\<exists>p. arm_create True h inp r m = Inr (Some p) \<and> wf_sim p \<and> arm_read_cpsr p = 0x153
    \<and> cur_mode p = SVC \<and> cycle_count p = 0 \<and> mem p = m \<and> sim_host p = h
    \<and> stdout p = [] \<and> stdin p = inp
    \<and> (\<forall>j < 18. j \<noteq> CPSR \<longrightarrow> (\<forall>mode. raw p j mode =
         (if j = PC then Inr 0
          else if j = SP \<and> mode = SVC then Inr (of_nat (memory_get_size m))
          else registers_read h r j mode)))"
  by (rule arm_create_effect [OF assms])

theorem arm_create_reset_witness:
  "\<exists>p. arm_create True \<lparr>host_big_endian = False, host_masks_shifts = True\<rparr> [] registers_create
      (Some \<lparr>msize = 4, mdata = [0, 0, 0, 0]\<rparr>) = Inr (Some p)
    \<and> cur_mode p = SVC \<and> raw p SP SVC = Inr 4 \<and> raw p PC SVC = Inr 0"
  using arm_create_reset [OF wf_registers_create, of "Some \<lparr>msize = 4, mdata = [0, 0, 0, 0]\<rparr>"
      "\<lparr>host_big_endian = False, host_masks_shifts = True\<rparr>" "[]"]
  by (auto simp: wf_memory_def memory_get_size_def)

lemma print_string_loop_prints:
  assumes "wf_memory (Some m)" "mem p = Some m" "unat a + length bs < msize m"
    "\<forall>k < length bs. mdata m ! (unat a + k) = bs ! k" "0 \<notin> set bs"
    "mdata m ! (unat a + length bs) = 0"
  shows "print_string_loop room a prev c p =
    (if length bs < room then Inr (c @ map (\<lambda>b. char_of (unat b)) bs) else Inl Buffer_Overflow)"
  using assms
proof (induction bs arbitrary: room a prev c)
  case Nil
  have rd: "arm_read_byte a p = Inr (Some 0)"
    using Nil read_byte_inside [of m a] by (simp add: arm_read_byte_def inside_def)
  show ?case by (subst print_string_loop.simps) (simp add: rd split: nat.split)
next
  case (Cons b bs)
  have b: "mdata m ! unat a = b"
    using Cons.prems(4) by (metis length_greater_0_conv list.discI nth_Cons_0 add_0_right)
  have rd: "arm_read_byte a p = Inr (Some b)"
    using Cons.prems(1-3) b read_byte_inside [of m a] by (simp add: arm_read_byte_def inside_def)
  have lt: "unat a + 1 < 2 ^ 32" using Cons.prems(1,3) by (simp add: wf_memory_def)
  then have a1: "unat (a + 1) = unat a + 1"
    using unat_add_no_wrap [of a 1] by simp
  have bs: "mdata m ! (unat (a + 1) + k) = bs ! k" if "k < length bs" for k
    using Cons.prems(4) that unfolding a1
    by (metis Suc_less_eq add.assoc length_Cons nth_Cons_Suc plus_1_eq_Suc)
  have ih: "print_string_loop r (a + 1) (Some b) (c @ [char_of (unat b)]) p =
    (if length bs < r then Inr ((c @ [char_of (unat b)]) @ map (\<lambda>b. char_of (unat b)) bs)
     else Inl Buffer_Overflow)" for r
    using Cons.prems bs by (intro Cons.IH) (auto simp: a1)
  have "b \<noteq> 0" using Cons.prems(5) by auto
  then show ?case
    by (subst print_string_loop.simps) (auto simp: rd ih split: nat.split)
qed

text \<open>C33: The string output prints the characters up to the null byte at the address in r0, whatever
  their number is up to 99; a longer string overruns the buffer of 100 characters.\<close>

theorem print_string_prints:
  assumes "wf_sim p" "raw p 0 (cur_mode p) = Inr a" "mem p = Some m"
    "unat a + length bs < msize m" "\<forall>k < length bs. mdata m ! (unat a + k) = bs ! k"
    "0 \<notin> set bs" "mdata m ! (unat a + length bs) = 0"
  shows "print_string p =
    (if length bs \<le> 99 then Inr (p\<lparr>stdout := stdout p @ map (\<lambda>b. char_of (unat b)) bs\<rparr>)
     else Inl Buffer_Overflow)"
  using assms print_string_loop_prints [of m p a bs 100 None "[]"]
  by (simp add: print_string_def arm_read_register_raw wf_sim_def)

theorem print_string_prints_witness:
  "print_string (demo_sim [0x48, 0x69, 0]) = Inr ((demo_sim [0x48, 0x69, 0])\<lparr>stdout := ''Hi''\<rparr>)"
proof -
  have "raw (demo_sim [0x48, 0x69, 0]) 0 SVC = Inr 0"
    by (rule raw_demo_sim [where k = 0]) (simp_all add: cell_def)
  moreover have "\<forall>k < length [0x48, 0x69 :: u8]. [0x48, 0x69, 0 :: u8] ! k = [0x48, 0x69] ! k"
    by (simp add: less_Suc_eq)
  moreover have "char_of (72 :: nat) = CHR ''H''" "char_of (105 :: nat) = CHR ''i''" by code_simp+
  ultimately show ?thesis
    using print_string_prints [of "demo_sim [0x48, 0x69, 0]" 0
        "\<lparr>msize = 3, mdata = [0x48, 0x69, 0]\<rparr>" "[0x48, 0x69]"] wf_demo_sim [of "[0x48, 0x69, 0]"]
    by (simp add: demo_sim_simps)
qed

lemma read_dec_end: "rest = [] \<or> \<not> is_dec (hd rest) \<Longrightarrow> read_dec n rest = (n, rest)"
  by (cases rest) auto

lemma scan_d_format_d:
  assumes "rest = [] \<or> \<not> is_dec (hd rest)"
  shows "scan_d (format_d v @ rest) = (Some (sint v), rest)"
proof -
  have digits: "read_dec 0 (show_dec n @ rest) = (n, rest)" for n
    using read_dec_append [OF show_dec_digits, of 0 n rest] read_dec_show_dec read_dec_end [OF assms]
    by simp
  have hd: "is_dec (hd (show_dec n @ rest))" "show_dec n @ rest \<noteq> []" for n
    using show_dec_digits [of n] show_dec_nonempty [of n] by (cases "show_dec n"; simp)+
  have plain: "\<not> is_space (hd (show_dec n @ rest))" "hd (show_dec n @ rest) \<notin> {CHR ''-'', CHR ''+''}" for n
    using hd(1) [of n] by (auto simp: is_dec_def is_space_def)
  have dw: "dropWhile is_space (show_dec n @ rest) = show_dec n @ rest" for n
    using plain(1) [of n] by (cases "show_dec n @ rest") auto
  have sp: "\<not> is_space (CHR ''-'')" by (simp add: is_space_def)
  have ex: "\<exists>x \<in> set (show_dec n) \<union> set rest. \<not> is_space x" for n
    using plain(1) [of n] hd(2) [of n] hd_in_set [of "show_dec n @ rest"] by auto
  show ?thesis
    using digits hd plain dw sp ex by (auto simp: format_d_def scan_d_def Let_def)
qed

text \<open>The number in r0 is written in decimal by one software interrupt and read back by another:
  whatever text follows, the read takes exactly the number and puts the same value into r0.\<close>

theorem swi_number_roundtrip:
  assumes "wf_sim p" "raw p 0 (cur_mode p) = Inr v" "wf_sim q"
    "stdin q = format_d v @ rest" "rest = [] \<or> \<not> is_dec (hd rest)"
  shows "software_interrupt e 2 p = Inr (0, p\<lparr>stdout := stdout p @ format_d v\<rparr>)
    \<and> (\<exists>q'. software_interrupt e 4 q = Inr (0, q') \<and> raw q' 0 (cur_mode q) = Inr v
        \<and> stdin q' = rest \<and> mem q' = mem q)"
proof
  show "software_interrupt e 2 p = Inr (0, p\<lparr>stdout := stdout p @ format_d v\<rparr>)"
    using assms(2) by (simp add: software_interrupt_def arm_read_register_raw)
  let ?q = "q\<lparr>stdin := rest\<rparr>"
  have w: "wf_sim ?q" and m: "cur_mode ?q = cur_mode q"
    using assms(3) by (simp_all add: wf_sim_def cur_mode_def arm_read_cpsr_def)
  obtain q' where q': "arm_write_register 0 v ?q = Inr q'" "writes ?q 0 v q'"
    using arm_write_register_writes [OF w, of 0 v] by auto
  have "- (2 ^ 31) \<le> sint v" "sint v < 2 ^ 31"
    using sint_greater_eq [of v] sint_lt [of v] by simp_all
  then have "scanint q = Inr (v, ?q)"
    using scan_d_format_d [OF assms(5), of v] assms(4) by (simp add: scanint_def)
  then have "software_interrupt e 4 q = Inr (0, q')"
    using q'(1) by (simp add: software_interrupt_def)
  then show "\<exists>q'. software_interrupt e 4 q = Inr (0, q') \<and> raw q' 0 (cur_mode q) = Inr v
        \<and> stdin q' = rest \<and> mem q' = mem q"
    using writes_same [OF q'(2)] writesD(4,7) [OF q'(2)] m by auto
qed

theorem swi_number_roundtrip_witness:
  "\<exists>q'. software_interrupt 8 4 ((demo_sim [])\<lparr>stdin := ''0 x''\<rparr>) = Inr (0, q')
    \<and> raw q' 0 SVC = Inr 0 \<and> stdin q' = '' x''"
proof -
  let ?p = "demo_sim []" and ?q = "(demo_sim [])\<lparr>stdin := ''0 x''\<rparr>"
  have "raw ?p 0 SVC = Inr 0" by (rule raw_demo_sim [where k = 0]) (simp_all add: cell_def)
  moreover have "format_d 0 = ''0''" by code_simp
  moreover have "wf_sim ?q" "cur_mode ?q = SVC"
    using wf_demo_sim [of "[]"] demo_sim_simps(6) [of "[]"]
    by (simp_all add: wf_sim_def cur_mode_def arm_read_cpsr_def)
  moreover have "\<not> is_dec (CHR '' '')" by (simp add: is_dec_def)
  ultimately show ?thesis
    using swi_number_roundtrip [of ?p 0 ?q "'' x''" 8] wf_demo_sim [of "[]"]
    by (auto simp: demo_sim_simps)
qed

end
