(* ===== verification/Branch_Other.thy ===== *)
theory Branch_Other
  imports Arm_Exception
begin

text \<open>
  The handlers of \<^verbatim>\<open>arm_branch_other.c\<close>: branch with and without link, software interrupt, MRS,
  BX and multiply. A handler takes the instruction and gives its return code (0, or an ARM
  exception) with the new state.
\<close>

section \<open>Operations\<close>

definition arm_branch :: "u32 \<Rightarrow> sim \<Rightarrow> (int \<times> sim) res" where
  "arm_branch ins p =
     bindR (arm_read_register PC p) (\<lambda>PCvalue.
     bindR (if get_bit ins 24 \<noteq> 0 then arm_write_register LR (PCvalue - 4) p else Inr p) (\<lambda>p.
     let bits_23_0 = get_bits ins 23 0;
         extended = (if get_bit bits_23_0 23 \<noteq> 0 then bits_23_0 OR 0xFF000000 else bits_23_0);
         extended = push_bit 2 extended
     in
     bindR (arm_write_register PC (PCvalue + extended) p) (\<lambda>p.
     Inr (0, p))))"

definition arm_coprocessor_others_swi :: "u32 \<Rightarrow> int" where
  "arm_coprocessor_others_swi ins =
     (if get_bit ins 24 \<noteq> 0 then int SOFTWARE_INTERRUPT else int UNDEFINED_INSTRUCTION)"

definition arm_miscellaneous :: "u32 \<Rightarrow> sim \<Rightarrow> (int \<times> sim) res" where
  "arm_miscellaneous ins p =
     (let p = p\<lparr>stdout := stdout p @ ''BX LR atteri donc ici ?'' @ [CHR 0x0A]\<rparr>;
          Rd = unat (get_bits ins 15 12)
      in
      if get_bit ins 22 \<noteq> 0 then
        (if \<not> arm_current_mode_has_spsr p then Inr (int DATA_ABORT, p)
         else
           bindR (arm_read_spsr p) (\<lambda>SPSR_value.
           bindR (arm_write_register Rd SPSR_value p) (\<lambda>p.
           Inr (0, p))))
      else
        (let CPSR_value = arm_read_cpsr p in
         bindR (arm_write_register Rd CPSR_value p) (\<lambda>p.
         Inr (0, p))))"

definition arm_miscellaneous_2 :: "u32 \<Rightarrow> u32 \<Rightarrow> sim \<Rightarrow> (int \<times> sim) res" where
  "arm_miscellaneous_2 ins cpsr p =
     (let Rm = unat (get_bits ins 3 0) in
      bindR (arm_read_register Rm p) (\<lambda>Rm_v.
      let PC_v = Rm_v AND 0xFFFFFFFE in
      bindR (arm_write_register PC PC_v p) (\<lambda>p.
      Inr (0, p))))"

definition arm_multiply :: "u32 \<Rightarrow> u32 \<Rightarrow> sim \<Rightarrow> (int \<times> sim) res" where
  "arm_multiply ins cpsr p =
     (let Rd = unat (get_bits ins 19 16);
          Rs = unat (get_bits ins 11 8);
          Rm = unat (get_bits ins 3 0);
          S = get_bit ins 4
      in
      bindR (arm_read_register Rs p) (\<lambda>Rs_v.
      bindR (arm_read_register Rm p) (\<lambda>Rm_v.
      let Rd_v = Rs_v * Rm_v in
      bindR (arm_write_register Rd Rd_v p) (\<lambda>p.
      if S = 1 then
        (let cpsr = (if get_bit Rd_v 31 = 0 then clr_bit cpsr C_bit else set_bit_c cpsr C_bit);
             cpsr = (if Rd_v = 0 then set_bit_c cpsr Z_bit else clr_bit cpsr Z_bit)
         in Inr (0, arm_write_cpsr cpsr p))
      else Inr (0, p)))))"

section \<open>The handlers keep the invariants of the core\<close>

context core_invariant
begin

lemma arm_branch_outcome: "I p \<Longrightarrow> outcome FR (\<lambda>(rc, p'). I p') (arm_branch ins p)"
  unfolding arm_branch_def Let_def by (auto intro!: outcome_intros)

lemma arm_miscellaneous_outcome: "I p \<Longrightarrow> outcome FR (\<lambda>(rc, p'). I p') (arm_miscellaneous ins p)"
  unfolding arm_miscellaneous_def Let_def by (auto intro!: outcome_intros intro: I_stdout)

lemma arm_miscellaneous_2_outcome:
  "I p \<Longrightarrow> outcome FR (\<lambda>(rc, p'). I p') (arm_miscellaneous_2 ins cpsr p)"
  unfolding arm_miscellaneous_2_def Let_def by (auto intro!: outcome_intros)

lemma arm_multiply_outcome:
  "I p \<Longrightarrow> mode_of cpsr \<in> M \<Longrightarrow> outcome FR (\<lambda>(rc, p'). I p') (arm_multiply ins cpsr p)"
  unfolding arm_multiply_def Let_def by (auto intro!: outcome_intros I_write_cpsr)

end

section \<open>Properties\<close>

text \<open>The 24-bit offset of a branch, sign-extended and scaled.\<close>

definition branch_offset :: "u32 \<Rightarrow> u32" where
  "branch_offset ins = push_bit 2 (signed_take_bit 23 ins)"

lemma branch_offset_code:
  "push_bit 2 (if get_bit (get_bits ins 23 0) 23 \<noteq> 0 then get_bits ins 23 0 OR 0xFF000000
     else get_bits ins 23 0) = branch_offset ins"
proof -
  have top: "(0xFF000000 :: u32) = NOT (mask 24)" by (simp add: mask_eq_exp_minus_1)
  have "(if get_bit (get_bits ins 23 0) 23 \<noteq> 0 then get_bits ins 23 0 OR NOT (mask 24)
      else get_bits ins 23 0) = signed_take_bit 23 ins"
  proof (rule bit_word_eqI)
    fix n :: nat assume "n < LENGTH(32)"
    moreover have "n < 23 \<or> n = 23 \<or> 24 \<le> n" by arith
    ultimately show "bit (if get_bit (get_bits ins 23 0) 23 \<noteq> 0 then get_bits ins 23 0 OR NOT (mask 24)
      else get_bits ins 23 0) n = bit (signed_take_bit 23 ins) n"
      by (auto simp: bit_simps bit_get_bits min_def)
  qed
  then show ?thesis by (simp only: branch_offset_def top)
qed

lemma arm_branch_effect:
  assumes "wf_sim p" "cur_mode p \<noteq> FIQ" "raw p PC (cur_mode p) = Inr pc"
  defines "pcv \<equiv> (pc + 4) AND 0xFFFFFFFD"
  shows "\<exists>p'. arm_branch ins p = Inr (0, p') \<and> wf_sim p' \<and> arm_read_cpsr p' = arm_read_cpsr p
    \<and> mem p' = mem p \<and> cycle_count p' = cycle_count p \<and> stdout p' = stdout p \<and> stdin p' = stdin p
    \<and> (\<forall>j < 18. raw p' j (cur_mode p) =
         (if j = PC then Inr (pcv + branch_offset ins)
          else if j = LR \<and> bit ins 24 then Inr (pcv - 4)
          else raw p j (cur_mode p)))"
proof -
  obtain p1 where p1: "(if get_bit ins 24 \<noteq> 0 then arm_write_register LR (pcv - 4) p else Inr p) = Inr p1"
    "wf_sim p1" "arm_read_cpsr p1 = arm_read_cpsr p" "cur_mode p1 = cur_mode p" "mem p1 = mem p"
    "cycle_count p1 = cycle_count p" "stdout p1 = stdout p" "stdin p1 = stdin p"
    "\<And>j. raw p1 j (cur_mode p) = (if j = LR \<and> bit ins 24 then Inr (pcv - 4) else raw p j (cur_mode p))"
  proof (cases "bit ins 24")
    case True
    obtain p1 where "arm_write_register LR (pcv - 4) p = Inr p1" "writes p LR (pcv - 4) p1"
      using arm_write_register_writes [OF assms(1), of LR "pcv - 4"] assms(2) by auto
    with True show thesis
      using writesD [of p LR "pcv - 4" p1] by (intro that [of p1]) auto
  next
    case False
    with assms(1) show thesis by (intro that [of p]) auto
  qed
  obtain p2 where p2: "arm_write_register PC (pcv + branch_offset ins) p1 = Inr p2"
    "writes p1 PC (pcv + branch_offset ins) p2"
    using arm_write_register_writes [OF p1(2), of PC] by auto
  have "arm_branch ins p = Inr (0, p2)"
    using assms(3) p1(1) p2(1)
    by (simp only: arm_branch_def arm_read_register_raw Let_def branch_offset_code pcv_def) simp
  then show ?thesis
    using writesD [OF p2(2)] p1 by (intro exI [of _ p2]) (auto simp: cell_def)
qed

text \<open>A branch continues at the value read from PC plus the sign-extended offset times four; with
  the link bit the address of the next instruction goes to LR of the current mode; no other register
  and no memory changes.\<close>

theorem arm_branch_target:
  assumes "wf_sim p" "cur_mode p \<noteq> FIQ" "raw p PC (cur_mode p) = Inr pc"
  defines "pcv \<equiv> (pc + 4) AND 0xFFFFFFFD"
  shows "\<exists>p'. arm_branch ins p = Inr (0, p') \<and> wf_sim p' \<and> arm_read_cpsr p' = arm_read_cpsr p
    \<and> mem p' = mem p
    \<and> (\<forall>j < 18. raw p' j (cur_mode p) =
         (if j = PC then Inr (pcv + branch_offset ins)
          else if j = LR \<and> bit ins 24 then Inr (pcv - 4)
          else raw p j (cur_mode p)))"
  using arm_branch_effect [OF assms(1-3), of ins] unfolding pcv_def by blast

theorem arm_branch_target_witness:
  "\<exists>p'. arm_branch 0xEBFFFFFE (demo_sim []) = Inr (0, p') \<and> raw p' PC SVC = Inr (- 4)
    \<and> raw p' LR SVC = Inr 0"
proof -
  have "raw (demo_sim []) PC SVC = Inr 0" by (rule raw_demo_sim [where k = 0]) (simp_all add: cell_def)
  moreover have "4 + branch_offset 0xEBFFFFFE = - 4" by code_simp
  moreover have "bit (0xEBFFFFFE :: u32) 24" by simp
  ultimately show ?thesis
    using arm_branch_target [of "demo_sim []" 0 "0xEBFFFFFE"] wf_demo_sim [of "[]"]
    by (auto simp: demo_sim_simps)
qed

text \<open>The exchange branch continues at the value of the register with its lowest bit cleared, in
  every mode, and changes nothing else.\<close>

theorem arm_miscellaneous_2_target:
  assumes "wf_sim p" "arm_read_register (unat (get_bits ins 3 0)) p = Inr v"
  shows "\<exists>p'. arm_miscellaneous_2 ins cpsr p = Inr (0, p')
    \<and> (\<forall>mode. raw p' PC mode = Inr (v AND NOT 1))
    \<and> (\<forall>j mode. j \<noteq> PC \<longrightarrow> raw p' j mode = raw p j mode)
    \<and> arm_read_cpsr p' = arm_read_cpsr p \<and> mem p' = mem p"
proof -
  have "(0xFFFFFFFE :: u32) = NOT 1" by code_simp
  then have m: "v AND 0xFFFFFFFE = v AND NOT 1" by (simp only:)
  obtain p' where p': "arm_write_register PC (v AND NOT 1) p = Inr p'" "writes p PC (v AND NOT 1) p'"
    using arm_write_register_writes [OF assms(1), of PC] by auto
  then show ?thesis
    using assms(2) writesD [OF p'(2)] unfolding arm_miscellaneous_2_def
    by (intro exI [of _ p']) (auto simp: m cell_def Let_def)
qed

theorem arm_miscellaneous_2_target_witness:
  "\<exists>p'. arm_miscellaneous_2 0xE12FFF11 0 (demo_sim []) = Inr (0, p') \<and> raw p' PC SVC = Inr 0"
proof -
  have "raw (demo_sim []) 1 SVC = Inr 0" by (rule raw_demo_sim [where k = 0]) (simp_all add: cell_def)
  moreover have "unat (get_bits 0xE12FFF11 3 0) = 1" by code_simp
  ultimately have "arm_read_register (unat (get_bits 0xE12FFF11 3 0)) (demo_sim []) = Inr 0"
    by (simp add: arm_read_register_raw demo_sim_simps)
  from arm_miscellaneous_2_target [OF wf_demo_sim this, where cpsr = 0] show ?thesis by auto
qed

text \<open>Reading a status register: the instruction copies the CPSR, or the SPSR of the current mode,
  into the destination register. No status register is ever written, whatever the other bits of the
  instruction, and without an SPSR the handler reports a data abort and leaves every register alone.
  The handler always writes a line on standard output.\<close>

theorem arm_miscellaneous_status:
  fixes ins :: u32
  assumes "wf_sim p" "cur_mode p \<noteq> FIQ"
  defines "Rd \<equiv> unat (get_bits ins 15 12)"
    and "out \<equiv> stdout p @ ''BX LR atteri donc ici ?'' @ [CHR 0x0A]"
  shows "if bit ins 22 \<and> \<not> registers_mode_has_spsr (cur_mode p)
    then arm_miscellaneous ins p = Inr (int DATA_ABORT, p\<lparr>stdout := out\<rparr>)
    else \<exists>v p'. (if bit ins 22 then raw p SPSR (cur_mode p) = Inr v else v = arm_read_cpsr p)
      \<and> arm_miscellaneous ins p = Inr (0, p') \<and> stdout p' = out \<and> mem p' = mem p
      \<and> arm_read_cpsr p' = arm_read_cpsr p
      \<and> (\<forall>j. raw p' j (cur_mode p) = (if j = Rd then Inr v else raw p j (cur_mode p)))"
proof -
  let ?p = "p\<lparr>stdout := out\<rparr>"
  have w: "wf_sim ?p" and m: "cur_mode ?p = cur_mode p" and c: "arm_read_cpsr ?p = arm_read_cpsr p"
    and r: "raw ?p j mode = raw p j mode" for j mode
    using assms(1) by (simp_all add: wf_sim_def cur_mode_def arm_read_cpsr_def raw_def)
  have wr: "\<exists>p'. arm_write_register Rd v ?p = Inr p' \<and> stdout p' = out \<and> mem p' = mem p
      \<and> arm_read_cpsr p' = arm_read_cpsr p
      \<and> (\<forall>j. raw p' j (cur_mode p) = (if j = Rd then Inr v else raw p j (cur_mode p)))" for v
  proof -
    obtain p' where p': "arm_write_register Rd v ?p = Inr p'" "writes ?p Rd v p'"
      using arm_write_register_writes [OF w, of Rd v] assms(2) m by (auto simp: Rd_def)
    then show ?thesis using writesD [OF p'(2)] c m r by (intro exI [of _ p']) auto
  qed
  have code: "arm_miscellaneous ins p =
      (if bit ins 22 then
         (if \<not> registers_mode_has_spsr (cur_mode p) then Inr (int DATA_ABORT, ?p)
          else bindR (raw p SPSR (cur_mode p)) (\<lambda>v. bindR (arm_write_register Rd v ?p) (\<lambda>p. Inr (0, p))))
       else bindR (arm_write_register Rd (arm_read_cpsr p) ?p) (\<lambda>p. Inr (0, p)))"
    unfolding arm_miscellaneous_def Let_def arm_current_mode_has_spsr_cur arm_read_spsr_raw
      out_def [symmetric] Rd_def [symmetric] m c r by simp
  show ?thesis
  proof (cases "bit ins 22")
    case True
    show ?thesis
    proof (cases "registers_mode_has_spsr (cur_mode p)")
      case has: True
      then obtain v where v: "raw p SPSR (cur_mode p) = Inr v"
        using raw_spsr_outcome [OF assms(1), of "cur_mode p"]
        by (cases "raw p SPSR (cur_mode p)") auto
      show ?thesis using wr [of v] True has v by (auto simp: code)
    qed (use True in \<open>simp add: code\<close>)
  next
    case False
    then show ?thesis using wr [of "arm_read_cpsr p"] by (auto simp: code)
  qed
qed

theorem arm_miscellaneous_status_witness:
  "\<exists>p'. arm_miscellaneous 0xE10F1000 (demo_sim []) = Inr (0, p') \<and> raw p' 1 SVC = Inr 0x153
    \<and> arm_read_cpsr p' = 0x153"
proof -
  have "unat (get_bits 0xE10F1000 15 12) = 1" "\<not> bit (0xE10F1000 :: u32) 22" by code_simp+
  then show ?thesis
    using arm_miscellaneous_status [of "demo_sim []" "0xE10F1000"] wf_demo_sim [of "[]"]
    by (auto simp: demo_sim_simps)
qed

text \<open>A multiplication writes the low 32 bits of the product. Its S flag is bit 4 of the instruction,
  which the decoder has tested to be set, so the flags always change: Z tells a zero product, the
  sign of the product goes to C, and N and V keep their values.\<close>

theorem arm_multiply_effect:
  assumes "wf_sim p" "cur_mode p \<noteq> FIQ" "bit ins 4"
    "arm_read_register (unat (get_bits ins 11 8)) p = Inr a"
    "arm_read_register (unat (get_bits ins 3 0)) p = Inr b"
  shows "\<exists>p'. arm_multiply ins (arm_read_cpsr p) p = Inr (0, p') \<and> wf_sim p' \<and> mem p' = mem p
    \<and> raw p' (unat (get_bits ins 19 16)) (cur_mode p) = Inr (a * b)
    \<and> (\<forall>n < 32. bit (arm_read_cpsr p') n =
         (if n = 29 then bit (a * b) 31 else if n = 30 then a * b = 0 else bit (arm_read_cpsr p) n))"
proof -
  let ?Rd = "unat (get_bits ins 19 16)" and ?c = "arm_read_cpsr p"
  obtain p1 where p1: "arm_write_register ?Rd (a * b) p = Inr p1" "writes p ?Rd (a * b) p1"
    using arm_write_register_writes [OF assms(1), of ?Rd "a * b"] assms(2) by auto
  define c where "c = (if get_bit (a * b) 31 = 0 then clr_bit ?c C_bit else set_bit_c ?c C_bit)"
  define c' where "c' = (if a * b = 0 then set_bit_c c Z_bit else clr_bit c Z_bit)"
  have "arm_multiply ins ?c p = Inr (0, arm_write_cpsr c' p1)"
    using assms(3-5) p1(1) by (simp add: arm_multiply_def Let_def c'_def c_def)
  moreover have "bit c' n = (if n = 29 then bit (a * b) 31 else if n = 30 then a * b = 0 else bit ?c n)"
    if "n < 32" for n
    using that by (auto simp: c'_def c_def bit_set_bit_c bit_clr_bit)
  moreover have "?Rd \<noteq> CPSR" using unat_nibble(1) [of ins] by linarith
  ultimately show ?thesis
    using writesD [OF p1(2)] wf_sim_write_cpsr
    by (intro exI [of _ "arm_write_cpsr c' p1"]) auto
qed

theorem arm_multiply_effect_witness:
  "\<exists>p'. arm_multiply 0xE0010392 0x153 (demo_sim []) = Inr (0, p')
    \<and> raw p' 1 SVC = Inr 0 \<and> bit (arm_read_cpsr p') 30"
proof -
  have f: "unat (get_bits 0xE0010392 19 16) = 1" "unat (get_bits 0xE0010392 11 8) = 3"
    "unat (get_bits 0xE0010392 3 0) = 2" "bit (0xE0010392 :: u32) 4" by code_simp+
  have "raw (demo_sim []) i SVC = Inr 0" if "i \<in> {2, 3}" for i
    using that by (intro raw_demo_sim [where k = 0]) (auto simp: cell_def)
  then have r: "arm_read_register i (demo_sim []) = Inr 0" if "i \<in> {2, 3}" for i
    using that by (auto simp: arm_read_register_raw demo_sim_simps)
  show ?thesis
    using arm_multiply_effect [of "demo_sim []" "0xE0010392" 0 0] f r wf_demo_sim [of "[]"]
    by (auto simp: demo_sim_simps)
qed

end
