(* ===== verification/Data_Processing.thy ===== *)
theory Data_Processing
  imports Arm_Exception
begin

text \<open>
  The data-processing instructions of \<^verbatim>\<open>arm_data_processing.c\<close>: the shifter operand with its
  carry, the sixteen operators, and the flag updates. \<^verbatim>\<open>Rd_value\<close> has 64 bits in the code but is
  assigned from 32-bit expressions, so it is a 32-bit result zero-extended.
\<close>

section \<open>Operators\<close>

abbreviation op_AND :: u32 where "op_AND \<equiv> 0"
abbreviation op_EOR :: u32 where "op_EOR \<equiv> 1"
abbreviation op_SUB :: u32 where "op_SUB \<equiv> 2"
abbreviation op_RSB :: u32 where "op_RSB \<equiv> 3"
abbreviation op_ADD :: u32 where "op_ADD \<equiv> 4"
abbreviation op_ADC :: u32 where "op_ADC \<equiv> 5"
abbreviation op_SBC :: u32 where "op_SBC \<equiv> 6"
abbreviation op_RSC :: u32 where "op_RSC \<equiv> 7"
abbreviation op_TST :: u32 where "op_TST \<equiv> 8"
abbreviation op_TEQ :: u32 where "op_TEQ \<equiv> 9"
abbreviation op_CMP :: u32 where "op_CMP \<equiv> 10"
abbreviation op_CMN :: u32 where "op_CMN \<equiv> 11"
abbreviation op_ORR :: u32 where "op_ORR \<equiv> 12"
abbreviation op_MOV :: u32 where "op_MOV \<equiv> 13"
abbreviation op_BIC :: u32 where "op_BIC \<equiv> 14"
abbreviation op_MVN :: u32 where "op_MVN \<equiv> 15"

section \<open>Flags\<close>

definition set_zn :: "u32 \<Rightarrow> u32 \<Rightarrow> u32" where
  "set_zn rd_value cpsr =
     (let cpsr = (if get_bit rd_value N_bit \<noteq> 0 then set_bit_c cpsr N_bit else clr_bit cpsr N_bit)
      in if rd_value = 0 then set_bit_c cpsr Z_bit else clr_bit cpsr Z_bit)"

definition carryFrom :: "u64 \<Rightarrow> u32 \<Rightarrow> u32" where
  "carryFrom true_result cpsr =
     (if true_result \<ge> 0x100000000 then set_bit_c cpsr C_bit else clr_bit cpsr C_bit)"

definition overflow_flag :: "bool \<Rightarrow> u32 \<Rightarrow> u32" where
  "overflow_flag overflow cpsr = (if overflow then set_bit_c cpsr V_bit else clr_bit cpsr V_bit)"

definition overflowFrom :: "u32 \<Rightarrow> u32 \<Rightarrow> u32 \<Rightarrow> u32 \<Rightarrow> u32" where
  "overflowFrom rn_val shifter_op_val opcode cpsr =
     (let rn_sign = get_bit rn_val 31;
          shifter_op_sign = get_bit shifter_op_val 31
      in
      if opcode = op_ADC \<or> opcode = op_ADD \<or> opcode = op_CMN then
        (let result_sign = get_bit (rn_val + shifter_op_val) 31
         in overflow_flag (rn_sign = shifter_op_sign \<and> result_sign \<noteq> rn_sign) cpsr)
      else if opcode = op_SBC \<or> opcode = op_RSC \<or> opcode = op_SUB \<or> opcode = op_CMP then
        (let true_result :: u64 =
               (if (opcode = op_SBC \<or> opcode = op_RSC) \<and> get_bit cpsr C_bit = 0 then 1 else 0)
               + ucast (rn_val - shifter_op_val);
             result_sign = (ucast (get_bit true_result 31) :: u32)
         in overflow_flag (rn_sign \<noteq> shifter_op_sign \<and> result_sign \<noteq> rn_sign) cpsr)
      else cpsr)"

definition borrowFrom :: "u64 \<Rightarrow> u32 \<Rightarrow> u32" where
  "borrowFrom true_result cpsr =
     (if get_bit true_result 31 \<noteq> 0 then set_bit_c cpsr C_bit else clr_bit cpsr C_bit)"

section \<open>The sixteen operators\<close>

text \<open>
  The switch of \<^verbatim>\<open>apply_operator\<close>: the result, whether \<^verbatim>\<open>Rd\<close> is written, whether the flag update
  is forced, and the kind of flag update (0 addition, 1 logical, 2 subtraction).
\<close>

definition not_carry :: "u32 \<Rightarrow> u32" where
  "not_carry cpsr = (if get_bit cpsr C_bit = 0 then 1 else 0)"

definition operator_result :: "u32 \<Rightarrow> u32 \<Rightarrow> u32 \<Rightarrow> u32 \<Rightarrow> u32 \<times> bool \<times> bool \<times> nat" where
  "operator_result opcode Rn_value shifter_operand cpsr =
     (if opcode = op_AND then (Rn_value AND shifter_operand, True, False, 1)
      else if opcode = op_EOR then (Rn_value XOR shifter_operand, True, False, 1)
      else if opcode = op_SUB then (Rn_value - shifter_operand, True, False, 2)
      else if opcode = op_RSB then (shifter_operand - Rn_value, True, False, 2)
      else if opcode = op_ADD then (Rn_value + shifter_operand, True, False, 0)
      else if opcode = op_ADC then (Rn_value + shifter_operand + get_bit cpsr C_bit, True, False, 0)
      else if opcode = op_SBC then (Rn_value - shifter_operand - not_carry cpsr, True, False, 2)
      else if opcode = op_RSC then (shifter_operand - Rn_value - not_carry cpsr, True, False, 2)
      else if opcode = op_TST then (Rn_value AND shifter_operand, False, True, 1)
      else if opcode = op_TEQ then (Rn_value XOR shifter_operand, False, True, 1)
      else if opcode = op_CMP then (Rn_value - shifter_operand, False, True, 2)
      else if opcode = op_CMN then (Rn_value + shifter_operand, False, True, 0)
      else if opcode = op_ORR then (Rn_value OR shifter_operand, True, False, 1)
      else if opcode = op_MOV then (shifter_operand, True, False, 1)
      else if opcode = op_BIC then (Rn_value AND NOT shifter_operand, True, False, 1)
      else (NOT shifter_operand, True, False, 1))"

definition update_flags :: "nat \<Rightarrow> u64 \<Rightarrow> u32 \<Rightarrow> u32 \<Rightarrow> u8 \<Rightarrow> u32 \<Rightarrow> u32 \<Rightarrow> u32" where
  "update_flags ZNCVupdatecase Rd_value Rn_value shifter_operand shifter_carry_out opcode cpsr =
     (let cpsr = set_zn (ucast Rd_value) cpsr in
      if ZNCVupdatecase = 0 then
        overflowFrom Rn_value shifter_operand opcode (carryFrom Rd_value cpsr)
      else if ZNCVupdatecase = 1 then
        (if get_bit shifter_carry_out 0 \<noteq> 0 then set_bit_c cpsr C_bit else clr_bit cpsr C_bit)
      else
        overflowFrom Rn_value shifter_operand opcode (borrowFrom Rd_value cpsr))"

definition apply_operator :: "u32 \<Rightarrow> u32 \<Rightarrow> u8 \<Rightarrow> u32 \<Rightarrow> u32 \<Rightarrow> sim \<Rightarrow> (int \<times> sim) res" where
  "apply_operator ins shifter_operand shifter_carry_out S cpsr p =
     (let opcode = get_bits ins 24 21;
          Rd = unat (get_bits ins 15 12);
          Rn = unat (get_bits ins 19 16)
      in
      bindR (arm_read_register Rn p) (\<lambda>Rn_value.
      let (res, update_Rd, force_S, ZNCVupdatecase) =
            operator_result opcode Rn_value shifter_operand cpsr;
          Rd_value = (ucast res :: u64);
          S = (if force_S then 1 else S)
      in
      bindR (if update_Rd then
               bindR (if S \<noteq> 0 \<and> Rd = 15 \<and> arm_current_mode_has_spsr p
                      then arm_read_spsr p else Inr cpsr) (\<lambda>cpsr.
               bindR (arm_write_register Rd (ucast Rd_value) p) (\<lambda>p.
               Inr (cpsr, p)))
             else Inr (cpsr, p)) (\<lambda>(cpsr, p).
      if S \<noteq> 0 then
        Inr (0, arm_write_cpsr
          (update_flags ZNCVupdatecase Rd_value Rn_value shifter_operand shifter_carry_out opcode cpsr)
          p)
      else Inr (0, p))))"

section \<open>Shifter operands\<close>

text \<open>
  The two shifter functions give the operand and the carry they store through their pointers.
\<close>

definition get_shifter_operand_immediate_shift ::
    "host \<Rightarrow> nat \<Rightarrow> u32 \<Rightarrow> u32 \<Rightarrow> u32 \<Rightarrow> u32 \<times> u8" where
  "get_shifter_operand_immediate_shift h shift_imm shift_code Rm_value cpsr =
     (if shift_code = LSL then
        (if shift_imm = 0 then (Rm_value, ucast (get_bit cpsr C_bit))
         else (push_bit shift_imm Rm_value, ucast (get_bit Rm_value (32 - shift_imm))))
      else if shift_code = LSR then
        (if shift_imm = 0 then (Rm_value, ucast (get_bit cpsr 31))
         else (drop_bit shift_imm Rm_value, ucast (get_bit Rm_value (shift_imm - 1))))
      else if shift_code = ASR then
        (if shift_imm = 0 then
           (if get_bit Rm_value 31 = 0 then 0 else 0xFFFFFFFF, ucast (get_bit Rm_value 31))
         else (asr h Rm_value shift_imm, ucast (get_bit Rm_value (shift_imm - 1))))
      else
        (if shift_imm = 0 then
           (push_bit 31 cpsr OR drop_bit 1 Rm_value, ucast (get_bit Rm_value 0))
         else (ror h Rm_value shift_imm, ucast (get_bit Rm_value (shift_imm - 1)))))"

definition get_shifter_operand_register_shift ::
    "host \<Rightarrow> u32 \<Rightarrow> u32 \<Rightarrow> u32 \<Rightarrow> u32 \<Rightarrow> u32 \<times> u8" where
  "get_shifter_operand_register_shift h shift_code Rm_value Rs_value cpsr =
     (let Rs_significant_bits = unat (get_bits Rs_value 7 0) in
      if shift_code = LSL then
        (if Rs_significant_bits = 0 then (Rm_value, ucast (get_bit cpsr C_bit))
         else if Rs_significant_bits < 32 then
           (push_bit Rs_significant_bits Rm_value,
            ucast (get_bit Rm_value (32 - Rs_significant_bits)))
         else if Rs_significant_bits = 32 then (0, ucast (get_bit Rm_value 0))
         else (0, 0))
      else if shift_code = LSR then
        (if Rs_significant_bits = 0 then (Rm_value, ucast (get_bit cpsr C_bit))
         else if Rs_significant_bits < 32 then
           (drop_bit Rs_significant_bits Rm_value,
            ucast (get_bit Rm_value (Rs_significant_bits - 1)))
         else if Rs_significant_bits = 32 then (0, ucast (get_bit Rm_value 31))
         else (0, 0))
      else if shift_code = ASR then
        (if Rs_significant_bits = 0 then (Rm_value, ucast (get_bit cpsr C_bit))
         else if Rs_significant_bits < 32 then
           (asr h Rm_value Rs_significant_bits,
            ucast (get_bit Rm_value (Rs_significant_bits - 1)))
         else
           (if get_bit Rm_value 31 = 0 then 0 else 0xFFFFFFFF, ucast (get_bit Rm_value 31)))
      else
        (if Rs_significant_bits = 0 then (Rm_value, ucast (get_bit cpsr C_bit))
         else if get_bits Rs_value 4 0 = 0 then (Rm_value, ucast (get_bit Rm_value 31))
         else
           (ror h Rm_value (unat (get_bits Rs_value 4 0)),
            ucast (get_bit Rm_value (unat (get_bits Rs_value 4 0) - 1)))))"

section \<open>Handlers\<close>

definition arm_data_processing_immediate_shift :: "u32 \<Rightarrow> u32 \<Rightarrow> sim \<Rightarrow> (int \<times> sim) res" where
  "arm_data_processing_immediate_shift ins cpsr p =
     (let S = get_bit ins 20;
          shift_imm = unat (get_bits ins 11 7);
          shift_code = get_bits ins 6 5;
          Rm = unat (get_bits ins 3 0)
      in
      bindR (arm_read_register Rm p) (\<lambda>Rm_value.
      let (shifter_operand, shifter_carry_out) =
            get_shifter_operand_immediate_shift (sim_host p) shift_imm shift_code Rm_value cpsr
      in apply_operator ins shifter_operand shifter_carry_out S cpsr p))"

definition arm_data_processing_register_shift :: "u32 \<Rightarrow> u32 \<Rightarrow> sim \<Rightarrow> (int \<times> sim) res" where
  "arm_data_processing_register_shift ins cpsr p =
     (let S = get_bit ins 20;
          shift_code = get_bits ins 6 5;
          Rm = unat (get_bits ins 3 0)
      in
      bindR (arm_read_register Rm p) (\<lambda>Rm_value.
      let Rs = unat (get_bits ins 11 8) in
      bindR (arm_read_register Rs p) (\<lambda>Rs_value.
      let (shifter_operand, shifter_carry_out) =
            get_shifter_operand_register_shift (sim_host p) shift_code Rm_value Rs_value cpsr
      in apply_operator ins shifter_operand shifter_carry_out S cpsr p)))"

definition arm_data_processing_immediate :: "u32 \<Rightarrow> u32 \<Rightarrow> sim \<Rightarrow> (int \<times> sim) res" where
  "arm_data_processing_immediate ins cpsr p =
     (let S = get_bit ins 20;
          immed_8 = get_bits ins 7 0;
          rotate_imm = unat (get_bits ins 11 8);
          shifter_operand = ror (sim_host p) immed_8 (rotate_imm * 2);
          shifter_carry_out =
            (if rotate_imm = 0 then ucast (get_bit cpsr C_bit)
             else ucast (get_bit shifter_operand 31))
      in apply_operator ins shifter_operand shifter_carry_out S cpsr p)"

section \<open>The handlers keep the invariants of the core\<close>

lemma mode_of_flag_updates [simp]:
  "mode_of (set_zn v cpsr) = mode_of cpsr"
  "mode_of (carryFrom w cpsr) = mode_of cpsr"
  "mode_of (borrowFrom w cpsr) = mode_of cpsr"
  "mode_of (overflow_flag b cpsr) = mode_of cpsr"
  by (simp_all add: set_zn_def carryFrom_def borrowFrom_def overflow_flag_def Let_def)

lemma mode_of_overflowFrom [simp]: "mode_of (overflowFrom rn so opcode cpsr) = mode_of cpsr"
  unfolding overflowFrom_def Let_def by simp

lemma mode_of_update_flags [simp]:
  "mode_of (update_flags kind v rn so sc opcode cpsr) = mode_of cpsr"
  unfolding update_flags_def Let_def by simp

context core_invariant
begin

lemma apply_operator_outcome:
  "I p \<Longrightarrow> mode_of cpsr \<in> M \<Longrightarrow> outcome FR (\<lambda>(rc, p'). I p') (apply_operator ins so sc S cpsr p)"
  unfolding apply_operator_def Let_def
  by (auto intro!: outcome_intros I_write_cpsr split: prod.split)

lemma data_processing_outcome:
  assumes "I p" "mode_of cpsr \<in> M"
  shows "outcome FR (\<lambda>(rc, p'). I p') (arm_data_processing_immediate_shift ins cpsr p)"
    and "outcome FR (\<lambda>(rc, p'). I p') (arm_data_processing_register_shift ins cpsr p)"
    and "outcome FR (\<lambda>(rc, p'). I p') (arm_data_processing_immediate ins cpsr p)"
  using assms
  unfolding arm_data_processing_immediate_shift_def arm_data_processing_register_shift_def
    arm_data_processing_immediate_def Let_def
  by (auto intro!: outcome_intros apply_operator_outcome split: prod.split)

end

section \<open>Shifter operands against integer arithmetic\<close>

text \<open>
  Shifting and rotating by \<open>n \<ge> 1\<close> positions in arithmetic: the operand and the carry out.
\<close>

definition shift_reference :: "u32 \<Rightarrow> nat \<Rightarrow> u32 \<Rightarrow> u32 \<times> bool" where
  "shift_reference code n v =
     (if code = LSL then (word_of_int (uint v * 2 ^ n), bit (uint v * 2 ^ n) 32)
      else if code = LSR then (word_of_int (uint v div 2 ^ n), bit (uint v) (n - 1))
      else if code = ASR then (word_of_int (sint v div 2 ^ n), bit (sint v) (n - 1))
      else (word_rotr n v, bit (word_rotr n v) 31))"

definition operand_and_carry :: "u32 \<times> u8 \<Rightarrow> u32 \<times> bool" where
  "operand_and_carry = (\<lambda>(operand, carry). (operand, carry \<noteq> 0))"

lemma ucast_get_bit [simp]: "(ucast (get_bit x i :: u32) :: u8) = 0 \<longleftrightarrow> \<not> bit x i"
  by (simp add: get_bit_if)

lemma uint_bit: "bit (uint (v :: u32)) n \<longleftrightarrow> bit v n"
  by (auto simp: bit_uint_iff dest: bit_imp_le_length)

lemma sint_bit: "bit (sint (v :: u32)) n \<longleftrightarrow> bit v (min n 31)"
  by (cases "n \<le> 31") (auto simp: bit_sint_iff min_def dest: bit_imp_le_length)

lemma shift_in_arithmetic:
  "word_of_int (uint (v :: u32) * 2 ^ n) = (push_bit n v :: u32)"
  "word_of_int (uint (v :: u32) div 2 ^ n) = (drop_bit n v :: u32)"
  "word_of_int (sint (v :: u32) div 2 ^ n) = (signed_drop_bit n v :: u32)"
proof -
  show "word_of_int (uint v * 2 ^ n) = (push_bit n v :: u32)"
    "word_of_int (uint v div 2 ^ n) = (drop_bit n v :: u32)"
    unfolding push_bit_eq_mult [symmetric] drop_bit_eq_div [symmetric]
    by (rule bit_word_eqI; simp add: bit_word_of_int_iff bit_push_bit_iff bit_drop_bit_eq uint_bit)+
  have "word_of_int (sint v div 2 ^ n) = (word_of_int (sint (signed_drop_bit n v)) :: u32)"
    unfolding drop_bit_eq_div [symmetric] sint_signed_drop_bit_eq ..
  then show "word_of_int (sint v div 2 ^ n) = (signed_drop_bit n v :: u32)" by simp
qed

lemma carry_in_arithmetic: "bit (uint (v :: u32) * 2 ^ n) 32 \<longleftrightarrow> n \<le> 32 \<and> bit v (32 - n)"
  unfolding push_bit_eq_mult [symmetric] by (auto simp: bit_push_bit_iff uint_bit)

lemma rotr_carry:
  assumes "0 < n" "n < 32" shows "bit (word_rotr n (v :: u32)) 31 \<longleftrightarrow> bit v (n - 1)"
proof -
  have "(31 + n) mod 32 = n - 1" using assms by (simp add: mod_if)
  then show ?thesis by (simp add: bit_word_rotr_iff add.commute)
qed

lemma immediate_shift_reference:
  assumes "0 < n" "n < 32" "code < 4"
  shows "operand_and_carry (get_shifter_operand_immediate_shift h n code v cpsr)
    = shift_reference code n v"
  using assms
  unfolding shift_reference_def shift_in_arithmetic carry_in_arithmetic
  by (auto simp: get_shifter_operand_immediate_shift_def operand_and_carry_def
      asr_signed_shift ror_word_rotr rotr_carry uint_bit sint_bit min_def)

lemma shift_codes:
  assumes "(code :: u32) < 4"
  shows "code = LSL \<or> code = LSR \<or> code = ASR \<or> code = ROR"
proof -
  have "unat code < 4" using assms by (simp add: word_less_nat_alt)
  then have "unat code = 0 \<or> unat code = 1 \<or> unat code = 2 \<or> unat code = 3" by arith
  then show ?thesis by (auto simp: word_unat_eq_iff)
qed

lemma register_shift_reference:
  assumes "0 < unat (get_bits s 7 0)" "code < 4"
  shows "operand_and_carry (get_shifter_operand_register_shift h code v s cpsr)
    = shift_reference code (unat (get_bits s 7 0)) v"
proof -
  define n where "n = unat (get_bits s 7 0)"
  have n: "0 < n" using assms(1) by (simp add: n_def)
  have low: "unat (get_bits s 4 0) = n mod 32" "get_bits s 4 0 = 0 \<longleftrightarrow> n mod 32 = 0"
  proof -
    show "unat (get_bits s 4 0) = n mod 32"
      by (simp add: n_def unat_get_bits mod_mod_cancel)
    then show "get_bits s 4 0 = 0 \<longleftrightarrow> n mod 32 = 0" by (simp flip: unat_eq_0)
  qed
  have rot: "word_rotr n v = word_rotr (n mod 32) v"
    by (rule bit_word_eqI) (simp add: bit_word_rotr_iff mod_simps)
  have big: "32 \<le> n \<Longrightarrow> push_bit n v = 0" "32 \<le> n \<Longrightarrow> drop_bit n v = 0"
    "32 \<le> n \<Longrightarrow> signed_drop_bit n v = (if bit v 31 then 0xFFFFFFFF else 0)"
  proof -
    have ones: "(0xFFFFFFFF :: u32) = NOT 0" by simp
    show "32 \<le> n \<Longrightarrow> push_bit n v = 0" "32 \<le> n \<Longrightarrow> drop_bit n v = 0"
      "32 \<le> n \<Longrightarrow> signed_drop_bit n v = (if bit v 31 then 0xFFFFFFFF else 0)"
      unfolding ones
      by (rule bit_word_eqI; auto simp: bit_push_bit_iff bit_drop_bit_eq bit_signed_drop_bit_iff
          bit_not_iff dest: bit_imp_le_length)+
  qed
  have carry: "0 < n mod 32 \<Longrightarrow> bit (word_rotr (n mod 32) v) 31 = bit v (n mod 32 - 1)"
    by (rule rotr_carry) simp_all
  note code = shift_codes [OF assms(2)]
  have bound: "bit v (n - 1) \<Longrightarrow> n \<le> 32" using bit_imp_le_length [of v "n - 1"] by auto
  note defs = shift_reference_def shift_in_arithmetic carry_in_arithmetic
    get_shifter_operand_register_shift_def Let_def n_def [symmetric] operand_and_carry_def
    asr_signed_shift uint_bit sint_bit
  from code show ?thesis
  proof (elim disjE)
    assume c: "code = LSL"
    show ?thesis
      unfolding defs
      by (cases "n < 32"; cases "n = 32") (use n c big in simp_all)
  next
    assume c: "code = LSR"
    show ?thesis
      unfolding defs
      by (cases "n < 32"; cases "n = 32") (use n c big bound in auto)
  next
    assume c: "code = ASR"
    have m: "min (n - 1) 31 = (if n < 32 then n - 1 else 31)" by auto
    show ?thesis
      unfolding defs m
      by (cases "n < 32") (use n c big in \<open>simp_all add: asr_signed_shift\<close>)
  next
    assume c: "code = ROR"
    have "word_rotr 0 v = v" by (rule bit_word_eqI) (simp add: bit_word_rotr_iff)
    then show ?thesis
      by (cases "n mod 32 = 0") (use n c low rot carry in \<open>simp_all add: defs ror_word_rotr\<close>)
  qed
qed


text \<open>
  The architecture's second operand. An immediate amount of zero stands for a shift by 32, or for the
  rotation by one through the carry flag; an amount of zero in a register passes the value.
\<close>

definition immediate_reference :: "u32 \<Rightarrow> nat \<Rightarrow> u32 \<Rightarrow> bool \<Rightarrow> u32 \<times> bool" where
  "immediate_reference code n v c =
     (if n \<noteq> 0 then shift_reference code n v
      else if code = LSL then (v, c)
      else if code = ROR then (word_of_int (uint v div 2 + of_bool c * 2 ^ 31), bit (uint v) 0)
      else shift_reference code 32 v)"

definition register_reference :: "u32 \<Rightarrow> nat \<Rightarrow> u32 \<Rightarrow> bool \<Rightarrow> u32 \<times> bool" where
  "register_reference code n v c = (if n = 0 then (v, c) else shift_reference code n v)"

lemma signed_drop_bit_32: "signed_drop_bit 32 (v :: u32) = (if bit v 31 then 0xFFFFFFFF else 0)"
proof -
  have "(0xFFFFFFFF :: u32) = NOT 0" by simp
  then show ?thesis
    by (simp only:) (rule bit_word_eqI, auto simp: bit_signed_drop_bit_iff bit_not_iff)
qed

lemma rotate_extended:
  "word_of_int (uint (v :: u32) div 2 + of_bool b * 2 ^ 31) = push_bit 31 (of_bool b) OR drop_bit 1 v"
proof -
  have "drop_bit 1 v + push_bit 31 (of_bool b) = drop_bit 1 v OR push_bit 31 (of_bool b)"
    by (rule disjunctive_add) (auto simp: bit_simps dest: bit_imp_le_length)
  moreover have "word_of_int (uint v div 2) = drop_bit 1 v"
    using shift_in_arithmetic(2) [of v 1] by simp
  ultimately show ?thesis by (cases b) (simp_all add: push_bit_eq_mult or.commute)
qed

lemma immediate_shift_by_zero:
  assumes "code < 4"
  shows "operand_and_carry (get_shifter_operand_immediate_shift h 0 code v cpsr)
    = (if code = LSR then (v, bit cpsr N_bit)
       else if code = ROR then immediate_reference ROR 0 v (bit cpsr 0)
       else immediate_reference code 0 v (bit cpsr C_bit))"
proof -
  have "push_bit 31 cpsr = push_bit 31 (of_bool (bit cpsr 0))"
    by (rule bit_word_eqI) (auto simp: bit_simps)
  then show ?thesis
    using shift_codes [OF assms]
    unfolding immediate_reference_def shift_reference_def shift_in_arithmetic rotate_extended
    by (elim disjE) (simp_all add: get_shifter_operand_immediate_shift_def operand_and_carry_def sint_bit uint_bit signed_drop_bit_32)
qed

text \<open>C10: The second operand of a data-processing instruction, for all four kinds of shift, every amount,
  immediate or in a register, and every host, against the architecture stated with integers: operand and
  carry are the architecture's, with two exceptions, which the theorem gives: an immediate logical shift
  right by zero passes the register and the N flag instead of shifting by 32, and an immediate rotation
  by zero takes bit 0 of the status register, not its carry flag, as the new top bit.\<close>

theorem shifter_operands_reference:
  assumes "code < 4" "n < 32"
  shows "operand_and_carry (get_shifter_operand_immediate_shift h n code v cpsr) =
      (if n = 0 \<and> code = LSR then (v, bit cpsr N_bit)
       else if n = 0 \<and> code = ROR then immediate_reference ROR 0 v (bit cpsr 0)
       else immediate_reference code n v (bit cpsr C_bit))
    \<and> operand_and_carry (get_shifter_operand_register_shift h code v s cpsr)
        = register_reference code (unat (get_bits s 7 0)) v (bit cpsr C_bit)"
proof
  show "operand_and_carry (get_shifter_operand_immediate_shift h n code v cpsr) =
      (if n = 0 \<and> code = LSR then (v, bit cpsr N_bit)
       else if n = 0 \<and> code = ROR then immediate_reference ROR 0 v (bit cpsr 0)
       else immediate_reference code n v (bit cpsr C_bit))"
    using immediate_shift_by_zero [OF assms(1)] immediate_shift_reference [OF _ assms(2,1)]
    by (cases "n = 0") (simp_all add: immediate_reference_def)
  have "operand_and_carry (get_shifter_operand_register_shift h code v s cpsr) = (v, bit cpsr C_bit)"
    if "unat (get_bits s 7 0) = 0"
    using that shift_codes [OF assms(1)]
    by (elim disjE) (simp_all add: get_shifter_operand_register_shift_def operand_and_carry_def)
  then show "operand_and_carry (get_shifter_operand_register_shift h code v s cpsr)
        = register_reference code (unat (get_bits s 7 0)) v (bit cpsr C_bit)"
    using register_shift_reference [OF _ assms(1)]
    by (cases "unat (get_bits s 7 0) = 0") (simp_all add: register_reference_def)
qed

theorem shifter_operands_reference_witness:
  "operand_and_carry (get_shifter_operand_immediate_shift
      \<lparr>host_big_endian = False, host_masks_shifts = True\<rparr> 4 ASR 0x80000018 0) = (0xF8000001, True)"
proof -
  have "immediate_reference ASR 4 0x80000018 False = (0xF8000001, True)" by code_simp
  then show ?thesis
    using shifter_operands_reference [of ASR 4 "\<lparr>host_big_endian = False, host_masks_shifts = True\<rparr>"
        "0x80000018" 0 0] by simp
qed

section \<open>Results and flags\<close>

text \<open>
  The architecture's description of the sixteen operators: the arithmetic ones add two operands and
  a carry, complementing one of them for a subtraction.
\<close>

definition add_with_carry :: "u32 \<Rightarrow> u32 \<Rightarrow> bool \<Rightarrow> u32" where
  "add_with_carry x y c = word_of_int (uint x + uint y + of_bool c)"

definition operator_reference :: "nat \<Rightarrow> u32 \<Rightarrow> u32 \<Rightarrow> bool \<Rightarrow> u32" where
  "operator_reference opcode rn so c =
     [rn AND so, rn XOR so, add_with_carry rn (NOT so) True, add_with_carry (NOT rn) so True,
      add_with_carry rn so False, add_with_carry rn so c, add_with_carry rn (NOT so) c,
      add_with_carry (NOT rn) so c, rn AND so, rn XOR so, add_with_carry rn (NOT so) True,
      add_with_carry rn so False, rn OR so, so, rn AND NOT so, NOT so] ! opcode"

definition comparison :: "u32 \<Rightarrow> bool" where
  "comparison opcode \<longleftrightarrow> opcode \<in> {op_TST, op_TEQ, op_CMP, op_CMN}"

lemma add_with_carry_plus: "add_with_carry x y c = x + y + of_bool c"
  by (simp add: add_with_carry_def)

lemma opcode_cases:
  "\<exists>k < 16. get_bits ins 24 21 = of_nat k"
  using unat_get_bits_less [of 21 24 ins] by (intro exI [of _ "unat (get_bits ins 24 21)"]) simp

lemma operator_result_reference:
  assumes "k < 16"
  shows "fst (operator_result (of_nat k) rn so cpsr) = operator_reference k rn so (bit cpsr C_bit)"
proof -
  have n: "NOT x = - x - 1" for x :: u32 by (simp add: not_eq_complement)
  have "k \<in> {0,1,2,3,4,5,6,7,8,9,10,11,12,13,14,15}"
    using assms by (simp only: insert_iff empty_iff) arith
  then show ?thesis
    by (elim insertE emptyE) (simp_all add: operator_result_def operator_reference_def
        add_with_carry_plus n not_carry_def get_bit_if)
qed


definition flag_kind :: "u32 \<Rightarrow> nat" where
  "flag_kind opcode =
     (if opcode \<in> {op_ADD, op_ADC, op_CMN} then 0
      else if opcode \<in> {op_SUB, op_RSB, op_SBC, op_RSC, op_CMP} then 2 else 1)"

lemma operator_result_kind:
  assumes "operator_result opcode rn so cpsr = (res, upd, force, kind)"
  shows "upd \<longleftrightarrow> \<not> comparison opcode" "force \<longleftrightarrow> comparison opcode" "kind = flag_kind opcode"
  using assms by (auto simp: operator_result_def comparison_def flag_kind_def split: if_splits)

text \<open>The effect for every destination, PC included, where a result with the S flag takes the saved status.\<close>

lemma apply_operator_runs:
  assumes "wf_sim p" "cur_mode p \<noteq> FIQ"
    "arm_read_register (unat (get_bits ins 19 16)) p = Inr rn"
    "(if S \<noteq> 0 \<and> unat (get_bits ins 15 12) = PC \<and> registers_mode_has_spsr (cur_mode p)
        \<and> \<not> comparison (get_bits ins 24 21) then raw p SPSR (cur_mode p) else Inr cpsr) = Inr c"
  shows "\<exists>p'.
    let opcode = get_bits ins 24 21; Rd = unat (get_bits ins 15 12);
        res = operator_reference (unat opcode) rn so (bit cpsr C_bit) in
    apply_operator ins so carry S cpsr p = Inr (0, p') \<and> wf_sim p' \<and> mem p' = mem p
    \<and> cycle_count p' = cycle_count p \<and> stdout p' = stdout p \<and> stdin p' = stdin p
    \<and> (\<forall>j < 18. j \<noteq> CPSR \<longrightarrow> (\<forall>mode. raw p' j mode =
         (if j = Rd \<and> cell j mode = cell Rd (cur_mode p) \<and> \<not> comparison opcode then Inr res
          else raw p j mode)))
    \<and> arm_read_cpsr p' =
         (if S \<noteq> 0 \<or> comparison opcode
          then update_flags (flag_kind opcode) (ucast res) rn so carry opcode c
          else arm_read_cpsr p)"
proof -
  let ?Rd = "unat (get_bits ins 15 12)"
  let ?op = "get_bits ins 24 21"
  obtain res upd force kind where r: "operator_result ?op rn so cpsr = (res, upd, force, kind)"
    by (cases "operator_result ?op rn so cpsr") auto
  have k: "unat ?op < 16" using unat_get_bits_less [of 21 24 ins] by simp
  have res: "res = operator_reference (unat ?op) rn so (bit cpsr C_bit)"
    using operator_result_reference [OF k, of rn so cpsr] r by simp
  note kinds = operator_result_kind [OF r]
  have u: "ucast (ucast res :: u64) = res"
    by (rule bit_word_eqI) (simp add: bit_simps)
  show ?thesis
  proof (cases "comparison ?op")
    case True
    let ?p' = "arm_write_cpsr (update_flags kind (ucast res) rn so carry ?op cpsr) p"
    have "apply_operator ins so carry S cpsr p = Inr (0, ?p')"
      using assms(3) kinds True by (simp add: apply_operator_def r Let_def)
    moreover have "c = cpsr" using assms(4) True by simp
    ultimately show ?thesis
      using True assms(1) wf_sim_write_cpsr [OF assms(1)] unfolding Let_def res [symmetric]
        kinds(3) [symmetric] by (intro exI [of _ ?p']) simp
  next
    case False
    obtain p1 where w: "arm_write_register ?Rd res p = Inr p1" "writes p ?Rd res p1"
      using arm_write_register_writes [OF assms(1), of ?Rd res] assms(2) by auto
    note d = writesD [OF w(2)]
    let ?p' = "if S \<noteq> 0 then arm_write_cpsr (update_flags kind (ucast res) rn so carry ?op c) p1 else p1"
    have "apply_operator ins so carry S cpsr p = Inr (0, ?p')"
      using assms(3,4) w(1) kinds False
      by (auto simp: apply_operator_def r u Let_def arm_current_mode_has_spsr_cur arm_read_spsr_raw
          split: if_splits)
    then show ?thesis
      using False d w(2) wf_sim_write_cpsr [OF d(1)] unfolding Let_def res [symmetric]
        kinds(3) [symmetric] by (intro exI [of _ ?p']) (auto simp: d)
  qed
qed

lemma sint_split: "sint (x :: u32) = uint x - 2 ^ 32 * of_bool (bit x 31)"
proof -
  have "take_bit 32 (uint x) = uint x"
    using uint_lt2p [of x] by (intro take_bit_int_eq_self) simp_all
  then show ?thesis
    by (simp add: sint_uint signed_take_bit_eq_take_bit_minus uint_bit)
qed

lemma sign_bit: "bit (x :: u32) 31 \<longleftrightarrow> 2 ^ 31 \<le> uint x"
  using sint_split [of x] sint_greater_eq [of x] sint_lt [of x] by (cases "bit x 31") auto

lemma add_overflow:
  "bit a 31 = bit b 31 \<and> bit (a + b) 31 \<noteq> bit a 31 \<longleftrightarrow> sint (a + b) \<noteq> sint a + sint (b :: u32)"
proof -
  define x y where "x = uint a" and "y = uint b"
  have b: "0 \<le> x" "x < 2 ^ 32" "0 \<le> y" "y < 2 ^ 32"
    using uint_lt2p [of a] uint_lt2p [of b] by (simp_all add: x_def y_def)
  have "uint (a + b) = (if x + y < 2 ^ 32 then x + y else x + y - 2 ^ 32)"
    by (simp add: uint_plus_if' x_def y_def)
  then show ?thesis
    unfolding sint_split sign_bit x_def [symmetric] y_def [symmetric]
    using b by (cases "2 ^ 31 \<le> x"; cases "2 ^ 31 \<le> y"; cases "x + y < 2 ^ 32") auto
qed

lemma sub_overflow:
  "bit a 31 \<noteq> bit b 31 \<and> bit (a - b) 31 \<noteq> bit a 31 \<longleftrightarrow> sint (a - b) \<noteq> sint a - sint (b :: u32)"
proof -
  define x y where "x = uint a" and "y = uint b"
  have b: "0 \<le> x" "x < 2 ^ 32" "0 \<le> y" "y < 2 ^ 32"
    using uint_lt2p [of a] uint_lt2p [of b] by (simp_all add: x_def y_def)
  have "uint (a - b) = (if y \<le> x then x - y else x - y + 2 ^ 32)"
    by (simp add: uint_sub_if' x_def y_def)
  then show ?thesis
    unfolding sint_split sign_bit x_def [symmetric] y_def [symmetric]
    using b by (cases "2 ^ 31 \<le> x"; cases "2 ^ 31 \<le> y"; cases "y \<le> x") auto
qed

lemma bit_set_zn:
  "bit (set_zn v cpsr) n \<longleftrightarrow> (if n = 31 then bit v 31 else if n = 30 then v = 0 else bit cpsr n)"
  by (auto simp: set_zn_def Let_def bit_set_bit_c bit_clr_bit)

lemma bit_carryFrom:
  "bit (carryFrom w cpsr) n \<longleftrightarrow> (if n = 29 then w \<ge> 0x100000000 else bit cpsr n)"
  by (auto simp: carryFrom_def bit_set_bit_c bit_clr_bit)

lemma bit_borrowFrom: "bit (borrowFrom w cpsr) n \<longleftrightarrow> (if n = 29 then bit w 31 else bit cpsr n)"
  by (auto simp: borrowFrom_def bit_set_bit_c bit_clr_bit)

lemma bit_overflow_flag: "bit (overflow_flag b cpsr) n \<longleftrightarrow> (if n = 28 then b else bit cpsr n)"
  by (auto simp: overflow_flag_def bit_set_bit_c bit_clr_bit)

lemma get_bit_eq_iff: "get_bit x i = get_bit y j \<longleftrightarrow> bit x i = bit y j"
  by (simp add: get_bit_if)

lemma widened:
  "ucast (ucast (w :: u32) :: u64) = w" "\<not> (0x100000000 :: u64) \<le> ucast w"
  "bit (ucast w :: u64) 31 \<longleftrightarrow> bit w 31"
proof -
  show "ucast (ucast w :: u64) = w" by (rule bit_word_eqI) (simp add: bit_simps)
  have "uint (ucast w :: u64) = uint w" 
    using uint_lt2p [of w] by (simp add: unsigned_ucast_eq take_bit_int_eq_self)
  then show "\<not> (0x100000000 :: u64) \<le> ucast w"
    using uint_lt2p [of w] by (simp add: word_le_def)
  show "bit (ucast w :: u64) 31 \<longleftrightarrow> bit w 31" by (simp add: bit_simps)
qed


text \<open>C25: The flags of additions and subtractions. N and Z describe the result, and for ADD, CMN, SUB and
  CMP the V flag tells a signed overflow. The carry flag does not follow the architecture: an addition
  always clears it, since the sum has been reduced to 32 bits before it is compared with 2^32, and a
  subtraction copies the sign of the result into it. No other bit of the status register changes.\<close>

theorem arithmetic_flags:
  assumes "n < 32"
  shows "(opcode \<in> {op_ADD, op_CMN} \<longrightarrow>
      bit (update_flags 0 (ucast (rn + so)) rn so carry opcode cpsr) n =
        (if n = N_bit then sint (rn + so) < 0 else if n = Z_bit then rn + so = 0
         else if n = C_bit then False else if n = V_bit then sint (rn + so) \<noteq> sint rn + sint so
         else bit cpsr n))
    \<and> (opcode \<in> {op_SUB, op_CMP} \<longrightarrow>
      bit (update_flags 2 (ucast (rn - so)) rn so carry opcode cpsr) n =
        (if n = N_bit then sint (rn - so) < 0 else if n = Z_bit then rn - so = 0
         else if n = C_bit then sint (rn - so) < 0
         else if n = V_bit then sint (rn - so) \<noteq> sint rn - sint so else bit cpsr n))"
proof -
  have neg: "sint w < 0 \<longleftrightarrow> bit w 31" for w :: u32
    using bit_last_iff [of w] by simp
  have add: "overflowFrom rn so opcode c = overflow_flag (sint (rn + so) \<noteq> sint rn + sint so) c"
    if "opcode \<in> {op_ADD, op_CMN}" for c
    using that by (auto simp: overflowFrom_def Let_def get_bit_eq_iff simp flip: add_overflow)
  have sub: "overflowFrom rn so opcode c = overflow_flag (sint (rn - so) \<noteq> sint rn - sint so) c"
    if "opcode \<in> {op_SUB, op_CMP}" for c
  proof -
    have "ucast (get_bit (ucast (rn - so) :: u64) 31) = (get_bit (rn - so) 31 :: u32)"
      by (simp add: get_bit_if widened(3))
    with that show ?thesis
      by (auto simp: overflowFrom_def Let_def get_bit_eq_iff simp flip: sub_overflow)
  qed
  show ?thesis
    using add sub
    by (auto simp: update_flags_def Let_def bit_overflow_flag bit_carryFrom bit_borrowFrom bit_set_zn
        widened neg)
qed

theorem arithmetic_flags_witness:
  "\<not> bit (update_flags 0 (ucast (0xFFFFFFFF + 1 :: u32)) 0xFFFFFFFF 1 0 op_ADD 0) C_bit
    \<and> bit (update_flags 2 (ucast (1 - 2 :: u32)) 1 2 0 op_SUB 0) C_bit"
  using arithmetic_flags [of C_bit op_ADD "0xFFFFFFFF" 1 0 0] arithmetic_flags [of C_bit op_SUB 1 2 0 0]
  by simp

text \<open>The flags of the logical operators and of moves: N and Z describe the result, C is the carry
  out of the shifter, and no other bit of the status register changes, V included.\<close>

theorem logical_flags:
  "bit (update_flags 1 (ucast res) rn so carry opcode cpsr) n =
     (if n = N_bit then sint (res :: u32) < 0 else if n = Z_bit then res = 0
      else if n = C_bit then bit carry 0 else bit cpsr n)"
proof -
  have neg: "sint w < 0 \<longleftrightarrow> bit w 31" for w :: u32
    using bit_last_iff [of w] by simp
  show ?thesis
    by (auto simp: update_flags_def Let_def bit_set_zn bit_set_bit_c bit_clr_bit widened neg)
qed

text \<open>
  The status after an instruction that sets the flags, bit by bit: \<open>c\<close> is the status the flags are put
  into, \<open>carry\<close> the carry out of the shifter. N and Z are the architecture's. Additions always clear C and
  subtractions copy the sign of the result into it. V is the architecture's for ADD, CMN, SUB and CMP;
  ADC leaves the carry out of account, SBC and RSC use the flag C just computed and RSC the operands in
  the wrong order, and RSB leaves V alone.
\<close>

definition status_after :: "u32 \<Rightarrow> u32 \<Rightarrow> u32 \<Rightarrow> u32 \<Rightarrow> bool \<Rightarrow> u32 \<Rightarrow> nat \<Rightarrow> bool" where
  "status_after opcode rn so res carry c n =
     (if n = N_bit then sint res < 0
      else if n = Z_bit then res = 0
      else if n = C_bit then
        (if opcode \<in> {op_ADD, op_ADC, op_CMN} then False
         else if opcode \<in> {op_SUB, op_RSB, op_SBC, op_RSC, op_CMP} then sint res < 0
         else carry)
      else if n = V_bit then
        (if opcode \<in> {op_ADD, op_ADC, op_CMN} then sint (rn + so) \<noteq> sint rn + sint so
         else if opcode \<in> {op_SUB, op_CMP} then sint (rn - so) \<noteq> sint rn - sint so
         else if opcode \<in> {op_SBC, op_RSC} then
           (sint rn < 0) \<noteq> (sint so < 0) \<and> (sint (rn - so + of_bool (0 \<le> sint res)) < 0) \<noteq> (sint rn < 0)
         else bit c V_bit)
      else bit c n)"

lemma negative_bit: "sint w < 0 \<longleftrightarrow> bit (w :: u32) 31"
  using bit_last_iff [of w] by simp

lemma bit_overflowFrom:
  "bit (overflowFrom rn so opcode c) n =
     (if n = V_bit then
        (if opcode \<in> {op_ADD, op_ADC, op_CMN} then sint (rn + so) \<noteq> sint rn + sint so
         else if opcode \<in> {op_SUB, op_CMP} then sint (rn - so) \<noteq> sint rn - sint so
         else if opcode \<in> {op_SBC, op_RSC} then
           bit rn 31 \<noteq> bit so 31 \<and> bit (rn - so + of_bool (\<not> bit c C_bit)) 31 \<noteq> bit rn 31
         else bit c V_bit)
      else bit c n)"
proof -
  have sum: "bit (1 + ucast (w :: u32) :: u64) 31 \<longleftrightarrow> bit (w + 1) 31" for w
  proof -
    have "ucast (1 + ucast w :: u64) = w + 1"
      by (rule word_uint_eqI)
        (simp add: unsigned_ucast_eq uint_word_ariths take_bit_eq_mod mod_mod_cancel mod_simps add.commute)
    moreover have "bit (ucast (x :: u64) :: u32) 31 \<longleftrightarrow> bit x 31" for x by (simp add: bit_simps)
    ultimately show ?thesis by metis
  qed
  show ?thesis
    by (auto simp: overflowFrom_def Let_def bit_overflow_flag get_bit_eq_iff sum widened(3) get_bit_if
        simp flip: add_overflow sub_overflow)
qed


lemma update_flags_status:
  "bit (update_flags (flag_kind opcode) (ucast res) rn so carry opcode c) n =
    status_after opcode rn so res (bit carry 0) c n"
proof -
  have nonneg: "0 \<le> sint w \<longleftrightarrow> \<not> bit (w :: u32) 31" for w using negative_bit [of w] by linarith
  consider (add) "opcode \<in> {op_ADD, op_ADC, op_CMN}"
    | (sub) "opcode \<in> {op_SUB, op_RSB, op_SBC, op_RSC, op_CMP}"
    | (logical) "opcode \<notin> {op_ADD, op_ADC, op_CMN, op_SUB, op_RSB, op_SBC, op_RSC, op_CMP}" by blast
  then show ?thesis
  proof cases
    case add
    then show ?thesis
      by (elim insertE emptyE; simp add: update_flags_def Let_def flag_kind_def status_after_def
          bit_overflowFrom bit_carryFrom bit_set_zn widened negative_bit)
  next
    case sub
    then show ?thesis
      by (elim insertE emptyE; simp add: update_flags_def Let_def flag_kind_def status_after_def
          bit_overflowFrom bit_borrowFrom bit_set_zn widened negative_bit nonneg)
  next
    case logical
    then show ?thesis
      by (simp add: update_flags_def Let_def flag_kind_def status_after_def bit_set_zn bit_set_bit_c
          bit_clr_bit widened negative_bit)
  qed
qed

text \<open>C24: A data-processing instruction, for all sixteen operators and every destination, PC included. The
  result is the one of the architecture's description. A comparison writes no register; every other
  operator writes the cell of its destination and no other register of any mode, saved status registers
  included. The status register changes for a comparison or with the S flag only, and then in the flags
  only, as \<open>status_after\<close> says; what the flags are put into is the status of the instruction, or, when
  the destination is PC in a mode that has one, the saved status register. Memory, input, output and
  the cycle counter are left alone.\<close>

theorem apply_operator_effect:
  assumes "wf_sim p" "cur_mode p \<noteq> FIQ"
    "arm_read_register (unat (get_bits ins 19 16)) p = Inr rn"
    "if S \<noteq> 0 \<and> unat (get_bits ins 15 12) = PC \<and> registers_mode_has_spsr (cur_mode p)
        \<and> \<not> comparison (get_bits ins 24 21) then raw p SPSR (cur_mode p) = Inr c else c = cpsr"
  shows "\<exists>p'.
    let opcode = get_bits ins 24 21; Rd = unat (get_bits ins 15 12);
        res = operator_reference (unat opcode) rn so (bit cpsr C_bit) in
    apply_operator ins so carry S cpsr p = Inr (0, p') \<and> wf_sim p' \<and> mem p' = mem p
    \<and> cycle_count p' = cycle_count p \<and> stdout p' = stdout p \<and> stdin p' = stdin p
    \<and> (\<forall>j < 18. j \<noteq> CPSR \<longrightarrow> (\<forall>mode. raw p' j mode =
         (if j = Rd \<and> cell j mode = cell Rd (cur_mode p) \<and> \<not> comparison opcode then Inr res
          else raw p j mode)))
    \<and> (if S = 0 \<and> \<not> comparison opcode then arm_read_cpsr p' = arm_read_cpsr p
       else \<forall>n. bit (arm_read_cpsr p') n = status_after opcode rn so res (bit carry 0) c n)"
proof -
  have "(if S \<noteq> 0 \<and> unat (get_bits ins 15 12) = PC \<and> registers_mode_has_spsr (cur_mode p)
        \<and> \<not> comparison (get_bits ins 24 21) then raw p SPSR (cur_mode p) else Inr cpsr) = Inr c"
    using assms(4) by (simp split: if_splits)
  from apply_operator_runs [OF assms(1-3) this, of so carry] show ?thesis
    unfolding Let_def
    apply (elim exE conjE)
    subgoal for p' by (intro exI [of _ p']) (auto simp: update_flags_status)
    done
qed

theorem apply_operator_effect_witness:
  "\<exists>p'. apply_operator 0xE25EF004 4 0 1 0x153 (demo_sim []) = Inr (0, p')
    \<and> raw p' PC SVC = Inr (- 4) \<and> bit (arm_read_cpsr p') N_bit \<and> raw p' SPSR SVC = Inr 0 \<and> \<not> bit (arm_read_cpsr p') 4"
proof -
  have f: "unat (get_bits 0xE25EF004 15 12) = 15" "unat (get_bits 0xE25EF004 19 16) = 14"
    "unat (get_bits 0xE25EF004 24 21) = 2" "get_bits 0xE25EF004 24 21 = 2" "\<not> comparison 2" 
    "operator_reference 2 0 4 False = - 4" by code_simp+
  have r: "raw (demo_sim []) i SVC = Inr 0" if i: "i \<in> {LR, SPSR, PC}" for i
  proof -
    have "\<not> get_read_write_mode SVC < 2" by code_simp
    then obtain k where "cell i SVC = Inr k" using cell_low [of i SVC] i by (auto simp: cell_def)
    then show ?thesis using i by (intro raw_demo_sim) auto
  qed
  have "arm_read_register LR (demo_sim []) = Inr 0"
    using r by (simp add: arm_read_register_raw demo_sim_simps)
  moreover have "registers_mode_has_spsr SVC" by code_simp
  ultimately show ?thesis
    using apply_operator_effect [of "demo_sim []" "0xE25EF004" 0 1 0 "0x153" 4 0] f r wf_demo_sim [of "[]"]
    by (auto simp: demo_sim_simps Let_def status_after_def)
qed

end
