(* ===== verification/Load_Store.thy ===== *)
theory Load_Store
  imports Arm_Exception
begin

text \<open>
  The load and store instructions of \<^verbatim>\<open>arm_load_store.c\<close>: single words and bytes with immediate
  or register offset, the miscellaneous halves, signed bytes and doubles, and the block transfers.
  A function that updates the address through a pointer gives the new address with its result. The
  return code is 0, the -1 of a refused memory access, or an ARM exception.
\<close>

section \<open>Words and bytes\<close>

definition u_bit_handle :: "u32 \<Rightarrow> u32 \<Rightarrow> u32 \<Rightarrow> u32" where
  "u_bit_handle u addr offset = (if u \<noteq> 0 then addr + offset else addr - offset)"

definition b_bit_handle :: "u32 \<Rightarrow> u32 \<Rightarrow> u32 \<Rightarrow> nat \<Rightarrow> sim \<Rightarrow> (int \<times> sim) res" where
  "b_bit_handle l b addr rd p =
     (if l \<noteq> 0 then
        (if b \<noteq> 0 then
           bindR (arm_read_byte addr p) (\<lambda>r.
           case r of
             None \<Rightarrow> Inr (-1, p)
           | Some value_byte \<Rightarrow>
               bindR (arm_write_register rd (ucast value_byte) p) (\<lambda>p. Inr (0, p)))
         else
           bindR (arm_read_word addr p) (\<lambda>r.
           case r of
             None \<Rightarrow> Inr (-1, p)
           | Some value_word \<Rightarrow>
               bindR (arm_write_register rd value_word p) (\<lambda>p. Inr (0, p))))
      else
        (if b = 1 then
           bindR (arm_read_register rd p) (\<lambda>v. arm_write_byte addr (ucast v) p)
         else
           bindR (arm_read_register rd p) (\<lambda>v. arm_write_word addr v p)))"

definition arm_load_immediate_offset ::
    "u32 \<Rightarrow> u32 \<Rightarrow> u32 \<Rightarrow> nat \<Rightarrow> u32 \<Rightarrow> u32 \<Rightarrow> sim \<Rightarrow> (int \<times> u32 \<times> sim) res" where
  "arm_load_immediate_offset l u b rd addr offset p =
     (let addr = u_bit_handle u addr offset in
      bindR (b_bit_handle l b addr rd p) (\<lambda>(err, p). Inr (err, addr, p)))"

definition arm_load_immediate_preindexing ::
    "u32 \<Rightarrow> u32 \<Rightarrow> u32 \<Rightarrow> nat \<Rightarrow> nat \<Rightarrow> u32 \<Rightarrow> u32 \<Rightarrow> sim \<Rightarrow> (int \<times> sim) res" where
  "arm_load_immediate_preindexing l u b rn rd addr offset p =
     bindR (arm_load_immediate_offset l u b rd addr offset p) (\<lambda>(err, addr, p).
     if err \<noteq> 0 then Inr (err, p)
     else bindR (arm_write_register rn addr p) (\<lambda>p. Inr (0, p)))"

definition arm_load_immediate_postindexing ::
    "u32 \<Rightarrow> u32 \<Rightarrow> u32 \<Rightarrow> nat \<Rightarrow> nat \<Rightarrow> u32 \<Rightarrow> u32 \<Rightarrow> sim \<Rightarrow> (int \<times> sim) res" where
  "arm_load_immediate_postindexing l u b rn rd addr offset p =
     bindR (b_bit_handle l b addr rd p) (\<lambda>(err, p).
     if err = 0 then
       bindR (arm_write_register rn (u_bit_handle u addr offset) p) (\<lambda>p. Inr (err, p))
     else Inr (err, p))"

definition arm_store_immediate_offset ::
    "u32 \<Rightarrow> u32 \<Rightarrow> u32 \<Rightarrow> nat \<Rightarrow> u32 \<Rightarrow> u32 \<Rightarrow> sim \<Rightarrow> (int \<times> u32 \<times> sim) res" where
  "arm_store_immediate_offset l u b rd addr offset p =
     (let addr = u_bit_handle u addr offset in
      bindR (b_bit_handle l b addr rd p) (\<lambda>(err, p). Inr (err, addr, p)))"

definition arm_store_immediate_preindexing ::
    "u32 \<Rightarrow> u32 \<Rightarrow> u32 \<Rightarrow> nat \<Rightarrow> nat \<Rightarrow> u32 \<Rightarrow> u32 \<Rightarrow> sim \<Rightarrow> (int \<times> sim) res" where
  "arm_store_immediate_preindexing l u b rn rd addr offset p =
     bindR (arm_store_immediate_offset l u b rd addr offset p) (\<lambda>(err, addr, p).
     if err \<noteq> 0 then Inr (err, p)
     else bindR (arm_write_register rn addr p) (\<lambda>p. Inr (err, p)))"

definition arm_store_immediate_postindexing ::
    "u32 \<Rightarrow> u32 \<Rightarrow> u32 \<Rightarrow> nat \<Rightarrow> nat \<Rightarrow> u32 \<Rightarrow> u32 \<Rightarrow> sim \<Rightarrow> (int \<times> sim) res" where
  "arm_store_immediate_postindexing l u b rn rd addr offset p =
     bindR (b_bit_handle l b addr rd p) (\<lambda>(err, p).
     if err \<noteq> 0 then Inr (err, p)
     else bindR (arm_write_register rn (u_bit_handle u addr offset) p) (\<lambda>p. Inr (err, p)))"

definition arm_load_store_immediate_offset :: "u32 \<Rightarrow> sim \<Rightarrow> (int \<times> sim) res" where
  "arm_load_store_immediate_offset ins p =
     (let p_bit = get_bit ins 24; u_bit = get_bit ins 23; b_bit = get_bit ins 22;
          w_bit = get_bit ins 21; l_bit = get_bit ins 20;
          register_n = unat (get_bits ins 19 16);
          register_d = unat (get_bits ins 15 12);
          offset = get_bits ins 11 0
      in
      bindR (arm_read_register register_n p) (\<lambda>address_base.
      if l_bit = 1 then
        (if p_bit = 1 then
           (if w_bit = 1 then
              arm_load_immediate_preindexing l_bit u_bit b_bit register_n register_d
                address_base offset p
            else
              bindR (arm_load_immediate_offset l_bit u_bit b_bit register_d address_base offset p)
                (\<lambda>(err, _, p). Inr (err, p)))
         else
           (if w_bit = 1 then Inr (int UNDEFINED_INSTRUCTION, p)
            else
              arm_load_immediate_postindexing l_bit u_bit b_bit register_n register_d
                address_base offset p))
      else
        (if p_bit = 1 then
           (if w_bit = 1 then
              arm_store_immediate_preindexing l_bit u_bit b_bit register_n register_d
                address_base offset p
            else
              bindR (arm_store_immediate_offset l_bit u_bit b_bit register_d address_base offset p)
                (\<lambda>(err, _, p). Inr (err, p)))
         else
           (if w_bit = 1 then Inr (int UNDEFINED_INSTRUCTION, p)
            else
              arm_store_immediate_postindexing l_bit u_bit b_bit register_n register_d
                address_base offset p))))"

text \<open>
  The scaling switch of the register offset. The zero shift of \<^verbatim>\<open>ROR\<close> combines the carry with half
  the \<^emph>\<open>number\<close> of the register.
\<close>

definition scale_offset :: "host \<Rightarrow> u32 \<Rightarrow> nat \<Rightarrow> u32 \<Rightarrow> u32 \<Rightarrow> u32 \<Rightarrow> u32" where
  "scale_offset h shift shift_imm offset register_m cpsr =
     (if shift = LSL then push_bit shift_imm offset
      else if shift = LSR then
        (if shift_imm = 0 then 0 else drop_bit shift_imm offset)
      else if shift = ASR then
        (if shift_imm = 0 then (if get_bit offset 31 = 1 then 0xFFFFFFFF else 0)
         else signed_drop_bit shift_imm offset)
      else
        (if shift_imm = 0 then push_bit 31 (get_bit cpsr C_bit) OR drop_bit 1 register_m
         else ror h offset shift_imm))"

definition arm_load_store_register_offset :: "u32 \<Rightarrow> sim \<Rightarrow> (int \<times> sim) res" where
  "arm_load_store_register_offset ins p =
     (let p_bit = get_bit ins 24; u_bit = get_bit ins 23; b_bit = get_bit ins 22;
          w_bit = get_bit ins 21; l_bit = get_bit ins 20;
          lpw_bits = (push_bit 2 l_bit OR push_bit 1 p_bit) OR w_bit;
          register_n = unat (get_bits ins 19 16);
          register_d = unat (get_bits ins 15 12);
          shift_imm = get_bits ins 11 7;
          shift = get_bits ins 6 5;
          register_m = get_bits ins 3 0
      in
      bindR (arm_read_register (unat register_m) p) (\<lambda>offset.
      bindR (arm_read_register register_n p) (\<lambda>address_base.
      let scaled = shift_imm OR shift;
          offset = (if scaled \<noteq> 0
                    then scale_offset (sim_host p) shift (unat shift_imm) offset register_m
                           (arm_read_cpsr p)
                    else offset)
      in
      if lpw_bits = 0 then
        arm_store_immediate_postindexing l_bit u_bit b_bit register_n register_d address_base offset p
      else if lpw_bits = 1 then Inr (int UNDEFINED_INSTRUCTION, p)
      else if lpw_bits = 2 then
        bindR (arm_store_immediate_offset l_bit u_bit b_bit register_d address_base offset p)
          (\<lambda>(err, _, p). Inr (err, p))
      else if lpw_bits = 3 then
        arm_store_immediate_preindexing l_bit u_bit b_bit register_n register_d address_base offset p
      else if lpw_bits = 4 then
        arm_load_immediate_postindexing l_bit u_bit b_bit register_n register_d address_base offset p
      else if lpw_bits = 5 then Inr (int UNDEFINED_INSTRUCTION, p)
      else if lpw_bits = 6 then
        bindR (arm_load_immediate_offset l_bit u_bit b_bit register_d address_base offset p)
          (\<lambda>(err, _, p). Inr (err, p))
      else
        arm_load_immediate_preindexing l_bit u_bit b_bit register_n register_d address_base offset p)))"

section \<open>Halves, signed bytes and doubles\<close>

text \<open>
  The addressing part of \<^verbatim>\<open>arm_load_store_miscellaneous\<close>: the address with the state after the
  base register was updated, or \<open>None\<close> for the combination the code refuses.
\<close>

definition miscellaneous_address ::
    "bool \<Rightarrow> bool \<Rightarrow> bool \<Rightarrow> bool \<Rightarrow> nat \<Rightarrow> u32 \<Rightarrow> u32 \<Rightarrow> sim \<Rightarrow> (u32 \<times> sim) option res" where
  "miscellaneous_address p_bit b_bits w_bit u_bit rn op1 op0 p =
     (let imm = push_bit 4 op1 OR op0 in
      if p_bit \<and> b_bits \<and> \<not> w_bit then
        bindR (arm_read_register rn p) (\<lambda>n.
        Inr (Some (if u_bit then n + imm else n - imm, p)))
      else if p_bit \<and> \<not> b_bits \<and> \<not> w_bit then
        bindR (arm_read_register rn p) (\<lambda>n.
        bindR (arm_read_register (unat op0) p) (\<lambda>m.
        Inr (Some (if u_bit then n + m else n - m, p))))
      else if p_bit \<and> b_bits \<and> w_bit then
        bindR (arm_read_register rn p) (\<lambda>n.
        let address = (if u_bit then n + imm else n - imm) in
        bindR (arm_write_register rn address p) (\<lambda>p.
        Inr (Some (address, p))))
      else if p_bit \<and> \<not> b_bits \<and> w_bit then
        bindR (arm_read_register rn p) (\<lambda>n.
        bindR (arm_read_register (unat op0) p) (\<lambda>m.
        let address = (if u_bit then n + m else n - m) in
        bindR (arm_write_register rn address p) (\<lambda>p.
        Inr (Some (address, p)))))
      else if \<not> p_bit \<and> b_bits \<and> \<not> w_bit then
        bindR (arm_read_register rn p) (\<lambda>address.
        bindR (arm_read_register rn p) (\<lambda>n.
        bindR (arm_write_register rn (if u_bit then n + imm else n - imm) p) (\<lambda>p.
        Inr (Some (address, p)))))
      else if \<not> p_bit \<and> \<not> b_bits \<and> \<not> w_bit then
        bindR (arm_read_register rn p) (\<lambda>address.
        bindR (arm_read_register rn p) (\<lambda>n.
        bindR (arm_read_register (unat op0) p) (\<lambda>m.
        bindR (arm_write_register rn (if u_bit then n + m else n - m) p) (\<lambda>p.
        Inr (Some (address, p))))))
      else Inr None)"

definition double_ok :: "nat \<Rightarrow> u32 \<Rightarrow> bool" where
  "double_ok rd address \<longleftrightarrow>
     rd mod 2 = 0 \<and> rd \<noteq> 14 \<and> get_bits address 1 0 = 0 \<and> get_bit address 2 = 0"

definition load_double :: "nat \<Rightarrow> u32 \<Rightarrow> sim \<Rightarrow> (int \<times> sim) res" where
  "load_double rd address p =
     bindR (arm_read_word address p) (\<lambda>r.
     let value_word = (case r of Some v \<Rightarrow> v | None \<Rightarrow> 0) in
     bindR (arm_write_register rd value_word p) (\<lambda>p.
     if r = None then Inr (-1, p)
     else
       bindR (arm_read_word (address + 4) p) (\<lambda>r.
       let value_word = (case r of Some v \<Rightarrow> v | None \<Rightarrow> value_word) in
       bindR (arm_write_register (rd + 1) value_word p) (\<lambda>p.
       Inr (if r = None then -1 else 0, p)))))"

definition store_double :: "nat \<Rightarrow> u32 \<Rightarrow> sim \<Rightarrow> (int \<times> sim) res" where
  "store_double rd address p =
     bindR (arm_read_register rd p) (\<lambda>v.
     bindR (arm_write_word address v p) (\<lambda>(err, p).
     if err \<noteq> 0 then Inr (err, p)
     else
       bindR (arm_read_register (rd + 1) p) (\<lambda>v.
       arm_write_word (address + 4) v p)))"

definition arm_load_store_miscellaneous :: "u32 \<Rightarrow> sim \<Rightarrow> (int \<times> sim) res" where
  "arm_load_store_miscellaneous ins p =
     (let p_bit = (get_bit ins 24 \<noteq> 0); u_bit = (get_bit ins 23 \<noteq> 0);
          w_bit = (get_bit ins 21 \<noteq> 0); b_bits = (get_bit ins 22 \<noteq> 0);
          lsh_bits = (push_bit 2 (get_bit ins 20) OR push_bit 1 (get_bit ins 6)) OR get_bit ins 5;
          rn = unat (get_bits ins 19 16);
          rd = unat (get_bits ins 15 12);
          op1 = get_bits ins 11 8;
          op0 = get_bits ins 3 0
      in
      bindR (miscellaneous_address p_bit b_bits w_bit u_bit rn op1 op0 p) (\<lambda>r.
      case r of
        None \<Rightarrow> Inr (int UNDEFINED_INSTRUCTION, p)
      | Some (address, p) \<Rightarrow>
          if lsh_bits = 1 then
            bindR (arm_read_register rd p) (\<lambda>v. arm_write_half address (ucast v) p)
          else if lsh_bits = 2 then
            (if double_ok rd address then load_double rd address p
             else Inr (int UNDEFINED_INSTRUCTION, p))
          else if lsh_bits = 3 then
            (if double_ok rd address then store_double rd address p
             else Inr (int UNDEFINED_INSTRUCTION, p))
          else if lsh_bits = 5 then
            bindR (arm_read_half address p) (\<lambda>r.
            let value_half = (case r of Some v \<Rightarrow> v | None \<Rightarrow> 0) in
            bindR (arm_write_register rd (ucast value_half) p) (\<lambda>p.
            Inr (if r = None then -1 else 0, p)))
          else if lsh_bits = 6 then
            bindR (arm_read_byte address p) (\<lambda>r.
            let value_byte = (case r of Some v \<Rightarrow> v | None \<Rightarrow> 0);
                signed_mask = (if get_bit value_byte 7 \<noteq> 0 then NOT 0 else 0);
                signed_mask = set_bits signed_mask 7 0 (ucast value_byte)
            in
            bindR (arm_write_register rd signed_mask p) (\<lambda>p.
            Inr (if r = None then -1 else 0, p)))
          else if lsh_bits = 7 then
            bindR (arm_read_half address p) (\<lambda>r.
            let value_half = (case r of Some v \<Rightarrow> v | None \<Rightarrow> 0);
                signed_mask = (if get_bit value_half 15 \<noteq> 0 then NOT 0 else 0);
                signed_mask = set_bits signed_mask 15 0 (ucast value_half)
            in
            bindR (arm_write_register rd signed_mask p) (\<lambda>p.
            Inr (if r = None then -1 else 0, p)))
          else Inr (0, p)))"

section \<open>Block transfers\<close>

text \<open>The loop that counts the registers of the list.\<close>

fun count_registers :: "u16 \<Rightarrow> nat list \<Rightarrow> u32 \<Rightarrow> u32" where
  "count_registers register_list [] n = n"
| "count_registers register_list (i # is) n =
     count_registers register_list is (n + ucast (get_bit register_list i))"

definition block_address :: "bool \<Rightarrow> bool \<Rightarrow> u32 \<Rightarrow> u32 \<Rightarrow> u32 \<times> u32" where
  "block_address P U Rn_v number_of_set_bits =
     (if \<not> P \<and> U then (Rn_v, Rn_v + number_of_set_bits * 4)
      else if P \<and> U then (Rn_v + 4, Rn_v + number_of_set_bits * 4)
      else if \<not> P \<and> \<not> U then
        (Rn_v - number_of_set_bits * 4 + 4, Rn_v - number_of_set_bits * 4)
      else (Rn_v - number_of_set_bits * 4, Rn_v - number_of_set_bits * 4))"

text \<open>
  The transfer loop over the register numbers. The codes of the memory accesses are ignored; \<open>data\<close>
  is the variable of that name, \<open>None\<close> before the first successful read.
\<close>

fun transfer_loop :: "bool \<Rightarrow> u16 \<Rightarrow> nat list \<Rightarrow> u32 \<Rightarrow> u32 option \<Rightarrow> sim \<Rightarrow> sim res" where
  "transfer_loop L register_list [] address data p = Inr p"
| "transfer_loop L register_list (i # is) address data p =
     (if get_bit register_list i \<noteq> 0 then
        (if L then
           bindR (arm_read_word address p) (\<lambda>r.
           case (case r of Some d \<Rightarrow> Some d | None \<Rightarrow> data) of
             None \<Rightarrow> Inl Uninitialised
           | Some d \<Rightarrow>
               let d = (if i = 15 then d AND 0xFFFFFFFC else d) in
               bindR (arm_write_register i d p) (\<lambda>p.
               transfer_loop L register_list is (address + 4) (Some d) p))
         else
           bindR (arm_read_register i p) (\<lambda>d.
           bindR (arm_write_word address d p) (\<lambda>(_, p).
           transfer_loop L register_list is (address + 4) data p)))
      else transfer_loop L register_list is address data p)"

definition arm_load_store_multiple :: "u32 \<Rightarrow> sim \<Rightarrow> (int \<times> sim) res" where
  "arm_load_store_multiple ins p =
     (let P = (get_bit ins 24 \<noteq> 0); U = (get_bit ins 23 \<noteq> 0); S = (get_bit ins 22 \<noteq> 0);
          W = get_bit ins 21; L = (get_bit ins 20 \<noteq> 0);
          Rn = unat (get_bits ins 19 16);
          register_list = (ucast (get_bits ins 15 0) :: u16)
      in
      bindR (arm_read_register Rn p) (\<lambda>Rn_v.
      let number_of_set_bits = count_registers register_list [0..<16] 0;
          (address, W_adress) = block_address P U Rn_v number_of_set_bits
      in
      bindR (transfer_loop L register_list [0..<16] address None p) (\<lambda>p.
      bindR (if L \<and> S \<and> get_bit ins 15 \<noteq> 0
             then bindR (arm_read_spsr p) (\<lambda>v. Inr (arm_write_cpsr v p))
             else Inr p) (\<lambda>p.
      bindR (if W = 1 then arm_write_register Rn W_adress p else Inr p) (\<lambda>p.
      Inr (0, p))))))"

definition arm_coprocessor_load_store :: "u32 \<Rightarrow> int" where
  "arm_coprocessor_load_store ins = int UNDEFINED_INSTRUCTION"

section \<open>The handlers keep the invariants of the core\<close>

context core_invariant
begin

lemma b_bit_handle_outcome:
  "I p \<Longrightarrow> rd < 16 \<Longrightarrow>
    outcome (insert Out_Of_Bounds FR) (\<lambda>(rc, p'). I p') (b_bit_handle l b addr rd p)"
  unfolding b_bit_handle_def
  by (auto intro!: outcome_intros split: option.split)

lemma offset_outcome:
  assumes "I p" "rd < 16"
  shows "outcome (insert Out_Of_Bounds FR) (\<lambda>(rc, a, p'). I p')
      (arm_load_immediate_offset l u b rd addr offset p)"
    and "outcome (insert Out_Of_Bounds FR) (\<lambda>(rc, a, p'). I p')
      (arm_store_immediate_offset l u b rd addr offset p)"
  using assms
  unfolding arm_load_immediate_offset_def arm_store_immediate_offset_def Let_def
  by (auto intro!: outcome_mono [OF b_bit_handle_outcome])

lemma indexing_outcome:
  assumes "I p" "rn < 16" "rd < 16"
  defines "F \<equiv> insert Out_Of_Bounds FR"
  shows "outcome F (\<lambda>(rc, p'). I p') (arm_load_immediate_preindexing l u b rn rd addr offset p)"
    and "outcome F (\<lambda>(rc, p'). I p') (arm_load_immediate_postindexing l u b rn rd addr offset p)"
    and "outcome F (\<lambda>(rc, p'). I p') (arm_store_immediate_preindexing l u b rn rd addr offset p)"
    and "outcome F (\<lambda>(rc, p'). I p') (arm_store_immediate_postindexing l u b rn rd addr offset p)"
  using assms(1-3)
  unfolding arm_load_immediate_preindexing_def arm_load_immediate_postindexing_def
    arm_store_immediate_preindexing_def arm_store_immediate_postindexing_def F_def
  by (auto intro!: outcome_mono [OF b_bit_handle_outcome] outcome_mono [OF offset_outcome(1)]
      outcome_mono [OF offset_outcome(2)] write_registerI)

lemma load_store_word_outcome:
  assumes "I p"
  shows "outcome (insert Out_Of_Bounds FR) (\<lambda>(rc, p'). I p') (arm_load_store_immediate_offset ins p)"
    and "outcome (insert Out_Of_Bounds FR) (\<lambda>(rc, p'). I p') (arm_load_store_register_offset ins p)"
  using assms
  unfolding arm_load_store_immediate_offset_def arm_load_store_register_offset_def Let_def
  by (auto intro!: read_registerI indexing_outcome outcome_mono [OF offset_outcome(1)]
      outcome_mono [OF offset_outcome(2)])

lemma miscellaneous_address_outcome:
  "I p \<Longrightarrow> rn < 16 \<Longrightarrow> unat op0 < 16 \<Longrightarrow>
    outcome FR (\<lambda>r. case r of None \<Rightarrow> True | Some (a, p') \<Rightarrow> I p')
      (miscellaneous_address P B W U rn op1 op0 p)"
  unfolding miscellaneous_address_def Let_def
  by (auto intro!: outcome_intros)

lemma double_outcome:
  assumes "I p" "double_ok rd a" "rd < 16"
  shows "outcome (insert Out_Of_Bounds FR) (\<lambda>(rc, p'). I p') (load_double rd a p)"
    and "outcome (insert Out_Of_Bounds FR) (\<lambda>(rc, p'). I p') (store_double rd a p)"
proof -
  have "rd + 1 < 16" using assms(2,3) by (cases "rd = 15") (auto simp: double_ok_def)
  with assms show "outcome (insert Out_Of_Bounds FR) (\<lambda>(rc, p'). I p') (load_double rd a p)"
    and "outcome (insert Out_Of_Bounds FR) (\<lambda>(rc, p'). I p') (store_double rd a p)"
    unfolding load_double_def store_double_def Let_def
    by (auto intro!: outcome_intros)
qed

lemma load_store_miscellaneous_outcome:
  assumes "I p"
  shows "outcome (insert Out_Of_Bounds FR) (\<lambda>(rc, p'). I p') (arm_load_store_miscellaneous ins p)"
  using assms unfolding arm_load_store_miscellaneous_def Let_def
  by (auto intro!: outcome_mono [OF miscellaneous_address_outcome] double_outcome outcome_intros
      split: option.split)

lemma transfer_loop_outcome:
  "I p \<Longrightarrow> \<forall>i \<in> set is. i < 16 \<Longrightarrow>
    outcome (insert Out_Of_Bounds (insert Uninitialised FR)) I
      (transfer_loop L register_list is address data p)"
proof (induction "is" arbitrary: address data p)
  case (Cons i "is")
  then show ?case
    by (auto simp: Let_def intro!: outcome_intros split: option.split)
qed simp

lemma load_store_multiple_outcome:
  "I p \<Longrightarrow> outcome ({Out_Of_Bounds, Uninitialised, Null_Pointer} \<union> FR) (\<lambda>(rc, p'). I p')
     (arm_load_store_multiple ins p)"
  unfolding arm_load_store_multiple_def Let_def
  by (auto intro!: outcome_mono [OF transfer_loop_outcome] outcome_intros I_write_cpsr
      split: prod.split simp: split_beta)

end

end
