(* ===== verification/Load_Store_Facts.thy ===== *)
theory Load_Store_Facts
  imports Load_Store Data_Processing
begin

text \<open>
  What the loads and stores of \<^verbatim>\<open>arm_load_store.c\<close> do: round trips of single transfers, the addressing
  modes, the extensions of narrow loads, and the block transfers, which use the contracts of the word
  memory and of the register banks.
\<close>

section \<open>Single transfers\<close>

lemma mem_update_raw [simp]:
  "raw (p\<lparr>mem := m\<rparr>) i mode = raw p i mode" "arm_read_cpsr (p\<lparr>mem := m\<rparr>) = arm_read_cpsr p"
  "cur_mode (p\<lparr>mem := m\<rparr>) = cur_mode p" "wf_memory m \<Longrightarrow> wf_sim p \<Longrightarrow> wf_sim (p\<lparr>mem := m\<rparr>)"
  by (simp_all add: raw_def arm_read_cpsr_def cur_mode_def wf_sim_def)

lemma arm_read_register_mem [simp]: "arm_read_register i (p\<lparr>mem := m\<rparr>) = arm_read_register i p"
  by (simp add: arm_read_register_raw)

lemma inside_Some: "inside m a n \<Longrightarrow> \<exists>d. m = Some d"
  by (cases m) (auto simp: inside_def)

text \<open>A register stored as a word or as a byte and loaded from the same address is read back: the
  word whole, the byte zero-extended; the store returns 0 and changes no register and no byte of
  memory but the four, or the one, at the address.\<close>

theorem store_load_roundtrip:
  assumes "wf_sim p" "cur_mode p \<noteq> FIQ" "rd < 16" "rd' < 16" "arm_read_register rd p = Inr v"
    "inside (mem p) addr 4"
  shows "(\<exists>p1 p2. b_bit_handle 0 0 addr rd p = Inr (0, p1) \<and> b_bit_handle 1 0 addr rd' p1 = Inr (0, p2)
      \<and> raw p2 rd' (cur_mode p) = Inr v \<and> p1 = p\<lparr>mem := mem p1\<rparr> \<and> mem p2 = mem p1
      \<and> (\<forall>i. i < unat addr \<or> unat addr + 4 \<le> i \<longrightarrow> byte_at (mem p1) i = byte_at (mem p) i))
    \<and> (\<exists>p1 p2. b_bit_handle 0 1 addr rd p = Inr (0, p1) \<and> b_bit_handle 1 1 addr rd' p1 = Inr (0, p2)
      \<and> raw p2 rd' (cur_mode p) = Inr (v AND 0xFF) \<and> p1 = p\<lparr>mem := mem p1\<rparr> \<and> mem p2 = mem p1
      \<and> (\<forall>i. i \<noteq> unat addr \<longrightarrow> byte_at (mem p1) i = byte_at (mem p) i))"
proof (rule conjI)
  have w: "wf_memory (mem p)" using assms(1) by (simp add: wf_sim_def)
  obtain d where d: "mem p = Some d" using inside_Some assms(6) by blast
  obtain m where m: "memory_write_word (mem p) addr v ENDIANESS = Inr (0, m)"
    using write_word_inside assms(6) w unfolding d by metis
  have wm: "wf_memory m"
    using write_word_outcome [OF w, of addr v ENDIANESS] m by (simp add: write_keeps_def)
  let ?p1 = "p\<lparr>mem := m\<rparr>"
  have rd: "memory_read_word m addr ENDIANESS = Inr (Some v)" by (rule read_word_written [OF assms(6) w m])
  obtain p2 where p2: "arm_write_register rd' v ?p1 = Inr p2" "writes ?p1 rd' v p2"
    using arm_write_register_writes [of ?p1 rd' v] assms(1,2,4) wm by auto
  show "\<exists>p1 p2. b_bit_handle 0 0 addr rd p = Inr (0, p1) \<and> b_bit_handle 1 0 addr rd' p1 = Inr (0, p2)
      \<and> raw p2 rd' (cur_mode p) = Inr v \<and> p1 = p\<lparr>mem := mem p1\<rparr> \<and> mem p2 = mem p1
      \<and> (\<forall>i. i < unat addr \<or> unat addr + 4 \<le> i \<longrightarrow> byte_at (mem p1) i = byte_at (mem p) i)"
    using assms(5) m rd p2(1) writes_same [OF p2(2)] writesD(4) [OF p2(2)]
      byte_at_write_word [OF assms(6) w m]
    by (intro exI [of _ ?p1] exI [of _ p2])
      (simp add: b_bit_handle_def arm_write_word_def arm_read_word_def)
  have i1: "inside (mem p) addr 1" using assms(6) d by (simp add: inside_def)
  obtain mb where mb: "memory_write_byte (mem p) addr (ucast v) = Inr (0, mb)"
    using write_byte_inside i1 w unfolding d by metis
  have wmb: "wf_memory mb"
    using write_byte_outcome [OF w, of addr "ucast v"] mb by (simp add: write_keeps_def)
  let ?q1 = "p\<lparr>mem := mb\<rparr>"
  have rdb: "memory_read_byte mb addr = Inr (Some (ucast v))" by (rule read_byte_written [OF i1 w mb])
  obtain q2 where q2: "arm_write_register rd' (v AND 0xFF) ?q1 = Inr q2" "writes ?q1 rd' (v AND 0xFF) q2"
    using arm_write_register_writes [of ?q1 rd' "v AND 0xFF"] assms(1,2,4) wmb by auto
  show "\<exists>p1 p2. b_bit_handle 0 1 addr rd p = Inr (0, p1) \<and> b_bit_handle 1 1 addr rd' p1 = Inr (0, p2)
      \<and> raw p2 rd' (cur_mode p) = Inr (v AND 0xFF) \<and> p1 = p\<lparr>mem := mem p1\<rparr> \<and> mem p2 = mem p1
      \<and> (\<forall>i. i \<noteq> unat addr \<longrightarrow> byte_at (mem p1) i = byte_at (mem p) i)"
    using assms(5) mb rdb q2(1) writes_same [OF q2(2)] writesD(4) [OF q2(2)]
      byte_at_write_byte [OF i1 w mb] ucast_byte_mask [of v]
    by (intro exI [of _ ?q1] exI [of _ q2])
      (simp add: b_bit_handle_def arm_write_byte_def arm_read_byte_def)
qed

theorem store_load_roundtrip_witness:
  "\<exists>p1 p2. b_bit_handle 0 0 4 1 (demo_sim (replicate 8 7)) = Inr (0, p1)
    \<and> b_bit_handle 1 0 4 2 p1 = Inr (0, p2) \<and> raw p2 2 SVC = Inr 0 \<and> byte_at (mem p1) 3 = Some 7"
proof -
  let ?p = "demo_sim (replicate 8 7)"
  have "raw ?p 1 SVC = Inr 0" by (rule raw_demo_sim [where k = 0]) (simp_all add: cell_def)
  then have "arm_read_register 1 ?p = Inr 0" by (simp add: arm_read_register_raw demo_sim_simps)
  moreover have "inside (mem ?p) 4 4" by (simp add: demo_sim_simps inside_def)
  moreover have "byte_at (mem ?p) 3 = Some 7" by (simp add: demo_sim_simps byte_at_def)
  ultimately show ?thesis
    using store_load_roundtrip [of ?p 1 2 0 4] wf_demo_sim [of "replicate 8 7"]
    by (auto simp: demo_sim_simps)
qed

text \<open>
  The addressing modes: the address accessed is the base, moved before the access with the P bit;
  the moved address goes back to the base register after a successful access without the P bit or
  with the W bit.
\<close>

definition addressed_transfer ::
    "u32 \<Rightarrow> u32 \<Rightarrow> u32 \<Rightarrow> u32 \<Rightarrow> u32 \<Rightarrow> nat \<Rightarrow> nat \<Rightarrow> u32 \<Rightarrow> u32 \<Rightarrow> sim \<Rightarrow> (int \<times> sim) res" where
  "addressed_transfer P U B W L rn rd base offset p =
     (let moved = (if U = 1 then base + offset else base - offset);
          address = (if P = 1 then moved else base)
      in
      if P = 0 \<and> W = 1 then Inr (int UNDEFINED_INSTRUCTION, p)
      else
        bindR (b_bit_handle L B address rd p) (\<lambda>(rc, p).
        if rc = 0 \<and> (P = 0 \<or> W = 1)
        then bindR (arm_write_register rn moved p) (\<lambda>p. Inr (rc, p))
        else Inr (rc, p)))"

lemma bit_field_01: "get_bit x i = 0 \<or> get_bit x i = 1"
  by (simp add: get_bit_if)

lemma bindR_ext: "(\<And>x. f x = g x) \<Longrightarrow> bindR r f = bindR r g"
  by (cases r) simp_all

lemma u_bit: "u_bit_handle (get_bit x i) base offset
    = (if get_bit x i = 1 then base + offset else base - offset)"
  by (simp add: u_bit_handle_def)

lemma offset_forms:
  "bindR (arm_load_immediate_offset L (get_bit x i) B rd base offset p) (\<lambda>(err, _, p). Inr (err, p))
     = addressed_transfer 1 (get_bit x i) B 0 L rn rd base offset p"
  "bindR (arm_store_immediate_offset L (get_bit x i) B rd base offset p) (\<lambda>(err, _, p). Inr (err, p))
     = addressed_transfer 1 (get_bit x i) B 0 L rn rd base offset p"
  unfolding arm_load_immediate_offset_def arm_store_immediate_offset_def addressed_transfer_def u_bit
  by (simp_all add: bindR_assoc split_beta Let_def cong: if_cong)

lemma preindexing_forms:
  "arm_load_immediate_preindexing L (get_bit x i) B rn rd base offset p
     = addressed_transfer 1 (get_bit x i) B 1 L rn rd base offset p"
  "arm_store_immediate_preindexing L (get_bit x i) B rn rd base offset p
     = addressed_transfer 1 (get_bit x i) B 1 L rn rd base offset p"
  unfolding arm_load_immediate_preindexing_def arm_store_immediate_preindexing_def
    arm_load_immediate_offset_def arm_store_immediate_offset_def addressed_transfer_def u_bit Let_def
  by (cases "b_bit_handle L B (if get_bit x i = 1 then base + offset else base - offset) rd p";
      auto)+

lemma postindexing_forms:
  "arm_load_immediate_postindexing L (get_bit x i) B rn rd base offset p
     = addressed_transfer 0 (get_bit x i) B 0 L rn rd base offset p"
  "arm_store_immediate_postindexing L (get_bit x i) B rn rd base offset p
     = addressed_transfer 0 (get_bit x i) B 0 L rn rd base offset p"
  unfolding arm_load_immediate_postindexing_def arm_store_immediate_postindexing_def
    addressed_transfer_def u_bit Let_def
  by (cases "b_bit_handle L B base rd p"; auto)+

lemma unsupported_form:
  "addressed_transfer 0 U B 1 L rn rd base offset p = Inr (int UNDEFINED_INSTRUCTION, p)"
  by (simp add: addressed_transfer_def Let_def)

lemmas addressing_forms = offset_forms preindexing_forms postindexing_forms unsupported_form

text \<open>
  The offset of a register form: the register, shifted as the second operand of a data-processing
  instruction is in the architecture. The rotation through carry takes the number of the register where
  the architecture takes its content.
\<close>

definition register_offset :: "u32 \<Rightarrow> u32 \<Rightarrow> bool \<Rightarrow> u32" where
  "register_offset ins v c =
     (let code = get_bits ins 6 5; n = unat (get_bits ins 11 7) in
      fst (immediate_reference code n (if code = ROR \<and> n = 0 then get_bits ins 3 0 else v) c))"

lemma scale_offset_reference:
  assumes "code < 4" "n < 32"
  shows "scale_offset h code n v r cpsr =
    fst (immediate_reference code n (if code = ROR \<and> n = 0 then r else v) (bit cpsr C_bit))"
  using shift_codes [OF assms(1)] assms(2)
  unfolding immediate_reference_def shift_reference_def shift_in_arithmetic rotate_extended
  by (elim disjE) (simp_all add: scale_offset_def get_bit_if signed_drop_bit_32 ror_word_rotr)

lemma single_transfer_forms:
  "arm_load_store_immediate_offset ins p =
     bindR (arm_read_register (unat (get_bits ins 19 16)) p) (\<lambda>base.
     addressed_transfer (get_bit ins 24) (get_bit ins 23) (get_bit ins 22) (get_bit ins 21)
       (get_bit ins 20) (unat (get_bits ins 19 16)) (unat (get_bits ins 15 12)) base
       (get_bits ins 11 0) p)"
  "arm_load_store_register_offset ins p =
     bindR (arm_read_register (unat (get_bits ins 3 0)) p) (\<lambda>v.
     bindR (arm_read_register (unat (get_bits ins 19 16)) p) (\<lambda>base.
     addressed_transfer (get_bit ins 24) (get_bit ins 23) (get_bit ins 22) (get_bit ins 21)
       (get_bit ins 20) (unat (get_bits ins 19 16)) (unat (get_bits ins 15 12)) base
       (register_offset ins v (bit (arm_read_cpsr p) C_bit)) p))"
proof -
  have z: "get_bits ins 11 7 OR get_bits ins 6 5 = 0 \<Longrightarrow> get_bits ins 11 7 = 0 \<and> get_bits ins 6 5 = 0"
    by (auto simp: bit_eq_iff bit_or_iff)
  have r: "(if get_bits ins 11 7 OR get_bits ins 6 5 \<noteq> 0
        then scale_offset (sim_host p) (get_bits ins 6 5) (unat (get_bits ins 11 7)) v
               (get_bits ins 3 0) (arm_read_cpsr p)
        else v) = register_offset ins v (bit (arm_read_cpsr p) C_bit)" for v
  proof (cases "get_bits ins 11 7 OR get_bits ins 6 5 = 0")
    case True
    then show ?thesis using z by (simp add: register_offset_def immediate_reference_def)
  next
    case False
    have "get_bits ins 6 5 < 4" "unat (get_bits ins 11 7) < 32"
      using unat_get_bits_less [of 5 6 ins] unat_get_bits_less [of 7 11 ins] by (simp_all add: word_less_nat_alt)
    from scale_offset_reference [OF this] show ?thesis
      using False by (simp add: register_offset_def Let_def)
  qed
  show "arm_load_store_immediate_offset ins p =
     bindR (arm_read_register (unat (get_bits ins 19 16)) p) (\<lambda>base.
     addressed_transfer (get_bit ins 24) (get_bit ins 23) (get_bit ins 22) (get_bit ins 21)
       (get_bit ins 20) (unat (get_bits ins 19 16)) (unat (get_bits ins 15 12)) base
       (get_bits ins 11 0) p)"
    unfolding arm_load_store_immediate_offset_def Let_def
    by (intro bindR_ext, cases "bit ins 20"; cases "bit ins 24"; cases "bit ins 21")
      (simp_all only: get_bit_if [of ins 20] get_bit_if [of ins 24] get_bit_if [of ins 21] if_True
        if_False simp_thms one_neq_zero zero_neq_one addressing_forms)
  have lpw: "(push_bit 2 (if l then 1 else 0) OR push_bit 1 (if q then 1 else 0))
      OR (if w then 1 else 0) = ((if l then 4 else 0) + (if q then 2 else 0) + (if w then 1 else 0) :: u32)"
    for l q w by (cases l; cases q; cases w) simp_all
  show "arm_load_store_register_offset ins p =
     bindR (arm_read_register (unat (get_bits ins 3 0)) p) (\<lambda>v.
     bindR (arm_read_register (unat (get_bits ins 19 16)) p) (\<lambda>base.
     addressed_transfer (get_bit ins 24) (get_bit ins 23) (get_bit ins 22) (get_bit ins 21)
       (get_bit ins 20) (unat (get_bits ins 19 16)) (unat (get_bits ins 15 12)) base
       (register_offset ins v (bit (arm_read_cpsr p) C_bit)) p))"
    unfolding r [symmetric] arm_load_store_register_offset_def Let_def
    by (intro bindR_ext, cases "bit ins 20"; cases "bit ins 24"; cases "bit ins 21")
      (simp_all only: get_bit_if [of ins 20] get_bit_if [of ins 24] get_bit_if [of ins 21] lpw,
        simp_all add: addressing_forms)
qed

text \<open>
  The effect of the access itself, in terms of the bytes of the memory: \<open>word_at\<close> is the big-endian word
  of the four bytes from an address on, \<open>loaded_value\<close> what a load of a word or a byte gives, \<open>transferred\<close> what
  becomes of the memory.
\<close>

definition word_at :: "memory \<Rightarrow> nat \<Rightarrow> u32" where
  "word_at m i = word_rcat (map (\<lambda>k. the (byte_at m (i + k))) [0..<4])"

lemma word_rcat_join: "word_rcat [b3, b2, b1, b0] = join_4 b3 b2 b1 b0"
proof (rule bit_word_eqI)
  fix n assume "n < LENGTH(32)"
  then have "n < 32" by simp
  moreover have "(k + 8) div 8 = 1" "(k + 16) div 8 = 2" "(k + 24) div 8 = 3"
    "(k + 8) mod 8 = k" "(k + 16) mod 8 = k" "(k + 24) mod 8 = k" if "k < 8" for k :: nat
    using that by presburger+
  ultimately show "bit (word_rcat [b3, b2, b1, b0] :: u32) n = bit (join_4 b3 b2 b1 b0) n"
    unfolding word_rcat_def comp_def bit_word_of_int_iff bit_horner_sum_uint_exp_iff
    by (cases rule: byte_position_cases) (simp_all add: bit_join_4)
qed

lemma read_word_at:
  assumes "inside m a 4" "wf_memory m"
  shows "memory_read_word m a True = Inr (Some (word_at m (unat a)))"
proof -
  obtain d where d: "m = Some d" using inside_Some assms(1) by blast
  note i = insideD [OF assms [unfolded d]]
  have "[0..<4] = [0, 1, 2, 3]" by (simp add: upt_rec)
  then show ?thesis
    using read_word_inside [OF assms [unfolded d], of True] i
    by (simp add: d word_at_def byte_at_def word_rcat_join Let_def)
qed

lemma read_byte_at:
  assumes "inside m a 1" "wf_memory m"
  shows "memory_read_byte m a = Inr (Some (the (byte_at m (unat a))))"
    "\<exists>b. byte_at m (unat a) = Some b"
proof -
  obtain d where d: "m = Some d" using inside_Some assms(1) by blast
  note i = insideD [OF assms [unfolded d]]
  show "memory_read_byte m a = Inr (Some (the (byte_at m (unat a))))" "\<exists>b. byte_at m (unat a) = Some b"
    using read_byte_inside [OF assms [unfolded d]] i by (simp_all add: d byte_at_def)
qed

definition transferred :: "bool \<Rightarrow> bool \<Rightarrow> u32 \<Rightarrow> u32 \<Rightarrow> sim \<Rightarrow> sim \<Rightarrow> bool" where
  "transferred L B a w p p' \<longleftrightarrow>
     (if L then mem p' = mem p
      else (if B then byte_at (mem p') (unat a) = Some (ucast w) else word_at (mem p') (unat a) = w)
        \<and> (\<forall>i. i < unat a \<or> unat a + (if B then 1 else 4) \<le> i \<longrightarrow> byte_at (mem p') i = byte_at (mem p) i))"

definition loaded_value :: "bool \<Rightarrow> u32 \<Rightarrow> memory \<Rightarrow> u32" where
  "loaded_value B a m = (if B then ucast (the (byte_at m (unat a))) else word_at m (unat a))"

lemma b_bit_handle_effect:
  assumes "wf_sim p" "cur_mode p \<noteq> FIQ" "rd < 16" "arm_read_register rd p = Inr w"
    "inside (mem p) a (if b then 1 else 4)"
  shows "\<exists>p'. b_bit_handle (of_bool l) (of_bool b) a rd p = Inr (0, p') \<and> wf_sim p'
    \<and> arm_read_cpsr p' = arm_read_cpsr p \<and> cycle_count p' = cycle_count p \<and> stdout p' = stdout p \<and> stdin p' = stdin p
    \<and> (\<forall>j mode. raw p' j mode =
         (if l \<and> j = rd \<and> cell j mode = cell rd (cur_mode p) then Inr (loaded_value b a (mem p)) else raw p j mode))
    \<and> transferred l b a w p p'"
proof (cases l)
  case True
  have w: "wf_memory (mem p)" using assms(1) by (simp add: wf_sim_def)
  obtain p' where p': "arm_write_register rd (loaded_value b a (mem p)) p = Inr p'" "writes p rd (loaded_value b a (mem p)) p'"
    using arm_write_register_writes [OF assms(1,3)] assms(2) by metis
  have "b_bit_handle (of_bool l) (of_bool b) a rd p = Inr (0, p')"
    using p'(1) True assms(5) read_byte_at(1) [OF _ w] read_word_at [OF _ w]
    by (cases b) (simp_all add: b_bit_handle_def loaded_value_def arm_read_byte_def arm_read_word_def ENDIANESS_def)
  then show ?thesis using writesD [OF p'(2)] True by (intro exI [of _ p']) (auto simp: transferred_def)
next
  case False
  have w: "wf_memory (mem p)" using assms(1) by (simp add: wf_sim_def)
  obtain d where d: "mem p = Some d" using inside_Some assms(5) by blast
  show ?thesis
  proof (cases b)
    case b: True
    then have i: "inside (mem p) a 1" using assms(5) by simp
    obtain m where m: "memory_write_byte (mem p) a (ucast w) = Inr (0, m)"
      using write_byte_inside i w unfolding d by metis
    have wm: "wf_memory m" "same_shape (mem p) m"
      using write_byte_outcome [OF w, of a "ucast w"] m by (simp_all add: write_keeps_def)
    have im: "inside m a 1" using i wm(2) by (auto simp: inside_def same_shape_def memory_get_size_def split: option.splits)
    have "memory_read_byte m a = Inr (Some (ucast w))" by (rule read_byte_written [OF i w m])
    then have "byte_at m (unat a) = Some (ucast w)" using read_byte_at [OF im wm(1)] by auto
    then show ?thesis
      using m byte_at_write_byte [OF i w m] wm(1) assms(1,4) False b
      by (intro exI [of _ "p\<lparr>mem := m\<rparr>"])
        (simp add: b_bit_handle_def arm_write_byte_def transferred_def)
  next
    case b: False
    then have i: "inside (mem p) a 4" using assms(5) by simp
    obtain m where m: "memory_write_word (mem p) a w True = Inr (0, m)"
      using write_word_inside i w unfolding d by metis
    have wm: "wf_memory m" "same_shape (mem p) m"
      using write_word_outcome [OF w, of a w True] m by (simp_all add: write_keeps_def)
    have im: "inside m a 4" using i wm(2) by (auto simp: inside_def same_shape_def memory_get_size_def split: option.splits)
    have "memory_read_word m a True = Inr (Some w)" by (rule read_word_written [OF i w m])
    then have "word_at m (unat a) = w" using read_word_at [OF im wm(1)] by auto
    then show ?thesis
      using m byte_at_write_word [OF i w m] wm(1) assms(1,4) False b
      by (intro exI [of _ "p\<lparr>mem := m\<rparr>"])
        (simp add: b_bit_handle_def arm_write_word_def transferred_def ENDIANESS_def)
  qed
qed


lemma addressed_transfer_bits:
  "addressed_transfer (of_bool P) (of_bool U) B (of_bool W) L rn rd base offset p =
     (let moved = (if U then base + offset else base - offset) in
      if \<not> P \<and> W then Inr (int UNDEFINED_INSTRUCTION, p)
      else
        bindR (b_bit_handle L B (if P then moved else base) rd p) (\<lambda>(rc, p).
        if rc = 0 \<and> (\<not> P \<or> W)
        then bindR (arm_write_register rn moved p) (\<lambda>p. Inr (rc, p))
        else Inr (rc, p)))"
  by (cases P; cases U; cases W) (simp_all add: addressed_transfer_def)

text \<open>C27: Loads and stores of words and bytes, with an immediate offset and with a shifted register offset, in
  all addressing modes. At an address inside the memory they return 0; the address is the base, moved
  before the access with the P bit; a load puts the big-endian word, or the byte extended by zeros, into
  the destination and leaves the memory, a store puts the register's word or low byte there and changes
  no other byte. Without the P bit or with the W bit the base register gets the moved address, after the
  load if it is the destination too. No other register of any mode changes, nor do status, cycle counter,
  input and output. The offset is the one of the architecture except for the rotation of a register
  through carry, which \<open>register_offset\<close> shows. The form with W and without P, which the architecture has
  for user mode accesses, is refused as an undefined instruction before anything changes.\<close>

theorem addressing_modes:
  fixes ins :: u32
  assumes "wf_sim p" "cur_mode p \<noteq> FIQ"
    "Rn = unat (get_bits ins 19 16)" "Rd = unat (get_bits ins 15 12)"
    "arm_read_register Rn p = Inr base" "arm_read_register Rd p = Inr w"
    "arm_read_register (unat (get_bits ins 3 0)) p = Inr v"
    "(execute, offset) \<in> {(arm_load_store_immediate_offset, get_bits ins 11 0),
       (arm_load_store_register_offset, register_offset ins v (bit (arm_read_cpsr p) C_bit))}"
    "moved = (if bit ins 23 then base + offset else base - offset)"
    "a = (if bit ins 24 then moved else base)" "inside (mem p) a (if bit ins 22 then 1 else 4)"
  shows "if \<not> bit ins 24 \<and> bit ins 21 then execute ins p = Inr (int UNDEFINED_INSTRUCTION, p)
    else \<exists>p'. execute ins p = Inr (0, p') \<and> wf_sim p' \<and> arm_read_cpsr p' = arm_read_cpsr p
      \<and> cycle_count p' = cycle_count p \<and> stdout p' = stdout p \<and> stdin p' = stdin p
      \<and> (\<forall>j mode. raw p' j mode =
           (if (\<not> bit ins 24 \<or> bit ins 21) \<and> j = Rn \<and> cell j mode = cell Rn (cur_mode p) then Inr moved
            else if bit ins 20 \<and> j = Rd \<and> cell j mode = cell Rd (cur_mode p)
            then Inr (loaded_value (bit ins 22) a (mem p)) else raw p j mode))
      \<and> transferred (bit ins 20) (bit ins 22) a w p p'"
proof -
  have "Rn < 16" "Rd < 16" using unat_nibble [of ins] assms(3,4) by simp_all
  have bits: "get_bit ins i = of_bool (bit ins i)" for i by (simp add: get_bit_if)
  have eq: "execute ins p = addressed_transfer (of_bool (bit ins 24)) (of_bool (bit ins 23)) (of_bool (bit ins 22))
      (of_bool (bit ins 21)) (of_bool (bit ins 20)) Rn Rd base offset p"
    using assms(3-8) single_transfer_forms [of ins p] by (auto simp: bits)
  show ?thesis
  proof (cases "\<not> bit ins 24 \<and> bit ins 21")
    case True
    then show ?thesis using eq by (simp add: addressed_transfer_def)
  next
    case False
    obtain p1 where p1: "b_bit_handle (of_bool (bit ins 20)) (of_bool (bit ins 22)) a Rd p = Inr (0, p1)"
      "wf_sim p1" "arm_read_cpsr p1 = arm_read_cpsr p" "cycle_count p1 = cycle_count p" "stdout p1 = stdout p"
      "stdin p1 = stdin p" "transferred (bit ins 20) (bit ins 22) a w p p1"
      "\<And>j mode. raw p1 j mode = (if bit ins 20 \<and> j = Rd \<and> cell j mode = cell Rd (cur_mode p)
         then Inr (loaded_value (bit ins 22) a (mem p)) else raw p j mode)"
      using b_bit_handle_effect [OF assms(1,2) \<open>Rd < 16\<close> assms(6,11), of "bit ins 20"] by blast
    have m: "cur_mode p1 = cur_mode p" using p1(3) by (simp add: cur_mode_def)
    obtain p2 where p2: "arm_write_register Rn moved p1 = Inr p2" "writes p1 Rn moved p2"
      using arm_write_register_writes [OF p1(2) \<open>Rn < 16\<close>] assms(2) m by metis
    note d = writesD [OF p2(2)]
    let ?p = "if \<not> bit ins 24 \<or> bit ins 21 then p2 else p1"
    have "execute ins p = Inr (0, ?p)"
      using False p1(1) p2(1) unfolding eq addressed_transfer_bits Let_def assms(9) [symmetric] assms(10) [symmetric]
      by simp
    moreover have "transferred (bit ins 20) (bit ins 22) a w p ?p"
      using p1(7) d(4) by (simp add: transferred_def)
    moreover have "raw ?p j mode =
        (if (\<not> bit ins 24 \<or> bit ins 21) \<and> j = Rn \<and> cell j mode = cell Rn (cur_mode p) then Inr moved
         else if bit ins 20 \<and> j = Rd \<and> cell j mode = cell Rd (cur_mode p)
         then Inr (loaded_value (bit ins 22) a (mem p)) else raw p j mode)" for j mode
      using d(9) [of j mode] p1(8) [of j mode] m by (cases "\<not> bit ins 24 \<or> bit ins 21") presburger+
    moreover have "wf_sim ?p" "arm_read_cpsr ?p = arm_read_cpsr p" "cycle_count ?p = cycle_count p"
      "stdout ?p = stdout p" "stdin ?p = stdin p"
      using p1(2-6) d(1,2,5-7) by simp_all
    ultimately show ?thesis unfolding if_not_P [OF False] by blast
  qed
qed

theorem addressing_modes_witness:
  "\<exists>p'. arm_load_store_immediate_offset 0xE5B21004 (demo_sim (replicate 8 7)) = Inr (0, p')
    \<and> raw p' 1 SVC = Inr 0x07070707 \<and> raw p' 2 SVC = Inr 4"
proof -
  let ?p = "demo_sim (replicate 8 7)"
  have r: "raw ?p i SVC = Inr 0" if "i < 13" for i
  proof -
    obtain k where "cell i SVC = Inr k" using cell_low [of i SVC] \<open>i < 13\<close> by auto
    then show ?thesis using \<open>i < 13\<close> by (intro raw_demo_sim) auto
  qed
  then have rd: "arm_read_register i ?p = Inr 0" if "i < 13" for i
    using that by (simp add: arm_read_register_raw demo_sim_simps)
  have f: "unat (get_bits 0xE5B21004 19 16) = 2" "unat (get_bits 0xE5B21004 15 12) = 1"
    "unat (get_bits 0xE5B21004 3 0) = 4" "get_bits 0xE5B21004 11 0 = 4" by code_simp+
  have "word_at (mem ?p) 4 = 0x07070707" by (simp add: demo_sim_simps) code_simp
  then have l: "loaded_value False 4 (mem ?p) = 0x07070707" by (simp add: loaded_value_def)
  have i: "inside (mem ?p) 4 4" by (simp add: demo_sim_simps inside_def)
  have b: "bit (0xE5B21004 :: u32) 24" "bit (0xE5B21004 :: u32) 21" "bit (0xE5B21004 :: u32) 20" "bit (0xE5B21004 :: u32) 23"
    "\<not> bit (0xE5B21004 :: u32) 22" by code_simp+
  have m: "cur_mode ?p = SVC" by (simp add: demo_sim_simps)
  have "\<exists>p'. arm_load_store_immediate_offset 0xE5B21004 ?p = Inr (0, p')
      \<and> (\<forall>j mode. raw p' j mode = (if j = 2 \<and> cell j mode = cell 2 SVC then Inr 4
           else if j = 1 \<and> cell j mode = cell 1 SVC then Inr (loaded_value False 4 (mem ?p)) else raw ?p j mode))"
    using addressing_modes [of ?p 2 "0xE5B21004" 1 0 0 0 arm_load_store_immediate_offset 4 4 4]
      wf_demo_sim [of "replicate 8 7"] rd [of 1] rd [of 2] rd [of 4] i
    unfolding f b m simp_thms if_True if_False by fastforce
  then show ?thesis using l by fastforce
qed

section \<open>Halves and signed loads\<close>

lemma signed_mask_byte:
  "set_bits (if get_bit (b :: u8) 7 \<noteq> 0 then NOT 0 else 0) 7 0 (ucast b) = (scast b :: u32)"
proof (rule bit_word_eqI)
  fix n assume "n < LENGTH(32)"
  then show "bit (set_bits (if get_bit b 7 \<noteq> 0 then NOT 0 else 0) 7 0 (ucast b)) n = bit (scast b :: u32) n"
    by (cases "n < 7"; cases "n = 7")
      (auto simp: bit_set_bits bit_signed_iff bit_unsigned_iff min_def dest: bit_imp_le_length)
qed

lemma signed_mask_half:
  "set_bits (if get_bit (b :: u16) 15 \<noteq> 0 then NOT 0 else 0) 15 0 (ucast b) = (scast b :: u32)"
proof (rule bit_word_eqI)
  fix n assume "n < LENGTH(32)"
  then show "bit (set_bits (if get_bit b 15 \<noteq> 0 then NOT 0 else 0) 15 0 (ucast b)) n = bit (scast b :: u32) n"
    by (cases "n < 15"; cases "n = 15")
      (auto simp: bit_set_bits bit_signed_iff bit_unsigned_iff min_def dest: bit_imp_le_length)
qed

text \<open>The loads of halves and signed bytes: once the address is formed and lies inside the memory,
  the destination register gets the half zero-extended, the byte sign-extended, or the half
  sign-extended, as the opcode bits say, and the code returned is 0.\<close>

theorem miscellaneous_loads:
  fixes ins :: u32
  assumes "wf_sim p1" "cur_mode p1 \<noteq> FIQ" "bit ins 20"
    "miscellaneous_address (bit ins 24) (bit ins 22) (bit ins 21) (bit ins 23)
       (unat (get_bits ins 19 16)) (get_bits ins 11 8) (get_bits ins 3 0) p = Inr (Some (a, p1))"
    "inside (mem p1) a 2" "arm_read_byte a p1 = Inr (Some b)" "arm_read_half a p1 = Inr (Some h)"
    "bit ins 5 \<or> bit ins 6"
  shows "\<exists>p2. arm_load_store_miscellaneous ins p = Inr (0, p2) \<and> mem p2 = mem p1
    \<and> arm_read_cpsr p2 = arm_read_cpsr p1
    \<and> (\<forall>j. raw p2 j (cur_mode p1) =
         (if j = unat (get_bits ins 15 12)
          then Inr (if \<not> bit ins 6 then ucast h else if bit ins 5 then scast h else scast b)
          else raw p1 j (cur_mode p1)))"
proof -
  let ?rd = "unat (get_bits ins 15 12)"
  let ?v = "if \<not> bit ins 6 then ucast h else if bit ins 5 then scast h else scast b :: u32"
  obtain p2 where p2: "arm_write_register ?rd ?v p1 = Inr p2" "writes p1 ?rd ?v p2"
    using arm_write_register_writes [OF assms(1), of ?rd ?v] assms(2) by auto
  have lsh: "(push_bit 2 (get_bit ins 20) OR push_bit 1 (get_bit ins 6)) OR get_bit ins 5
      = (if \<not> bit ins 6 then 5 else if bit ins 5 then 7 else 6 :: u32)"
    using assms(3,8) by (auto simp: get_bit_if)
  have "arm_load_store_miscellaneous ins p = Inr (0, p2)"
    unfolding arm_load_store_miscellaneous_def Let_def lsh
    using assms(4,6,7) p2(1)
    by (cases "bit ins 6"; cases "bit ins 5")
      (use assms(8) in \<open>auto simp: signed_mask_byte [simplified] signed_mask_half [simplified]\<close>)
  then show ?thesis
    using writesD [OF p2(2)] by (intro exI [of _ p2]) auto
qed

theorem miscellaneous_loads_witness:
  "\<exists>p2. arm_load_store_miscellaneous 0xE1D210D0 (demo_sim [0x80, 1]) = Inr (0, p2)
    \<and> raw p2 1 SVC = Inr 0xFFFFFF80"
proof -
  let ?p = "demo_sim [0x80, 1]"
  have f: "bit (0xE1D210D0 :: u32) 20" "bit (0xE1D210D0 :: u32) 24" "bit (0xE1D210D0 :: u32) 22"
    "\<not> bit (0xE1D210D0 :: u32) 21" "bit (0xE1D210D0 :: u32) 23" "bit (0xE1D210D0 :: u32) 6"
    "\<not> bit (0xE1D210D0 :: u32) 5"
    "unat (get_bits 0xE1D210D0 19 16) = 2" "unat (get_bits 0xE1D210D0 15 12) = 1"
    "get_bits 0xE1D210D0 11 8 = 0" "get_bits 0xE1D210D0 3 0 = 0" by code_simp+
  have "raw ?p 2 SVC = Inr 0" by (rule raw_demo_sim [where k = 0]) (simp_all add: cell_def)
  then have r2: "arm_read_register 2 ?p = Inr 0" by (simp add: arm_read_register_raw demo_sim_simps)
  have "miscellaneous_address True True False True 2 0 0 ?p = Inr (Some (0, ?p))"
    by (simp add: miscellaneous_address_def r2)
  moreover have "inside (mem ?p) 0 2" by (simp add: demo_sim_simps inside_def)
  moreover have "arm_read_byte 0 ?p = Inr (Some 0x80)" "arm_read_half 0 ?p = Inr (Some 0x8001)"
    by (simp_all add: arm_read_byte_def arm_read_half_def demo_sim_simps)
      (code_simp)+
  moreover have "(scast (0x80 :: u8) :: u32) = 0xFFFFFF80" by code_simp
  ultimately show ?thesis
    using miscellaneous_loads [of ?p "0xE1D210D0" ?p 0 "0x80" "0x8001"] wf_demo_sim [of "[0x80, 1]"] f
    by (auto simp: demo_sim_simps)
qed

section \<open>Block transfers\<close>

lemma inside_block:
  assumes "wf_memory m" "inside m a (4 * n)"
  shows "be_words.block_ok m a n"
proof -
  obtain d where d: "m = Some d" using inside_Some assms(2) by blast
  have b: "unat a + 4 * n \<le> msize d" "msize d < 2 ^ 32"
    using insideD [of d a "4 * n"] assms d by simp_all
  have "inside m (a + of_nat (4 * k)) 4" if "k < n" for k
  proof -
    have "unat (a + of_nat (4 * k)) = unat a + 4 * k"
      using b that by (intro unat_add_no_wrap) simp
    then show ?thesis using b that d by (simp add: inside_def)
  qed
  then show ?thesis
    using assms(1) b by (simp add: be_words.block_ok_def holds_word_def)
qed

text \<open>The value a block store writes for a register: what reading the register gives.\<close>

definition visible :: "sim \<Rightarrow> nat \<Rightarrow> u32" where
  "visible p i = (case arm_read_register i p of Inr v \<Rightarrow> v | Inl e \<Rightarrow> 0)"

lemma read_register_visible:
  assumes "wf_sim p" "cur_mode p \<noteq> FIQ" "i < 16"
  shows "arm_read_register i p = Inr (visible p i)"
  by (rule arm_read_register_total [OF assms(1,3)]) (use assms(2) in \<open>auto simp: visible_def\<close>)

lemma visible_general: "wf_sim p \<Longrightarrow> cur_mode p \<noteq> FIQ \<Longrightarrow> i < 15 \<Longrightarrow> raw p i (cur_mode p) = Inr (visible p i)"
  using read_register_visible [of p i] by (simp add: arm_read_register_raw bindR_eq_Inr)

abbreviation wr_word :: "memory \<Rightarrow> u32 \<Rightarrow> u32 \<Rightarrow> (int \<times> memory) res" where
  "wr_word \<equiv> \<lambda>m a v. memory_write_word m a v ENDIANESS"

abbreviation rd_word :: "memory \<Rightarrow> u32 \<Rightarrow> u32 option res" where
  "rd_word \<equiv> \<lambda>m a. memory_read_word m a ENDIANESS"

definition listed :: "u16 \<Rightarrow> nat list \<Rightarrow> nat list" where
  "listed rl is = filter (\<lambda>i. bit rl i) is"

lemma transfer_loop_store:
  assumes "wf_sim p" "cur_mode p \<noteq> FIQ" "\<forall>i \<in> set is. i < 16"
    "be_words.block_ok (mem p) a (length (listed rl is))"
  shows "transfer_loop False rl is a data p =
    bindR (store_block wr_word (mem p) a (map (visible p) (listed rl is))) (\<lambda>m. Inr (p\<lparr>mem := m\<rparr>))"
  using assms
proof (induction "is" arbitrary: p a)
  case (Cons i "is")
  show ?case
  proof (cases "bit rl i")
    case False
    with Cons show ?thesis by (simp add: listed_def)
  next
    case True
    have ok: "be_words.block_ok (mem p) a (Suc (length (listed rl is)))"
      using Cons.prems(4) True by (simp add: listed_def)
    note b = be_words.block_ok_Suc [OF ok]
    obtain m1 where m1: "wr_word (mem p) a (visible p i) = Inr (0, m1)"
      using be_words.wr_ok [OF b(1)] by blast
    let ?p = "p\<lparr>mem := m1\<rparr>"
    have w1: "wf_sim ?p"
      using Cons.prems(1) b(1) be_words.ok_wr [OF b(1) m1, of a] by (simp add: holds_word_def)
    have vis: "visible ?p = visible p" by (rule ext) (simp add: visible_def)
    have step: "transfer_loop False rl (i # is) a data p = transfer_loop False rl is (a + 4) data ?p"
      using True Cons.prems(1-3) m1 by (simp add: read_register_visible arm_write_word_def)
    show ?thesis
    proof (cases "listed rl is")
      case Nil
      then have "transfer_loop False rl is (a + 4) data ?p = Inr ?p" for data
        by (induction "is" arbitrary: a) (auto simp: listed_def split: if_splits)
      with step Nil m1 True show ?thesis by (simp add: listed_def)
    next
      case (Cons j js)
      then have "be_words.block_ok m1 (a + 4) (length (listed rl is))"
        using b(2) be_words.block_ok_wr [OF b(1) m1] by simp
      then have "transfer_loop False rl is (a + 4) data ?p =
          bindR (store_block wr_word (mem ?p) (a + 4) (map (visible ?p) (listed rl is)))
            (\<lambda>m. Inr (?p\<lparr>mem := m\<rparr>))"
        using Cons.IH [of ?p "a + 4"] Cons.prems w1 by simp
      with step m1 True vis show ?thesis by (simp add: listed_def)
    qed
  qed
qed (simp add: listed_def)

definition loaded :: "nat list \<Rightarrow> u32 list \<Rightarrow> (nat \<times> u32) list" where
  "loaded is vs = map (\<lambda>(i, v). (i, if i = 15 then v AND 0xFFFFFFFC else v)) (zip is vs)"

lemma transfer_loop_load:
  assumes "wf_sim p" "cur_mode p \<noteq> FIQ" "\<forall>i \<in> set is. i < 16"
    "load_block rd_word (mem p) a (length (listed rl is)) = Inr (map Some vs)"
  shows "transfer_loop True rl is a data p =
    bindR (write_list (registers_write (sim_host p)) (reg p) (cur_mode p) (loaded (listed rl is) vs))
      (\<lambda>r. Inr (p\<lparr>reg := r\<rparr>))"
  using assms
proof (induction "is" arbitrary: p a data vs)
  case Nil
  then show ?case by (simp add: listed_def loaded_def)
next
  case (Cons i "is")
  show ?case
  proof (cases "bit rl i")
    case False
    with Cons show ?thesis by (simp add: listed_def)
  next
    case True
    then obtain v ws where vs: "vs = v # ws" "rd_word (mem p) a = Inr (Some v)"
      "load_block rd_word (mem p) (a + 4) (length (listed rl is)) = Inr (map Some ws)"
      using Cons.prems(4) by (cases vs) (auto simp: listed_def bindR_eq_Inr)
    let ?d = "if i = 15 then v AND 0xFFFFFFFC else v"
    obtain p1 where p1: "arm_write_register i ?d p = Inr p1" "writes p i ?d p1"
      using arm_write_register_writes [OF Cons.prems(1), of i ?d] Cons.prems(2,3) by auto
    obtain r where r: "registers_write (sim_host p) (reg p) i (cur_mode p) ?d = Inr r" "p1 = p\<lparr>reg := r\<rparr>"
      using p1(1) by (auto simp: arm_write_register_cell bindR_eq_Inr)
    have step: "transfer_loop True rl (i # is) a data p = transfer_loop True rl is (a + 4) (Some ?d) p1"
      using True vs(2) p1(1) by (simp add: arm_read_word_def Let_def)
    have m1: "cur_mode (p\<lparr>reg := r\<rparr>) = cur_mode p" "wf_sim p1" using writesD(1,3) [OF p1(2)] r(2) by simp_all
    have "transfer_loop True rl is (a + 4) (Some ?d) p1 =
        bindR (write_list (registers_write (sim_host p1)) (reg p1) (cur_mode p1) (loaded (listed rl is) ws))
          (\<lambda>r. Inr (p1\<lparr>reg := r\<rparr>))"
      using Cons.prems m1 vs(3) r(2) by (intro Cons.IH) auto
    with step True vs(1) r m1(1) show ?thesis
      by (simp add: listed_def loaded_def)
  qed
qed

lemma write_list_regs:
  assumes "wf_sim p" "cur_mode p \<noteq> FIQ" "distinct (map fst xs)" "\<forall>i \<in> fst ` set xs. i < 16"
  obtains r where "write_list (registers_write (sim_host p)) (reg p) (cur_mode p) xs = Inr r"
    "wf_sim (p\<lparr>reg := r\<rparr>)" "arm_read_cpsr (p\<lparr>reg := r\<rparr>) = arm_read_cpsr p"
    "\<And>i v. (i, v) \<in> set xs \<Longrightarrow> raw (p\<lparr>reg := r\<rparr>) i (cur_mode p) = Inr v"
    "\<And>i mode. i \<notin> fst ` set xs \<Longrightarrow> raw (p\<lparr>reg := r\<rparr>) i mode = raw p i mode"
proof -
  have w: "wf_registers (reg p)" and wm: "wf_memory (mem p)" using assms(1) by (simp_all add: wf_sim_def)
  have "\<forall>i \<in> fst ` set xs. \<exists>k. cell i (cur_mode p) = Inr k" using cell_low assms(2,4) by blast
  from banks.write_list_reads [OF w assms(3) this, of "sim_host p"] obtain r where
    r: "write_list (registers_write (sim_host p)) (reg p) (cur_mode p) xs = Inr r" "wf_registers r"
    "\<forall>(i, v) \<in> set xs. registers_read (sim_host p) r i (cur_mode p) = Inr v" by blast
  have c: "cell 16 mode = Inr 0" for mode by (simp add: cell_def)
  have "16 \<notin> fst ` set xs" using assms(4) by auto
  then have "registers_read (sim_host p) r 16 0 = registers_read (sim_host p) (reg p) 16 0"
    using banks.write_list_frame [OF w r(1)] by blast
  then have "registers_read_cpsr r = registers_read_cpsr (reg p)"
    using r(2) w c [of 0]
    by (simp add: registers_read_cell registers_read_cpsr_def split: if_splits)
      (metis reverse_4_reverse_4)
  then show thesis
    using that [OF r(1)] r(2,3) wm banks.write_list_frame [OF w r(1)]
    by (auto simp: wf_sim_def raw_def arm_read_cpsr_def)
qed

lemma count_registers_listed:
  "count_registers rl is n = n + of_nat (length (listed rl is))"
  by (induction "is" arbitrary: n) (auto simp: listed_def get_bit_if)

definition register_list :: "u32 \<Rightarrow> nat list" where
  "register_list ins = filter (\<lambda>i. bit ins i) [0..<16]"

lemma listed_register_list: "listed (ucast (get_bits ins 15 0)) [0..<16] = register_list ins"
  unfolding listed_def register_list_def
  by (rule filter_cong) (auto simp: bit_simps bit_get_bits)

lemma register_list_16: "\<forall>i \<in> set (register_list ins). i < 16" "distinct (register_list ins)"
  by (simp_all add: register_list_def)

text \<open>
  A block transfer whose addresses lie inside the memory: what a store leaves in the memory, and what
  a load leaves in the registers.
\<close>

lemma store_multiple_effect:
  fixes ins :: u32
  assumes "wf_sim p" "cur_mode p \<noteq> FIQ" "\<not> bit ins 20" "bit ins 21"
    "arm_read_register (unat (get_bits ins 19 16)) p = Inr base"
    "block_address (bit ins 24) (bit ins 23) base (of_nat (length (register_list ins))) = (a, final)"
    "inside (mem p) a (4 * length (register_list ins))"
  shows "\<exists>p1. arm_load_store_multiple ins p = Inr (0, p1) \<and> wf_sim p1
    \<and> arm_read_cpsr p1 = arm_read_cpsr p
    \<and> load_block rd_word (mem p1) a (length (register_list ins))
        = Inr (map (Some \<circ> visible p) (register_list ins))
    \<and> same_shape (mem p) (mem p1)
    \<and> (\<forall>i. raw p1 i (cur_mode p) =
         (if i = unat (get_bits ins 19 16) then Inr final else raw p i (cur_mode p)))"
proof -
  let ?l = "register_list ins" and ?Rn = "unat (get_bits ins 19 16)"
  have wm: "wf_memory (mem p)" using assms(1) by (simp add: wf_sim_def)
  have ok: "be_words.block_ok (mem p) a (length (map (visible p) ?l))"
    using inside_block [OF wm assms(7)] by simp
  obtain m where m: "store_block wr_word (mem p) a (map (visible p) ?l) = Inr m"
    "load_block rd_word m a (length ?l) = Inr (map (Some \<circ> visible p) ?l)"
    using be_words.load_block_stored [OF ok, of ENDIANESS] by auto
  have loop: "transfer_loop False (ucast (get_bits ins 15 0)) [0..<16] a None p = Inr (p\<lparr>mem := m\<rparr>)"
    using transfer_loop_store [of p "[0..<16]" a "ucast (get_bits ins 15 0)" None] assms(1,2) ok m(1)
    by (simp add: listed_register_list)
  let ?p = "p\<lparr>mem := m\<rparr>"
  have shape: "wf_memory m" "same_shape (mem p) m"
  proof -
    have "core_inv UNIV (sim_host p) (mem p) p"
      using assms(1) by (simp add: core_inv_def modes_in_def)
    from any_mode.transfer_loop_outcome [OF this, of "[0..<16]" False "ucast (get_bits ins 15 0)" a None]
    have "core_inv UNIV (sim_host p) (mem p) ?p" by (simp add: loop)
    then show "wf_memory m" "same_shape (mem p) m" by (simp_all add: core_inv_def wf_sim_def)
  qed
  obtain p1 where p1: "arm_write_register ?Rn final ?p = Inr p1" "writes ?p ?Rn final p1"
    using arm_write_register_writes [of ?p ?Rn final] assms(1,2) shape(1) by auto
  have "arm_load_store_multiple ins p = Inr (0, p1)"
    unfolding arm_load_store_multiple_def Let_def
    using assms(3-6) loop p1(1) by (simp add: count_registers_listed listed_register_list)
  then show ?thesis
    using writesD [OF p1(2)] m(2) shape(2) by (intro exI [of _ p1]) auto
qed

lemma load_multiple_effect:
  fixes ins :: u32
  assumes "wf_sim q" "cur_mode q \<noteq> FIQ" "bit ins 20" "bit ins 21" "\<not> bit ins 22"
    "arm_read_register (unat (get_bits ins 19 16)) q = Inr base"
    "block_address (bit ins 24) (bit ins 23) base (of_nat (length (register_list ins))) = (a, final)"
    "load_block rd_word (mem q) a (length (register_list ins)) = Inr (map (Some \<circ> f) (register_list ins))"
  shows "\<exists>q1. arm_load_store_multiple ins q = Inr (0, q1) \<and> wf_sim q1 \<and> mem q1 = mem q
    \<and> arm_read_cpsr q1 = arm_read_cpsr q
    \<and> (\<forall>i < 16. raw q1 i (cur_mode q) =
         (if i = unat (get_bits ins 19 16) then Inr final
          else if i = 15 \<and> bit ins 15 then Inr (f 15 AND 0xFFFFFFFC)
          else if bit ins i then Inr (f i) else raw q i (cur_mode q)))"
proof -
  let ?l = "register_list ins" and ?Rn = "unat (get_bits ins 19 16)"
  let ?xs = "loaded ?l (map f ?l)"
  have xs: "?xs = map (\<lambda>i. (i, if i = 15 then f i AND 0xFFFFFFFC else f i)) ?l"
    by (simp add: loaded_def zip_map2 zip_same_conv_map)
  have loop: "transfer_loop True (ucast (get_bits ins 15 0)) [0..<16] a None q =
    bindR (write_list (registers_write (sim_host q)) (reg q) (cur_mode q) ?xs)
      (\<lambda>r. Inr (q\<lparr>reg := r\<rparr>))"
    using transfer_loop_load [of q "[0..<16]" a "ucast (get_bits ins 15 0)" "map f ?l" None] assms(1,2,8)
    by (simp add: listed_register_list)
  have d: "distinct (map fst ?xs)" "\<forall>i \<in> fst ` set ?xs. i < 16"
    unfolding xs using register_list_16 [of ins] by (auto simp: comp_def)
  obtain r where r: "write_list (registers_write (sim_host q)) (reg q) (cur_mode q) ?xs = Inr r"
    "wf_sim (q\<lparr>reg := r\<rparr>)" "arm_read_cpsr (q\<lparr>reg := r\<rparr>) = arm_read_cpsr q"
    "\<And>i v. (i, v) \<in> set ?xs \<Longrightarrow> raw (q\<lparr>reg := r\<rparr>) i (cur_mode q) = Inr v"
    "\<And>i mode. i \<notin> fst ` set ?xs \<Longrightarrow> raw (q\<lparr>reg := r\<rparr>) i mode = raw q i mode"
    by (rule write_list_regs [OF assms(1,2) d]) (rule that)
  have regs: "raw (q\<lparr>reg := r\<rparr>) i (cur_mode q) =
      (if bit ins i then Inr (if i = 15 then f i AND 0xFFFFFFFC else f i) else raw q i (cur_mode q))"
    if "i < 16" for i
  proof (cases "bit ins i")
    case True
    then have "(i, if i = 15 then f i AND 0xFFFFFFFC else f i) \<in> set ?xs"
      using that unfolding xs by (force simp: register_list_def)
    from r(4) [OF this] True show ?thesis by simp
  next
    case False
    then have "i \<notin> fst ` set ?xs" unfolding xs by (auto simp: register_list_def)
    from r(5) [OF this] False show ?thesis by simp
  qed
  have m: "cur_mode (q\<lparr>reg := r\<rparr>) = cur_mode q" using r(3) by (simp add: cur_mode_def)
  obtain q1 where q1: "arm_write_register ?Rn final (q\<lparr>reg := r\<rparr>) = Inr q1"
    "writes (q\<lparr>reg := r\<rparr>) ?Rn final q1"
    using arm_write_register_writes [OF r(2), of ?Rn final] assms(2) m by auto
  have "arm_load_store_multiple ins q = Inr (0, q1)"
    unfolding arm_load_store_multiple_def Let_def
    using assms(3-7) loop r(1) q1(1) by (simp add: count_registers_listed listed_register_list)
  moreover have "raw q1 i (cur_mode q) =
      (if i = ?Rn then Inr final
       else if i = 15 \<and> bit ins 15 then Inr (f 15 AND 0xFFFFFFFC)
       else if bit ins i then Inr (f i) else raw q i (cur_mode q))" if "i < 16" for i
    using writesD(9) [OF q1(2), of i "cur_mode q"] regs [OF that] m by auto
  ultimately show ?thesis
    using writesD [OF q1(2)] r(3) by (intro exI [of _ q1]) simp
qed

text \<open>Loading registers from a block that holds the values they have in another state.\<close>

lemma load_restores:
  fixes pop :: u32
  assumes "wf_sim p" "cur_mode p \<noteq> FIQ" "\<not> bit pop 22" "bit pop 21" "bit pop 20"
    "unat (get_bits pop 19 16) = Rn" "Rn < 15"
    "block_address (bit pop 24) (bit pop 23) final (of_nat (length (register_list pop))) = (a, sp)"
    "load_block rd_word (mem q) a (length (register_list pop)) = Inr (map (Some \<circ> visible p) (register_list pop))"
    "wf_sim q" "cur_mode q = cur_mode p" "raw q Rn (cur_mode p) = Inr final"
  shows "\<exists>q'. arm_load_store_multiple pop q = Inr (0, q') \<and> mem q' = mem q
    \<and> raw q' Rn (cur_mode p) = Inr sp
    \<and> (\<forall>i < 15. i \<noteq> Rn \<longrightarrow> raw q' i (cur_mode p) =
         (if bit pop i then raw p i (cur_mode p) else raw q i (cur_mode p)))"
proof -
  have "arm_read_register (unat (get_bits pop 19 16)) q = Inr final"
    using assms(6,7,11,12) by (simp add: arm_read_register_raw)
  then obtain q' where q': "arm_load_store_multiple pop q = Inr (0, q')" "mem q' = mem q"
    "\<forall>i < 16. raw q' i (cur_mode q) =
       (if i = unat (get_bits pop 19 16) then Inr sp
        else if i = 15 \<and> bit pop 15 then Inr (visible p 15 AND 0xFFFFFFFC)
        else if bit pop i then Inr (visible p i) else raw q i (cur_mode q))"
    using load_multiple_effect [of q pop final a sp "visible p"] assms(2-5,8-11) by auto
  then show ?thesis
    using assms(6,7,11) visible_general [OF assms(1,2)] by (intro exI [of _ q']) auto
qed

text \<open>C2: Storing a list of registers on a stack and loading it again from there gives every listed register
  its value back and the stack pointer its old one, whatever happened to the registers in between, as
  long as the stack pointer and the memory are those the store left. This holds for all four kinds of
  stack (full or empty, ascending or descending), the load using the addressing mode opposite to that of
  the store. The block must lie inside the memory and the list must not contain the stack pointer
  itself.\<close>

theorem push_pop_roundtrip:
  fixes push pop sp :: u32
  defines "Rn \<equiv> unat (get_bits push 19 16)"
    and "n \<equiv> length (register_list push)"
    and "addresses \<equiv> block_address (bit push 24) (bit push 23) sp (of_nat (length (register_list push)))"
  assumes "wf_sim p" "cur_mode p \<noteq> FIQ"
    "bit push 21" "\<not> bit push 20" "\<not> bit pop 22" "bit pop 21" "bit pop 20"
    "bit pop 24 \<noteq> bit push 24" "bit pop 23 \<noteq> bit push 23"
    "get_bits pop 19 16 = get_bits push 19 16" "register_list pop = register_list push"
    "Rn < 15" "\<not> bit push Rn" "raw p Rn (cur_mode p) = Inr sp"
    "inside (mem p) (fst addresses) (4 * n)"
  shows "\<exists>p1. arm_load_store_multiple push p = Inr (0, p1)
    \<and> wf_sim p1 \<and> arm_read_cpsr p1 = arm_read_cpsr p \<and> raw p1 Rn (cur_mode p) = Inr (snd addresses)
    \<and> (\<forall>q. wf_sim q \<and> cur_mode q = cur_mode p \<and> mem q = mem p1
           \<and> raw q Rn (cur_mode p) = raw p1 Rn (cur_mode p) \<longrightarrow>
         (\<exists>q'. arm_load_store_multiple pop q = Inr (0, q') \<and> mem q' = mem q
           \<and> raw q' Rn (cur_mode p) = Inr sp
           \<and> (\<forall>i < 15. i \<noteq> Rn \<longrightarrow> raw q' i (cur_mode p) =
                (if bit push i then raw p i (cur_mode p) else raw q i (cur_mode p)))))"
proof -
  obtain a final where ad: "addresses = (a, final)" by (cases addresses)
  have base: "arm_read_register Rn p = Inr sp" using assms(15,17) by (simp add: arm_read_register_raw)
  have there: "block_address (bit push 24) (bit push 23) sp (of_nat n) = (a, final)"
    using ad by (simp add: n_def addresses_def)
  have undo: "block_address (bit pop 24) (bit pop 23) final (of_nat n) = (a, sp)"
    using there assms(11,12) by (auto simp: block_address_def split: if_splits)
  have place: "inside (mem p) a (4 * n)" using assms(18) ad by simp
  from store_multiple_effect [OF assms(4,5,7,6) base [unfolded Rn_def] there [unfolded n_def]
      place [unfolded n_def]]
  obtain p1 where p1: "arm_load_store_multiple push p = Inr (0, p1)"
    "load_block rd_word (mem p1) a n = Inr (map (Some \<circ> visible p) (register_list push))"
    "raw p1 Rn (cur_mode p) = Inr final" "wf_sim p1" "arm_read_cpsr p1 = arm_read_cpsr p"
    by (auto simp: Rn_def n_def)
  have bits: "bit pop i \<longleftrightarrow> bit push i" if "i < 16" for i
  proof -
    have "i \<in> set (register_list pop) \<longleftrightarrow> i \<in> set (register_list push)" using assms(14) by simp
    then show ?thesis using that by (simp add: register_list_def)
  qed
  have "\<exists>q'. arm_load_store_multiple pop q = Inr (0, q') \<and> mem q' = mem q
           \<and> raw q' Rn (cur_mode p) = Inr sp
           \<and> (\<forall>i < 15. i \<noteq> Rn \<longrightarrow> raw q' i (cur_mode p) =
                (if bit push i then raw p i (cur_mode p) else raw q i (cur_mode p)))"
    if "wf_sim q" "cur_mode q = cur_mode p" "mem q = mem p1" "raw q Rn (cur_mode p) = raw p1 Rn (cur_mode p)" for q
    using load_restores [of p pop Rn final a sp q] assms(4,5,8-10,13-15) undo p1(2,3) that bits
    by (simp add: Rn_def n_def)
  with p1(1,3-5) ad show ?thesis by simp
qed

theorem push_pop_roundtrip_witness:
  "\<exists>p p1 q'. arm_write_register SP 16 (demo_sim (replicate 16 0)) = Inr p
    \<and> arm_load_store_multiple 0xE92D0006 p = Inr (0, p1) \<and> raw p1 SP SVC = Inr 8
    \<and> arm_load_store_multiple 0xE8BD0006 p1 = Inr (0, q') \<and> raw q' SP SVC = Inr 16"
proof -
  let ?p0 = "demo_sim (replicate 16 0)"
  have w0: "wf_sim ?p0" by (rule wf_demo_sim) simp
  obtain p where p: "arm_write_register SP 16 ?p0 = Inr p" "writes ?p0 SP 16 p"
    using arm_write_register_writes [OF w0, of SP 16] by (auto simp: demo_sim_simps)
  note d = writesD [OF p(2)]
  have m: "cur_mode p = SVC" "raw p SP SVC = Inr 16"
    using d(3) writes_same [OF p(2)] by (simp_all add: demo_sim_simps)
  have f: "unat (get_bits 0xE92D0006 19 16) = SP" "register_list 0xE92D0006 = [1, 2]"
    "register_list 0xE8BD0006 = [1, 2]" "get_bits 0xE8BD0006 19 16 = get_bits 0xE92D0006 19 16"
    "bit (0xE92D0006 :: u32) 24" "\<not> bit (0xE92D0006 :: u32) 23" "bit (0xE92D0006 :: u32) 21"
    "\<not> bit (0xE92D0006 :: u32) 20" "\<not> bit (0xE92D0006 :: u32) SP"
    "\<not> bit (0xE8BD0006 :: u32) 24" "bit (0xE8BD0006 :: u32) 23" "\<not> bit (0xE8BD0006 :: u32) 22"
    "bit (0xE8BD0006 :: u32) 21" "bit (0xE8BD0006 :: u32) 20" by code_simp+
  have b: "block_address (bit (0xE92D0006 :: u32) 24) (bit (0xE92D0006 :: u32) 23) 16
      (of_nat (length (register_list 0xE92D0006))) = (8, 8)"
    using f(2,5,6) by (simp add: block_address_def)
  have i: "inside (mem p) 8 (4 * length (register_list 0xE92D0006))"
    using d(4) by (simp add: f(2) demo_sim_simps inside_def)
  have "\<exists>p1. arm_load_store_multiple 0xE92D0006 p = Inr (0, p1) \<and> wf_sim p1
      \<and> arm_read_cpsr p1 = arm_read_cpsr p \<and> raw p1 SP SVC = Inr 8
      \<and> (\<forall>q. wf_sim q \<and> cur_mode q = SVC \<and> mem q = mem p1 \<and> raw q SP SVC = raw p1 SP SVC \<longrightarrow>
        (\<exists>q'. arm_load_store_multiple 0xE8BD0006 q = Inr (0, q') \<and> mem q' = mem q
          \<and> raw q' SP SVC = Inr 16 \<and> (\<forall>i < 15. i \<noteq> SP \<longrightarrow> raw q' i SVC =
             (if bit (0xE92D0006 :: u32) i then raw p i SVC else raw q i SVC))))"
    using push_pop_roundtrip [of p "0xE92D0006" "0xE8BD0006" 16, unfolded b] d(1) m f i
    by (simp split del: if_split cong: if_cong)
  then obtain p1 where p1: "arm_load_store_multiple 0xE92D0006 p = Inr (0, p1)" "raw p1 SP SVC = Inr 8"
    "wf_sim p1" "arm_read_cpsr p1 = arm_read_cpsr p"
    "\<And>q. wf_sim q \<Longrightarrow> cur_mode q = SVC \<Longrightarrow> mem q = mem p1 \<Longrightarrow> raw q SP SVC = raw p1 SP SVC \<Longrightarrow>
       \<exists>q'. arm_load_store_multiple 0xE8BD0006 q = Inr (0, q') \<and> raw q' SP SVC = Inr 16"
    by blast
  have "cur_mode p1 = SVC" using p1(4) m(1) by (simp add: cur_mode_def)
  then show ?thesis using p(1) p1(1,2) p1(5) [OF p1(3)] by blast
qed

section \<open>Refused accesses\<close>

lemma access_beyond:
  assumes "memory_get_size (mem p) \<le> unat a"
  shows "arm_read_byte a p = Inr None" "arm_read_half a p = Inr None" "arm_read_word a p = Inr None"
    "arm_write_byte a b p = Inr (-1, p)" "arm_write_half a h p = Inr (-1, p)" "arm_write_word a w p = Inr (-1, p)"
proof -
  have r: "mem p = None \<or> msize (the (mem p)) \<le> unat a"
    using assms by (cases "mem p") (auto simp: memory_get_size_def)
  show "arm_read_byte a p = Inr None" "arm_read_half a p = Inr None" "arm_read_word a p = Inr None"
    "arm_write_byte a b p = Inr (-1, p)" "arm_write_half a h p = Inr (-1, p)" "arm_write_word a w p = Inr (-1, p)"
    using access_refused [OF r]
    by (simp_all add: arm_read_byte_def arm_read_half_def arm_read_word_def arm_write_byte_def
        arm_write_half_def arm_write_word_def)
qed

lemma addressed_transfer_refused:
  assumes "P \<or> \<not> W" "arm_read_register rd p = Inr w"
    "memory_get_size (mem p) \<le> unat (if P then (if U then base + offset else base - offset) else base)"
  shows "addressed_transfer (of_bool P) (of_bool U) B (of_bool W) L rn rd base offset p = Inr (-1, p)"
proof -
  have "b_bit_handle L B (if P then (if U then base + offset else base - offset) else base) rd p = Inr (-1, p)"
    using access_beyond [OF assms(3)] assms(2) by (simp add: b_bit_handle_def)
  then show ?thesis using assms(1) by (simp only: addressed_transfer_bits Let_def) simp
qed

text \<open>A refused load of a half or a signed byte is not as clean: the destination register becomes 0.\<close>

theorem refused_miscellaneous_load:
  fixes ins :: u32
  assumes "wf_sim p1" "cur_mode p1 \<noteq> FIQ" "bit ins 20" "bit ins 5 \<or> bit ins 6"
    "miscellaneous_address (bit ins 24) (bit ins 22) (bit ins 21) (bit ins 23)
       (unat (get_bits ins 19 16)) (get_bits ins 11 8) (get_bits ins 3 0) p = Inr (Some (a, p1))"
    "memory_get_size (mem p1) \<le> unat a"
  shows "\<exists>p2. arm_load_store_miscellaneous ins p = Inr (-1, p2) \<and> mem p2 = mem p1
    \<and> arm_read_cpsr p2 = arm_read_cpsr p1
    \<and> (\<forall>j. raw p2 j (cur_mode p1) =
         (if j = unat (get_bits ins 15 12) then Inr 0 else raw p1 j (cur_mode p1)))"
proof -
  let ?rd = "unat (get_bits ins 15 12)"
  obtain p2 where p2: "arm_write_register ?rd 0 p1 = Inr p2" "writes p1 ?rd 0 p2"
    using arm_write_register_writes [OF assms(1), of ?rd 0] assms(2) by auto
  have lsh: "(push_bit 2 (get_bit ins 20) OR push_bit 1 (get_bit ins 6)) OR get_bit ins 5
      = (if \<not> bit ins 6 then 5 else if bit ins 5 then 7 else 6 :: u32)"
    using assms(3,4) by (auto simp: get_bit_if)
  have zero: "set_bits 0 7 0 0 = (0 :: u32)" "set_bits 0 15 0 0 = (0 :: u32)" by code_simp+
  have "arm_load_store_miscellaneous ins p = Inr (-1, p2)"
    unfolding arm_load_store_miscellaneous_def Let_def lsh
    using assms(4,5) p2(1) access_beyond [OF assms(6)]
    by (cases "bit ins 6"; cases "bit ins 5") (auto simp: zero)
  then show ?thesis using writesD [OF p2(2)] by (intro exI [of _ p2]) auto
qed

text \<open>
  A block transfer ignores the codes of its accesses: when all of its addresses are refused, a store
  does nothing and reports success, and a load uses a variable that was never given a value.
\<close>

lemma transfer_loop_refused:
  assumes "wf_sim p" "cur_mode p \<noteq> FIQ" "\<forall>i \<in> set is. i < 16"
    "\<forall>k < length (listed rl is). memory_get_size (mem p) \<le> unat (a + 4 * of_nat k)"
  shows "transfer_loop L rl is a None p =
    (if L \<and> listed rl is \<noteq> [] then Inl Uninitialised else Inr p)"
  using assms(3,4)
proof (induction "is" arbitrary: a)
  case (Cons i "is")
  show ?case
  proof (cases "bit rl i")
    case False
    with Cons show ?thesis by (simp add: listed_def)
  next
    case True
    then have l: "listed rl (i # is) = i # listed rl is" by (simp add: listed_def)
    have "memory_get_size (mem p) \<le> unat a" using Cons.prems(2) l by force
    note beyond = access_beyond [OF this]
    obtain v where v: "arm_read_register i p = Inr v"
      using arm_read_register_total [OF assms(1), of i] assms(2) Cons.prems(1) by auto
    have "\<forall>k < length (listed rl is). memory_get_size (mem p) \<le> unat (a + 4 + 4 * of_nat k)"
      using Cons.prems(2) l by (force simp: algebra_simps)
    then show ?thesis using Cons.IH [of "a + 4"] Cons.prems(1) True l beyond v by (cases L) simp_all
  qed
qed (simp add: listed_def)

theorem refused_block_transfer:
  fixes ins :: u32
  assumes "wf_sim p" "cur_mode p \<noteq> FIQ" "\<not> bit ins 21"
    "arm_read_register (unat (get_bits ins 19 16)) p = Inr base"
    "block_address (bit ins 24) (bit ins 23) base (of_nat (length (register_list ins))) = (a, final)"
    "\<forall>k < length (register_list ins). memory_get_size (mem p) \<le> unat (a + 4 * of_nat k)"
  shows "arm_load_store_multiple ins p =
    (if bit ins 20 \<and> register_list ins \<noteq> [] then Inl Uninitialised
     else if bit ins 20 \<and> bit ins 22 \<and> bit ins 15 then bindR (arm_read_spsr p) (\<lambda>v. Inr (0, arm_write_cpsr v p))
     else Inr (0, p))"
proof -
  have loop: "transfer_loop L (ucast (get_bits ins 15 0)) [0..<16] a None p =
      (if L \<and> register_list ins \<noteq> [] then Inl Uninitialised else Inr p)" for L
    using transfer_loop_refused [OF assms(1,2), of "[0..<16]" "ucast (get_bits ins 15 0)" a L] assms(6)
    by (simp add: listed_register_list)
  show ?thesis
    unfolding arm_load_store_multiple_def Let_def
    using assms(3-5) loop by (auto simp: count_registers_listed listed_register_list bindR_assoc)
qed

end
