(* ===== verification/Arm_Instruction.thy ===== *)
theory Arm_Instruction
  imports Branch_Other Data_Processing Load_Store_Facts
begin

text \<open>
  The instruction cycle of \<^verbatim>\<open>arm_instruction.c\<close>: fetch, condition, decoding into the handlers, and
  the exception that a non-zero code of a handler raises.
\<close>

section \<open>Operations\<close>

definition arm_fetch_code_inst :: "u32 \<Rightarrow> u32 \<Rightarrow> sim \<Rightarrow> (int \<times> sim) res" where
  "arm_fetch_code_inst inst cpsr p =
     (let err = int UNDEFINED_INSTRUCTION;
          instcode = get_bits inst 27 25;
          b4 = get_bit inst 4; b7 = get_bit inst 7;
          opcode2b = get_bits inst 24 23;
          S = get_bit inst 20; b5 = get_bit inst 5; b6 = get_bit inst 6; b24 = get_bit inst 24
      in
      if instcode = 0 then
        (if b4 = 0 then
           (if opcode2b = 2 \<and> S = 0 then arm_miscellaneous inst p
            else arm_data_processing_immediate_shift inst cpsr p)
         else
           (if b7 = 0 then
              (if opcode2b = 2 \<and> S = 0 then arm_miscellaneous_2 inst cpsr p
               else arm_data_processing_register_shift inst cpsr p)
            else
              (if b5 = 0 \<and> b6 = 0 then arm_multiply inst cpsr p
               else arm_load_store_miscellaneous inst p)))
      else if instcode = 1 then
        (if opcode2b = 2 \<and> S = 0 then Inr (err, p)
         else arm_data_processing_immediate inst cpsr p)
      else if instcode = 2 then arm_load_store_immediate_offset inst p
      else if instcode = 3 then
        (if b4 = 0 then arm_load_store_register_offset inst p else Inr (err, p))
      else if instcode = 4 then arm_load_store_multiple inst p
      else if instcode = 5 then arm_branch inst p
      else if instcode = 6 then Inr (arm_coprocessor_load_store inst, p)
      else
        (if b24 = 0 then Inr (err, p)
         else Inr (arm_coprocessor_others_swi inst, p)))"

definition flag_cond :: "u32 \<Rightarrow> u32 \<Rightarrow> bool" where
  "flag_cond cond_inst cpsr =
     (let cpsr_Z = get_bit cpsr Z_bit; cpsr_N = get_bit cpsr N_bit;
          cpsr_C = get_bit cpsr C_bit; cpsr_V = get_bit cpsr V_bit
      in
      if cond_inst = EQ \<and> cpsr_Z = 1 then True
      else if cond_inst = NE \<and> cpsr_Z = 0 then True
      else if cond_inst = CS \<and> cpsr_C = 1 then True
      else if cond_inst = CC \<and> cpsr_C = 0 then True
      else if cond_inst = MI \<and> cpsr_N = 1 then True
      else if cond_inst = PL \<and> cpsr_N = 0 then True
      else if cond_inst = VS \<and> cpsr_V = 1 then True
      else if cond_inst = VC \<and> cpsr_V = 0 then True
      else if cond_inst = HI \<and> cpsr_C = 1 \<and> cpsr_Z = 0 then True
      else if cond_inst = LS \<and> cpsr_C = 1 \<and> cpsr_Z = 1 then True
      else if cond_inst = GE \<and> cpsr_N = cpsr_V then True
      else if cond_inst = LT \<and> cpsr_N \<noteq> cpsr_V then True
      else if cond_inst = GT \<and> cpsr_Z = 0 \<and> cpsr_N = cpsr_V then True
      else if cond_inst = LE \<and> (cpsr_Z = 1 \<or> cpsr_N \<noteq> cpsr_V) then True
      else if cond_inst = AL then True
      else False)"

definition arm_execute_instruction :: "sim \<Rightarrow> (int \<times> sim) res" where
  "arm_execute_instruction p =
     bindR (arm_fetch p) (\<lambda>(result, p).
     case result of
       None \<Rightarrow> Inr (1, p)
     | Some inst \<Rightarrow>
         let cond_inst = get_bits inst 31 28;
             cpsr = arm_read_cpsr p
         in
         if flag_cond cond_inst cpsr then arm_fetch_code_inst inst cpsr p
         else Inr (0, p))"

text \<open>The code of the instruction is converted to the 8-bit exception number.\<close>

definition arm_step :: "sim \<Rightarrow> (int \<times> sim) res" where
  "arm_step p =
     bindR (arm_execute_instruction p) (\<lambda>(result, p).
     if result \<noteq> 0 then arm_exception (nat (result mod 256)) p
     else Inr (result, p))"

section \<open>Every step keeps the invariants of the core\<close>

context core_invariant
begin

lemma arm_fetch_code_inst_outcome:
  assumes "I p" "mode_of cpsr \<in> M"
  shows "outcome ({Out_Of_Bounds, Uninitialised, Null_Pointer} \<union> FR) (\<lambda>(rc, p'). I p')
           (arm_fetch_code_inst inst cpsr p)"
  using assms unfolding arm_fetch_code_inst_def Let_def
  by (auto intro: outcome_mono [OF arm_branch_outcome] outcome_mono [OF arm_miscellaneous_outcome]
    outcome_mono [OF arm_miscellaneous_2_outcome] outcome_mono [OF arm_multiply_outcome]
    outcome_mono [OF data_processing_outcome(1)] outcome_mono [OF data_processing_outcome(2)]
    outcome_mono [OF data_processing_outcome(3)] outcome_mono [OF load_store_word_outcome(1)]
    outcome_mono [OF load_store_word_outcome(2)] outcome_mono [OF load_store_miscellaneous_outcome]
    outcome_mono [OF load_store_multiple_outcome])

lemma arm_execute_instruction_outcome:
  "I p \<Longrightarrow> outcome ({Out_Of_Bounds, Uninitialised, Null_Pointer} \<union> FR) (\<lambda>(rc, p'). I p')
     (arm_execute_instruction p)"
  unfolding arm_execute_instruction_def Let_def
  by (auto intro!: fetchI arm_fetch_code_inst_outcome [simplified] I_cpsr split: option.split)

lemma arm_step_outcome:
  "I p \<Longrightarrow> outcome ({Out_Of_Bounds, Uninitialised, Null_Pointer, Buffer_Overflow,
     Undefined_Conversion} \<union> FR) (\<lambda>(rc, p'). I p') (arm_step p)"
  unfolding arm_step_def
  by (auto intro!: outcome_mono [OF arm_execute_instruction_outcome]
      outcome_mono [OF arm_exception_outcome] split: prod.splits)

end

section \<open>Conditions\<close>

text \<open>
  The architecture's conditions: eight tests of the flags, and for an odd code the negation of the
  test of the even code below it.
\<close>

definition condition_reference :: "nat \<Rightarrow> bool \<Rightarrow> bool \<Rightarrow> bool \<Rightarrow> bool \<Rightarrow> bool" where
  "condition_reference code n z c v =
     (([z, c, n, v, c \<and> \<not> z, n = v, \<not> z \<and> n = v, True] ! (code div 2)) = even code)"

text \<open>C26: The condition of an instruction decides as the architecture says for all sixteen codes but one:
  LS is taken only when C and Z are both set, instead of whenever C is clear or Z is set.\<close>

theorem flag_cond_reference:
  assumes "code < 16"
  shows "flag_cond (of_nat code) cpsr =
    (if code = 9 then bit cpsr C_bit \<and> bit cpsr Z_bit
     else condition_reference code (bit cpsr N_bit) (bit cpsr Z_bit) (bit cpsr C_bit) (bit cpsr V_bit))"
proof -
  have "code \<in> {0,1,2,3,4,5,6,7,8,9,10,11,12,13,14,15}"
    using assms by (simp only: insert_iff empty_iff) arith
  then show ?thesis
    by (elim insertE emptyE) (simp_all add: flag_cond_def condition_reference_def Let_def get_bit_eq_iff)
qed

theorem flag_cond_reference_witness:
  "\<not> flag_cond LS 0 \<and> condition_reference 9 False False False False"
  using flag_cond_reference [of 9 0] by (simp add: condition_reference_def)

section \<open>The cycle\<close>

lemma cycle_update_raw [simp]:
  "raw (p\<lparr>cycle_count := c\<rparr>) i mode = raw p i mode"
  "arm_read_cpsr (p\<lparr>cycle_count := c\<rparr>) = arm_read_cpsr p"
  "cur_mode (p\<lparr>cycle_count := c\<rparr>) = cur_mode p" "wf_sim (p\<lparr>cycle_count := c\<rparr>) = wf_sim p"
  by (simp_all add: raw_def arm_read_cpsr_def cur_mode_def wf_sim_def)

lemma fetch_inside:
  assumes "wf_sim p" "raw p PC (cur_mode p) = Inr a" "inside (mem p) a 4"
    "arm_read_word a p = Inr (Some inst)"
  obtains p1 where "arm_fetch p = Inr (Some inst, p1)" "wf_sim p1" "arm_read_cpsr p1 = arm_read_cpsr p"
    "mem p1 = mem p" "cycle_count p1 = cycle_count p + 1" "stdout p1 = stdout p" "stdin p1 = stdin p"
    "\<And>j mode. raw p1 j mode = (if j = PC then Inr (a + 4) else raw p j mode)"
proof -
  obtain p0 where p0: "arm_write_register 15 (a + 4) p = Inr p0" "writes p 15 (a + 4) p0"
    using arm_write_register_writes [OF assms(1), of 15 "a + 4"] by auto
  note d = writesD [OF p0(2)]
  let ?p1 = "p0\<lparr>cycle_count := cycle_count p0 + 1\<rparr>"
  have f: "arm_fetch p = Inr (Some inst, ?p1)"
    using assms(2,4) p0(1) d(4) by (simp add: arm_fetch_raw arm_read_word_def)
  have c: "cell PC mode = Inr 0" for mode by (simp add: cell_def)
  show thesis
    using f d(1) d by (intro that [of ?p1]) (auto simp: c)
qed

lemma aligned_mask:
  assumes "4 dvd unat (a :: u32)"
  shows "a AND 0xFFFFFFFD = a"
proof -
  have "even (unat a div 2)" using assms by (auto elim!: dvdE)
  then have "\<not> bit (unat a) 1" by (simp add: bit_iff_odd)
  then have "\<not> bit a 1" by (simp add: bit_unsigned_iff)
  moreover have "(0xFFFFFFFD :: u32) = NOT (push_bit 1 1)" by simp
  ultimately show ?thesis
    by (simp only:) (rule bit_word_eqI, auto simp: bit_simps)
qed

lemma pc_plus_8:
  assumes "4 dvd unat (a :: u32)" "unat a + 8 < 2 ^ 32"
  shows "(a + 8) AND 0xFFFFFFFD = a + 8"
  using unat_add_no_wrap [of a 8] assms by (intro aligned_mask) simp

lemma step_fetched:
  assumes "wf_sim p" "raw p PC (cur_mode p) = Inr a" "inside (mem p) a 4"
    "arm_read_word a p = Inr (Some inst)"
  shows "\<exists>p1. arm_fetch p = Inr (Some inst, p1) \<and> wf_sim p1
    \<and> (4 dvd unat a \<and> unat a + 8 < 2 ^ 32 \<longrightarrow> arm_read_register PC p1 = Inr (a + 8))
    \<and> cycle_count p1 = cycle_count p + 1 \<and> arm_read_cpsr p1 = arm_read_cpsr p
    \<and> mem p1 = mem p \<and> stdout p1 = stdout p \<and> stdin p1 = stdin p
    \<and> (\<forall>j mode. raw p1 j mode = (if j = PC then Inr (a + 4) else raw p j mode))"
proof -
  obtain p1 where p1: "arm_fetch p = Inr (Some inst, p1)" "wf_sim p1" "arm_read_cpsr p1 = arm_read_cpsr p"
    "mem p1 = mem p" "cycle_count p1 = cycle_count p + 1" "stdout p1 = stdout p" "stdin p1 = stdin p"
    "\<And>j mode. raw p1 j mode = (if j = PC then Inr (a + 4) else raw p j mode)"
    using fetch_inside [OF assms] by blast
  have "arm_read_register PC p1 = Inr (a + 8)" if "4 dvd unat a" "unat a + 8 < 2 ^ 32"
    using pc_plus_8 [OF that] p1(8) by (simp add: arm_read_register_raw add.assoc)
  then show ?thesis using p1 by (intro exI [of _ p1]) auto
qed

text \<open>C7: An instruction at an address inside the memory is fetched with the program counter 4 further, so
  that it reads its own address plus 8 from PC if that address is a multiple of 4. The cycle counter
  grows by one. If the condition fails, the step is over: nothing else changes and 0 is returned.\<close>

theorem step_condition_failed:
  assumes "wf_sim p" "raw p PC (cur_mode p) = Inr a" "inside (mem p) a 4"
    "arm_read_word a p = Inr (Some inst)"
  shows "\<exists>p1. arm_fetch p = Inr (Some inst, p1) \<and> wf_sim p1
    \<and> (4 dvd unat a \<and> unat a + 8 < 2 ^ 32 \<longrightarrow> arm_read_register PC p1 = Inr (a + 8))
    \<and> cycle_count p1 = cycle_count p + 1 \<and> arm_read_cpsr p1 = arm_read_cpsr p
    \<and> mem p1 = mem p \<and> stdout p1 = stdout p \<and> stdin p1 = stdin p
    \<and> (\<forall>j mode. raw p1 j mode = (if j = PC then Inr (a + 4) else raw p j mode))
    \<and> (\<not> flag_cond (get_bits inst 31 28) (arm_read_cpsr p) \<longrightarrow> arm_step p = Inr (0, p1))"
proof -
  from step_fetched [OF assms] obtain p1 where p1: "arm_fetch p = Inr (Some inst, p1)" "wf_sim p1"
    "4 dvd unat a \<and> unat a + 8 < 2 ^ 32 \<longrightarrow> arm_read_register PC p1 = Inr (a + 8)"
    "cycle_count p1 = cycle_count p + 1" "arm_read_cpsr p1 = arm_read_cpsr p" "mem p1 = mem p"
    "stdout p1 = stdout p" "stdin p1 = stdin p"
    "\<forall>j mode. raw p1 j mode = (if j = PC then Inr (a + 4) else raw p j mode)" by blast
  have "arm_step p = Inr (0, p1)" if "\<not> flag_cond (get_bits inst 31 28) (arm_read_cpsr p)"
    using that p1(1,5) by (simp add: arm_step_def arm_execute_instruction_def)
  then show ?thesis using p1 by (intro exI [of _ p1]) auto
qed

theorem step_condition_failed_witness:
  "\<exists>p1. arm_step (demo_sim [0, 0, 0, 0]) = Inr (0, p1) \<and> raw p1 PC SVC = Inr 4 \<and> cycle_count p1 = 1"
proof -
  let ?p = "demo_sim [0, 0, 0, 0]"
  have "raw ?p PC SVC = Inr 0" by (rule raw_demo_sim [where k = 0]) (simp_all add: cell_def)
  moreover have "inside (mem ?p) 0 4" by (simp add: demo_sim_simps inside_def)
  moreover have "arm_read_word 0 ?p = Inr (Some 0)"
    by (simp add: arm_read_word_def demo_sim_simps) code_simp
  moreover have "\<not> flag_cond (get_bits 0 31 28) 0x153" by code_simp
  ultimately show ?thesis
    using step_condition_failed [of ?p 0 0] wf_demo_sim [of "[0, 0, 0, 0]"]
    by (auto simp: demo_sim_simps)
qed

text \<open>C23: A program counter beyond the memory resets the processor: the failed fetch is reported with the
  number of the reset exception, not of a prefetch abort, so the step ends in supervisor mode at address
  0, with code 1; no other register of any mode, saved status registers included, changes, nor do memory,
  input and output.\<close>

theorem step_failed_fetch_resets:
  assumes "wf_sim p" "raw p PC (cur_mode p) = Inr a" "memory_get_size (mem p) \<le> unat a"
  shows "\<exists>p1. arm_step p = Inr (int RESET, p1) \<and> arm_read_cpsr p1 = 0x153 \<and> cur_mode p1 = SVC
    \<and> (\<forall>mode. raw p1 PC mode = Inr 0)
    \<and> (\<forall>j < 18. j \<noteq> PC \<and> j \<noteq> CPSR \<longrightarrow> (\<forall>mode. raw p1 j mode = raw p j mode))
    \<and> mem p1 = mem p \<and> cycle_count p1 = cycle_count p + 1 \<and> stdout p1 = stdout p \<and> stdin p1 = stdin p"
proof -
  obtain p0 where p0: "arm_write_register 15 (a + 4) p = Inr p0" "writes p 15 (a + 4) p0"
    using arm_write_register_writes [OF assms(1), of 15 "a + 4"] by auto
  note d = writesD [OF p0(2)]
  let ?p1 = "p0\<lparr>cycle_count := cycle_count p0 + 1\<rparr>"
  have "mem p = None \<or> msize (the (mem p)) \<le> unat a"
    using assms(3) by (cases "mem p") (auto simp: memory_get_size_def)
  then have f: "arm_fetch p = Inr (None, ?p1)"
    using assms(2) p0(1) d(4) by (simp add: arm_fetch_raw read_word_refused)
  have w1: "wf_sim ?p1" using d(1) by simp
  let ?c = "0x153 OR Exception_bit_9"
  have c: "?c = 0x153" by (simp add: Exception_bit_9_def)
  obtain p2 where p2: "arm_write_register 15 0 (arm_write_cpsr ?c ?p1) = Inr p2"
    "writes (arm_write_cpsr ?c ?p1) 15 0 p2"
    using arm_write_register_writes [OF wf_sim_write_cpsr [OF w1, of ?c], of 15 0] by auto
  have "arm_step p = Inr (int RESET, p2)"
    using f p2(1) by (simp add: arm_step_def arm_execute_instruction_def arm_exception_def Let_def)
  moreover have "cur_mode p2 = SVC"
    using writesD(3) [OF p2(2)] w1 mode_of_reset by simp
  moreover have "raw p2 j mode = raw p j mode" if "j < 18" "j \<noteq> PC" "j \<noteq> CPSR" for j mode
    using writesD(9) [OF p2(2)] w1 d(9) that by simp
  ultimately show ?thesis
    using writesD [OF p2(2)] w1 c d by (intro exI [of _ p2]) (auto simp: cell_def)
qed

theorem step_failed_fetch_resets_witness:
  "\<exists>p1. arm_step (demo_sim []) = Inr (1, p1) \<and> arm_read_cpsr p1 = 0x153"
proof -
  have "raw (demo_sim []) PC SVC = Inr 0" by (rule raw_demo_sim [where k = 0]) (simp_all add: cell_def)
  then show ?thesis
    using step_failed_fetch_resets [of "demo_sim []" 0] wf_demo_sim [of "[]"]
    by (auto simp: demo_sim_simps memory_get_size_def)
qed

lemma step_unknown_exception: "arm_execute_instruction p = Inr (-1, p') \<Longrightarrow> arm_step p = Inr (255, p')"
  by (simp add: arm_step_def arm_exception_def)

text \<open>C31: A load or store of a word or byte, with an immediate or a register offset, at an address behind the
  memory changes nothing but the program counter and the cycle counter, and the step returns 255: the code
  -1 of the access, cut to eight bits. The base register, which is not PC here, is not written back,
  whatever the addressing mode. The number 255 is none of the exceptions, the number of a data abort is 2. Halves, signed bytes,
  doubles and block transfers are not meant here: they do change registers or report success.\<close>

theorem step_refused_access:
  assumes "wf_sim p" "cur_mode p \<noteq> FIQ" "raw p PC (cur_mode p) = Inr a" "inside (mem p) a 4"
    "arm_read_word a p = Inr (Some inst)" "flag_cond (get_bits inst 31 28) (arm_read_cpsr p)"
    "get_bits inst 27 25 = 2 \<and> offset = get_bits inst 11 0
      \<or> get_bits inst 27 25 = 3 \<and> \<not> bit inst 4 \<and> unat (get_bits inst 3 0) < 15
        \<and> raw p (unat (get_bits inst 3 0)) (cur_mode p) = Inr v
        \<and> offset = register_offset inst v (bit (arm_read_cpsr p) C_bit)"
    "bit inst 24 \<or> \<not> bit inst 21" "unat (get_bits inst 19 16) = Rn" "Rn < 15"
    "raw p Rn (cur_mode p) = Inr base"
    "ad = (if \<not> bit inst 24 then base else if bit inst 23 then base + offset else base - offset)"
    "memory_get_size (mem p) \<le> unat ad"
  shows "\<exists>p1. arm_step p = Inr (255, p1) \<and> mem p1 = mem p \<and> arm_read_cpsr p1 = arm_read_cpsr p
    \<and> cycle_count p1 = cycle_count p + 1
    \<and> (\<forall>j mode. raw p1 j mode = (if j = PC then Inr (a + 4) else raw p j mode))"
proof -
  from step_fetched [OF assms(1,3-5)] obtain p1 where p1: "arm_fetch p = Inr (Some inst, p1)" "wf_sim p1"
    "cycle_count p1 = cycle_count p + 1" "arm_read_cpsr p1 = arm_read_cpsr p" "mem p1 = mem p"
    "\<And>j mode. raw p1 j mode = (if j = PC then Inr (a + 4) else raw p j mode)" by blast
  have m: "cur_mode p1 = cur_mode p" using p1(4) by (simp add: cur_mode_def)
  have rn: "arm_read_register (unat (get_bits inst 19 16)) p1 = Inr base"
    using assms(9-11) p1(6) m by (simp add: arm_read_register_raw)
  have rm: "get_bits inst 27 25 = 3 \<Longrightarrow> arm_read_register (unat (get_bits inst 3 0)) p1 = Inr v"
    using assms(7) p1(6) m by (auto simp: arm_read_register_raw)
  obtain w where w: "arm_read_register (unat (get_bits inst 15 12)) p1 = Inr w"
    using arm_read_register_total [OF p1(2) unat_nibble(2) [of inst]] assms(2) m by metis
  have bits: "get_bit inst i = of_bool (bit inst i)" for i by (simp add: get_bit_if)
  have "memory_get_size (mem p1) \<le> unat (if bit inst 24 then (if bit inst 23 then base + offset else base - offset) else base)"
    using assms(12,13) p1(5) by (simp split: if_splits)
  note refused = addressed_transfer_refused [OF assms(8) w this]
  have "arm_fetch_code_inst inst (arm_read_cpsr p1) p1 = Inr (-1, p1)"
    using assms(7)
  proof (elim disjE conjE)
    assume "get_bits inst 27 25 = 2" "offset = get_bits inst 11 0"
    then show ?thesis
      using refused unfolding arm_fetch_code_inst_def Let_def single_transfer_forms(1) rn bits by simp
  next
    assume "get_bits inst 27 25 = 3" "\<not> bit inst 4" "offset = register_offset inst v (bit (arm_read_cpsr p) C_bit)"
    then show ?thesis
      using refused p1(4) unfolding arm_fetch_code_inst_def Let_def single_transfer_forms(2) rn bits
      by (simp add: rm)
  qed
  then have "arm_execute_instruction p = Inr (-1, p1)"
    using p1(1,4) assms(6) by (simp add: arm_execute_instruction_def Let_def)
  from step_unknown_exception [OF this] show ?thesis using p1(3-6) by blast
qed

theorem step_refused_access_witness:
  "\<exists>p1. arm_step (demo_sim [0xE5, 0xB2, 0x10, 0x40]) = Inr (255, p1)
    \<and> raw p1 1 SVC = Inr 0 \<and> raw p1 2 SVC = Inr 0 \<and> raw p1 PC SVC = Inr 4"
proof -
  let ?p = "demo_sim [0xE5, 0xB2, 0x10, 0x40]"
  have r: "raw ?p i SVC = Inr 0" if i: "i \<in> {1, 2, PC}" for i
  proof -
    obtain k where "cell i SVC = Inr k" using cell_low [of i SVC] i by auto
    then show ?thesis using i by (intro raw_demo_sim) auto
  qed
  moreover have "inside (mem ?p) 0 4" by (simp add: demo_sim_simps inside_def)
  moreover have "arm_read_word 0 ?p = Inr (Some 0xE5B21040)"
    by (simp add: arm_read_word_def demo_sim_simps) code_simp
  moreover have "flag_cond (get_bits 0xE5B21040 31 28) 0x153" "get_bits 0xE5B21040 27 25 = 2"
    "bit (0xE5B21040 :: u32) 24" "bit (0xE5B21040 :: u32) 23" "unat (get_bits 0xE5B21040 19 16) = 2"
    "get_bits 0xE5B21040 11 0 = 0x40" by code_simp+
  moreover have "memory_get_size (mem ?p) \<le> 64" by (simp add: demo_sim_simps memory_get_size_def)
  ultimately show ?thesis
    using step_refused_access [of ?p 0 "0xE5B21040" "0x40" 0 2 0 "0x40"] wf_demo_sim [of "[0xE5, 0xB2, 0x10, 0x40]"]
    by (auto simp: demo_sim_simps)
qed

lemma step_serves_interrupt:
  assumes "wf_sim p" "raw p PC (cur_mode p) = Inr a" "inside (mem p) a 4"
    "arm_read_word a p = Inr (Some inst)" "4 dvd unat a" "unat a + 8 < 2 ^ 32"
    "get_bits inst 27 24 = 15" "flag_cond (get_bits inst 31 28) (arm_read_cpsr p)"
  shows "\<exists>p1. arm_fetch p = Inr (Some inst, p1)
    \<and> arm_step p = software_interrupt SOFTWARE_INTERRUPT (inst AND 0xFFFFFF) p1"
proof -
  from step_fetched [OF assms(1-4)] obtain p1 where p1: "arm_fetch p = Inr (Some inst, p1)"
    "arm_read_cpsr p1 = arm_read_cpsr p" "mem p1 = mem p" "arm_read_register PC p1 = Inr (a + 8)"
    using assms(5,6) by blast
  have field: "bit inst (24 + n)" if "n < 4" for n
  proof -
    have "(15 :: u32) = mask 4" by (simp add: mask_eq_exp_minus_1)
    with that have "bit (get_bits inst 27 24) n" unfolding assms(7) by (simp only: bit_mask_iff) simp
    then show ?thesis by (simp add: bit_get_bits)
  qed
  have b: "bit inst 24" "bit inst 25" "bit inst 26" "bit inst 27"
    using field [of 0] field [of 1] field [of 2] field [of 3] by simp_all
  have code: "get_bits inst 27 25 = 7"
  proof -
    have seven: "(7 :: u32) = mask 3" by (simp add: mask_eq_exp_minus_1)
    have "bit (get_bits inst 27 25) n \<longleftrightarrow> n < 3" for n
      using field [of "n + 1"] by (auto simp: bit_get_bits add.commute add.left_commute)
    then show ?thesis
      unfolding seven by (intro bit_word_eqI) (simp only: bit_mask_iff, auto)
  qed
  have "arm_execute_instruction p = Inr (int SOFTWARE_INTERRUPT, p1)"
    using p1(1,2) assms(8) b code
    by (simp add: arm_execute_instruction_def arm_fetch_code_inst_def arm_coprocessor_others_swi_def Let_def)
  moreover have "arm_read_word a p1 = Inr (Some inst)"
    using assms(4) p1(3) by (simp add: arm_read_word_def)
  ultimately show ?thesis
    using p1(1,4) by (intro exI [of _ p1]) (simp add: arm_step_def arm_exception_def Let_def)
qed

text \<open>C30: A software interrupt at an aligned address is served from its own comment field: the simulator
  reads the instruction again, at PC minus 8, and runs the service its low 24 bits name in the state
  after the fetch.\<close>

theorem step_software_interrupt:
  assumes "wf_sim p" "raw p PC (cur_mode p) = Inr a" "inside (mem p) a 4"
    "arm_read_word a p = Inr (Some inst)" "4 dvd unat a" "unat a + 8 < 2 ^ 32"
    "get_bits inst 27 24 = 15" "flag_cond (get_bits inst 31 28) (arm_read_cpsr p)"
  shows "\<exists>p1. arm_fetch p = Inr (Some inst, p1)
    \<and> arm_step p = software_interrupt SOFTWARE_INTERRUPT (inst AND 0xFFFFFF) p1"
  by (rule step_serves_interrupt [OF assms])

theorem step_software_interrupt_witness:
  "\<exists>p1. arm_step (demo_sim [0xEF, 0x12, 0x34, 0x56]) = Inr (int END_SIMULATION, p1)"
proof -
  let ?p = "demo_sim [0xEF, 0x12, 0x34, 0x56]"
  have "raw ?p PC SVC = Inr 0" by (rule raw_demo_sim [where k = 0]) (simp_all add: cell_def)
  moreover have "inside (mem ?p) 0 4" by (simp add: demo_sim_simps inside_def)
  moreover have "arm_read_word 0 ?p = Inr (Some 0xEF123456)"
    by (simp add: arm_read_word_def demo_sim_simps) code_simp
  moreover have "flag_cond (get_bits 0xEF123456 31 28) 0x153" "get_bits 0xEF123456 27 24 = 15"
    "(0xEF123456 :: u32) AND 0xFFFFFF = 0x123456" by code_simp+
  ultimately show ?thesis
    using step_software_interrupt [of ?p 0 "0xEF123456"] wf_demo_sim [of "[0xEF, 0x12, 0x34, 0x56]"]
    by (auto simp: demo_sim_simps software_interrupt_def)
qed

text \<open>C1: An instruction that computes, branches or is undefined never makes the simulator itself fault,
  as long as the processor is not in FIQ mode and no saved status selects it, and it leaves such a
  state: the instructions without memory access are the data-processing instructions, multiplications,
  branches and the status register reads.\<close>

theorem computations_never_fault:
  assumes "core_inv (- {FIQ}) h m0 p" "mode_of cpsr \<noteq> FIQ"
    "get_bits inst 27 25 \<in> {0, 1, 5, 6, 7}"
    "get_bits inst 27 25 = 0 \<Longrightarrow> bit inst 4 \<and> bit inst 7 \<Longrightarrow> \<not> bit inst 5 \<and> \<not> bit inst 6"
  shows "\<exists>rc p'. arm_fetch_code_inst inst cpsr p = Inr (rc, p') \<and> core_inv (- {FIQ}) h m0 p'"
proof -
  have m: "mode_of cpsr \<in> - {FIQ}" using assms(2) by simp
  have "outcome {} (\<lambda>(rc, p'). core_inv (- {FIQ}) h m0 p') (arm_fetch_code_inst inst cpsr p)"
    using assms(1,3,4) m unfolding arm_fetch_code_inst_def Let_def
    by (auto intro: not_fiq.arm_branch_outcome not_fiq.arm_miscellaneous_outcome
      not_fiq.arm_miscellaneous_2_outcome not_fiq.arm_multiply_outcome
      not_fiq.data_processing_outcome)
  then show ?thesis by (auto simp: outcome_Inr_iff)
qed

theorem computations_never_fault_witness:
  "\<exists>rc p'. arm_fetch_code_inst 0xE0821003 0x153 (demo_sim []) = Inr (rc, p')"
proof -
  let ?p = "demo_sim []"
  have "core_inv (- {FIQ}) (sim_host ?p) (mem ?p) ?p"
    unfolding core_inv_def modes_in_def
  proof (intro conjI allI impI)
    fix mode v assume "raw ?p SPSR mode = Inr v"
    moreover have "\<exists>k. cell SPSR mode = Inr k"
      using calculation wf_demo_sim [of "[]"]
      by (cases "cell SPSR mode") (auto simp: raw_def wf_sim_def registers_read_cell)
    ultimately have "v = 0" using raw_demo_sim [of "[]" SPSR mode] by auto
    then show "mode_of v \<in> - {FIQ}" by (simp add: mode_of_take_bit)
  qed (use wf_demo_sim [of "[]"] in \<open>simp_all add: demo_sim_simps mode_of_take_bit\<close>)
  moreover have "mode_of 0x153 \<noteq> FIQ" "get_bits 0xE0821003 27 25 = 0" "\<not> bit (0xE0821003 :: u32) 4"
    by code_simp+
  ultimately show ?thesis
    using computations_never_fault [of "sim_host ?p" "mem ?p" ?p "0x153" "0xE0821003"] by auto
qed

end
