(* ===== verification/Breakpoints.thy ===== *)
theory Breakpoints
  imports Prelude
begin

text \<open>
  The table of breakpoints of \<^verbatim>\<open>gdb_protocol.c\<close>: an array of 1024 addresses of which the first
  \<^verbatim>\<open>breakpoints_number\<close> are in use, in increasing order, with binary search, insertion and
  removal. The functions take the structure the debugger keeps; here they work on any record that
  extends the two fields.
\<close>

section \<open>Operations\<close>

definition MAX_BREAKPOINTS_NUMBER :: nat where
  "MAX_BREAKPOINTS_NUMBER = 1024"

record breakpoint_table =
  breakpoints :: "u32 list"
  breakpoints_number :: nat

text \<open>The binary search between \<open>begin\<close> (included) and \<open>end\<close> (excluded).\<close>

function find_loop :: "u32 list \<Rightarrow> u32 \<Rightarrow> nat \<Rightarrow> nat \<Rightarrow> int res" where
  "find_loop bps address lo hi =
     (if lo < hi then
        (let middle = (lo + hi) div 2 in
         bindR (load bps middle) (\<lambda>b.
         if b > address then find_loop bps address lo middle
         else if b < address then find_loop bps address (middle + 1) hi
         else Inr (int middle)))
      else Inr (-1))"
  by pat_completeness auto
termination
  by (relation "measure (\<lambda>(bps, address, lo, hi). hi - lo)") auto

declare find_loop.simps [simp del]

definition gdb_find_breakpoint :: "'a breakpoint_table_scheme \<Rightarrow> u32 \<Rightarrow> int res" where
  "gdb_find_breakpoint gdb address = find_loop (breakpoints gdb) address 0 (breakpoints_number gdb)"

text \<open>The loop that moves the greater addresses up: the array and the index of the gap.\<close>

fun shift_up :: "u32 list \<Rightarrow> u32 \<Rightarrow> nat \<Rightarrow> (u32 list \<times> nat) res" where
  "shift_up bps address 0 = Inr (bps, 0)"
| "shift_up bps address (Suc j) =
     bindR (load bps j) (\<lambda>b.
     if b > address then
       bindR (store bps (Suc j) b) (\<lambda>bps. shift_up bps address j)
     else Inr (bps, Suc j))"

definition gdb_add_breakpoint ::
    "'a breakpoint_table_scheme \<Rightarrow> u32 \<Rightarrow> (int \<times> 'a breakpoint_table_scheme) res" where
  "gdb_add_breakpoint gdb address =
     (if breakpoints_number gdb < MAX_BREAKPOINTS_NUMBER then
        bindR (gdb_find_breakpoint gdb address) (\<lambda>position.
        if position \<noteq> -1 then Inr (1, gdb)
        else
          (let j = breakpoints_number gdb;
               gdb = gdb\<lparr>breakpoints_number := j + 1\<rparr>
           in
           bindR (shift_up (breakpoints gdb) address j) (\<lambda>(bps, j).
           bindR (store bps j address) (\<lambda>bps.
           Inr (1, gdb\<lparr>breakpoints := bps\<rparr>)))))
      else Inr (0, gdb))"

text \<open>The loop that moves the addresses from \<open>j\<close> to \<open>last\<close> down.\<close>

function shift_down :: "u32 list \<Rightarrow> nat \<Rightarrow> nat \<Rightarrow> u32 list res" where
  "shift_down bps j last' =
     (if j < last' then
        bindR (load bps (j + 1)) (\<lambda>b.
        bindR (store bps j b) (\<lambda>bps.
        shift_down bps (j + 1) last'))
      else Inr bps)"
  by pat_completeness auto
termination
  by (relation "measure (\<lambda>(bps, j, last'). last' - j)") auto

declare shift_down.simps [simp del]

definition gdb_remove_breakpoint ::
    "'a breakpoint_table_scheme \<Rightarrow> u32 \<Rightarrow> (int \<times> 'a breakpoint_table_scheme) res" where
  "gdb_remove_breakpoint gdb address =
     bindR (gdb_find_breakpoint gdb address) (\<lambda>position.
     if position = -1 then Inr (0, gdb)
     else
       (let last' = breakpoints_number gdb - 1;
            gdb = gdb\<lparr>breakpoints_number := last'\<rparr>
        in
        bindR (shift_down (breakpoints gdb) (nat position) last') (\<lambda>bps.
        Inr (1, gdb\<lparr>breakpoints := bps\<rparr>))))"

section \<open>Sorted tables and the set they stand for\<close>

definition active :: "'a breakpoint_table_scheme \<Rightarrow> u32 list" where
  "active gdb = take (breakpoints_number gdb) (breakpoints gdb)"

definition wf_table :: "'a breakpoint_table_scheme \<Rightarrow> bool" where
  "wf_table gdb \<longleftrightarrow> length (breakpoints gdb) = MAX_BREAKPOINTS_NUMBER
     \<and> breakpoints_number gdb \<le> MAX_BREAKPOINTS_NUMBER
     \<and> sorted_wrt (<) (active gdb)"

definition breakpoint_set :: "'a breakpoint_table_scheme \<Rightarrow> u32 set" where
  "breakpoint_set gdb = set (active gdb)"

lemma find_loop_correct:
  assumes "hi \<le> n" "n \<le> length bps" "sorted_wrt (<) (take n bps)"
    "\<forall>i < lo. bps ! i < address" "\<forall>i. hi \<le> i \<longrightarrow> i < n \<longrightarrow> address < bps ! i" "lo \<le> hi"
  shows "(\<exists>i < n. bps ! i = address \<and> find_loop bps address lo hi = Inr (int i))
       \<or> address \<notin> set (take n bps) \<and> find_loop bps address lo hi = Inr (-1)"
  using assms
proof (induction bps address lo hi rule: find_loop.induct)
  case (1 bps address lo hi)
  have srt: "i < j \<Longrightarrow> j < n \<Longrightarrow> bps ! i < bps ! j" for i j
    using sorted_wrt_nth_less [OF "1.prems"(3), of i j] "1.prems"(2) by simp
  show ?case
  proof (cases "lo < hi")
    case False
    then have "address \<noteq> bps ! i" if "i < n" for i
      using "1.prems"(4,5,6) that False by (metis le_antisym less_irrefl not_less)
    then have "address \<notin> set (take n bps)"
      using "1.prems"(2) by (auto simp: in_set_conv_nth)
    with False show ?thesis by (subst (2) find_loop.simps) (simp add: find_loop.simps)
  next
    case True
    define m where "m = (lo + hi) div 2"
    have m: "lo \<le> m" "m < hi" "m < n" "m < length bps" using True "1.prems"(1,2) by (auto simp: m_def)
    have step: "find_loop bps address lo hi =
        (if bps ! m > address then find_loop bps address lo m
         else if bps ! m < address then find_loop bps address (m + 1) hi else Inr (int m))"
      using True m by (subst find_loop.simps) (simp add: Let_def flip: m_def)
    consider "address < bps ! m" | "bps ! m < address" | "bps ! m = address" by force
    then show ?thesis
    proof cases
      case 1
      then have "address < bps ! i" if "m \<le> i" "i < n" for i
        using that srt [of m i] by (cases "i = m") auto
      with "1.IH"(1) [OF True m_def _ 1] 1 step m "1.prems" show ?thesis by simp
    next
      case 2
      then have "bps ! i < address" if "i < m + 1" for i
        using that srt [of i m] m by (cases "i = m") auto
      moreover have "find_loop bps address lo hi = find_loop bps address (m + 1) hi"
        using 2 step by (simp add: less_not_sym)
      moreover have "\<not> address < bps ! m" using 2 by simp
      ultimately show ?thesis using "1.IH"(2) [OF True m_def _ _ 2] 2 m "1.prems" by simp
    next
      case 3
      with step m show ?thesis by auto
    qed
  qed
qed


lemma gdb_find_breakpoint_correct:
  assumes "wf_table gdb"
  obtains (found) i where "i < breakpoints_number gdb" "breakpoints gdb ! i = address"
      "gdb_find_breakpoint gdb address = Inr (int i)" "address \<in> breakpoint_set gdb"
  | (absent) "gdb_find_breakpoint gdb address = Inr (-1)" "address \<notin> breakpoint_set gdb"
proof -
  let ?n = "breakpoints_number gdb"
  have w: "?n \<le> length (breakpoints gdb)" "sorted_wrt (<) (take ?n (breakpoints gdb))"
    using assms by (simp_all add: wf_table_def active_def)
  have mem: "address \<in> breakpoint_set gdb" if "i < ?n" "breakpoints gdb ! i = address" for i
    using that w(1) by (auto simp: breakpoint_set_def active_def in_set_conv_nth)
  have "(\<exists>i < ?n. breakpoints gdb ! i = address \<and> gdb_find_breakpoint gdb address = Inr (int i))
      \<or> address \<notin> breakpoint_set gdb \<and> gdb_find_breakpoint gdb address = Inr (-1)"
    using find_loop_correct [OF order_refl w, of 0 address]
    by (simp add: gdb_find_breakpoint_def breakpoint_set_def active_def)
  then show thesis
  proof (elim disjE exE conjE)
    fix i assume "i < ?n" "breakpoints gdb ! i = address"
      "gdb_find_breakpoint gdb address = Inr (int i)"
    then show thesis using mem by (intro found) simp_all
  qed (rule absent)
qed

lemma shift_up_correct:
  assumes "j < length bps"
  shows "\<exists>bps' k. shift_up bps address j = Inr (bps', k) \<and> k \<le> j \<and> length bps' = length bps
    \<and> (\<forall>i < length bps. bps' ! i = (if k < i \<and> i \<le> j then bps ! (i - 1) else bps ! i))
    \<and> (k = 0 \<or> bps ! (k - 1) \<le> address) \<and> (\<forall>i. k \<le> i \<longrightarrow> i < j \<longrightarrow> address < bps ! i)"
  using assms
proof (induction j arbitrary: bps)
  case (Suc j)
  show ?case
  proof (cases "address < bps ! j")
    case True
    obtain bps' k where ih: "shift_up (bps[Suc j := bps ! j]) address j = Inr (bps', k)" "k \<le> j"
      "length bps' = length bps"
      "\<And>i. i < length bps \<Longrightarrow> bps' ! i =
         (if k < i \<and> i \<le> j then (bps[Suc j := bps ! j]) ! (i - 1) else (bps[Suc j := bps ! j]) ! i)"
      "k = 0 \<or> (bps[Suc j := bps ! j]) ! (k - 1) \<le> address"
      "\<And>i. k \<le> i \<Longrightarrow> i < j \<Longrightarrow> address < (bps[Suc j := bps ! j]) ! i"
      using Suc.IH [of "bps[Suc j := bps ! j]"] Suc.prems by auto
    have "address < bps ! i" if "k \<le> i" "i < Suc j" for i
      using ih(6) [of i] True that by (cases "i = j") auto
    moreover have "bps' ! i = (if k < i \<and> i \<le> Suc j then bps ! (i - 1) else bps ! i)"
      if "i < length bps" for i
      using ih(2) ih(4) [OF that] that by (cases "i = Suc j") auto
    ultimately show ?thesis
      using ih(1-3,5) True Suc.prems by (intro exI [of _ bps'] exI [of _ k]) auto
  qed (use Suc.prems in auto)
qed simp

lemma shift_down_correct:
  assumes "l < length bps" "j \<le> l"
  shows "\<exists>bps'. shift_down bps j l = Inr bps' \<and> length bps' = length bps
    \<and> (\<forall>i < length bps. bps' ! i = (if j \<le> i \<and> i < l then bps ! (i + 1) else bps ! i))"
  using assms
proof (induction bps j l rule: shift_down.induct)
  case (1 bps j l)
  show ?case
  proof (cases "j < l")
    case True
    let ?b = "bps[j := bps ! (j + 1)]"
    have e: "shift_down bps j l = shift_down ?b (j + 1) l"
      using True "1.prems"(1) by (subst shift_down.simps) simp
    obtain bps' where "shift_down ?b (j + 1) l = Inr bps'" "length bps' = length bps"
      "\<And>i. i < length bps \<Longrightarrow> bps' ! i = (if j + 1 \<le> i \<and> i < l then ?b ! (i + 1) else ?b ! i)"
      using "1.IH" [OF True, of "bps ! (j + 1)" ?b] True "1.prems"(1) by auto
    with True "1.prems"(1) show ?thesis
      unfolding e by (auto simp: nth_list_update le_less)
  next
    case False
    then show ?thesis by (subst shift_down.simps) auto
  qed
qed

lemma sorted_insert_at:
  assumes "sorted_wrt (<) xs" "k \<le> length xs" "k = 0 \<or> xs ! (k - 1) \<le> (a :: 'a :: linorder)"
    "\<forall>i. k \<le> i \<longrightarrow> i < length xs \<longrightarrow> a < xs ! i" "a \<notin> set xs"
  shows "sorted_wrt (<) (take k xs @ a # drop k xs)"
proof -
  have "x < a" if x: "x \<in> set (take k xs)" for x
  proof -
    obtain i where "i < length (take k xs)" "take k xs ! i = x"
      using x unfolding in_set_conv_nth by blast
    then have i: "i < k" "i < length xs" "x = xs ! i" by auto
    then have "xs ! i \<le> xs ! (k - 1)"
    proof (cases "i = k - 1")
      case False
      then have "i < k - 1" "k - 1 < length xs" using i(1) assms(2) by linarith+
      then show ?thesis using sorted_wrt_nth_less [OF assms(1)] by (blast intro: less_imp_le)
    qed simp
    with i assms(3,5) show ?thesis by (metis le_neq_trans nth_mem order_trans not_less_zero)
  qed
  moreover have "a < x" if "x \<in> set (drop k xs)" for x
    using that assms(2,4) by (auto simp: in_set_conv_nth)
  ultimately show ?thesis
    using assms(1) by (subst (asm) append_take_drop_id [of k xs, symmetric])
      (auto simp: sorted_wrt_append simp del: append_take_drop_id dest: less_trans)
qed


lemma gdb_add_breakpoint_correct:
  assumes "wf_table gdb" "breakpoints_number gdb < MAX_BREAKPOINTS_NUMBER"
  shows "\<exists>bps n. gdb_add_breakpoint gdb address = Inr (1, gdb\<lparr>breakpoints := bps, breakpoints_number := n\<rparr>)
    \<and> wf_table (gdb\<lparr>breakpoints := bps, breakpoints_number := n\<rparr>)
    \<and> breakpoint_set (gdb\<lparr>breakpoints := bps, breakpoints_number := n\<rparr>) = insert address (breakpoint_set gdb)"
proof (rule gdb_find_breakpoint_correct [OF assms(1), of address])
  fix i assume "gdb_find_breakpoint gdb address = Inr (int i)" "address \<in> breakpoint_set gdb"
  with assms show ?thesis
    by (intro exI [of _ "breakpoints gdb"] exI [of _ "breakpoints_number gdb"])
      (auto simp: gdb_add_breakpoint_def)
next
  assume absent: "gdb_find_breakpoint gdb address = Inr (-1)" "address \<notin> breakpoint_set gdb"
  let ?n = "breakpoints_number gdb" and ?x = "active gdb"
  have len: "length (breakpoints gdb) = 1024" "?n < 1024"
    using assms by (simp_all add: wf_table_def MAX_BREAKPOINTS_NUMBER_def)
  then have lx: "length ?x = ?n" by (simp add: active_def)
  have x: "?x ! i = breakpoints gdb ! i" if "i < ?n" for i using that by (simp add: active_def)
  obtain bps k where up: "shift_up (breakpoints gdb) address ?n = Inr (bps, k)" "k \<le> ?n"
    "length bps = 1024"
    "\<And>i. i < 1024 \<Longrightarrow> bps ! i =
       (if k < i \<and> i \<le> ?n then breakpoints gdb ! (i - 1) else breakpoints gdb ! i)"
    "k = 0 \<or> breakpoints gdb ! (k - 1) \<le> address"
    "\<And>i. k \<le> i \<Longrightarrow> i < ?n \<Longrightarrow> address < breakpoints gdb ! i"
    using shift_up_correct [of ?n "breakpoints gdb" address] len by auto
  let ?g = "gdb\<lparr>breakpoints := bps[k := address], breakpoints_number := ?n + 1\<rparr>"
  have act: "active ?g = take k ?x @ address # drop k ?x"
  proof (rule nth_equalityI)
    show "length (active ?g) = length (take k ?x @ address # drop k ?x)"
      using up(2,3) len lx by (simp add: active_def)
    fix i assume "i < length (active ?g)"
    then have "i < ?n + 1" "i < 1024" using len up(3) by (auto simp: active_def)
    then show "active ?g ! i = (take k ?x @ address # drop k ?x) ! i"
      using up(2-4) len lx x by (auto simp: active_def nth_append nth_Cons' nth_list_update)
  qed
  have "sorted_wrt (<) (active ?g)"
    unfolding act
  proof (rule sorted_insert_at)
    show "sorted_wrt (<) ?x" using assms(1) by (simp add: wf_table_def)
    have "k = 0 \<or> k - 1 < ?n" using up(2) by linarith
    then show "k = 0 \<or> ?x ! (k - 1) \<le> address" using up(5) x [of "k - 1"] by auto
    show "\<forall>i. k \<le> i \<longrightarrow> i < length ?x \<longrightarrow> address < ?x ! i" using up(6) x lx by auto
  qed (use up(2) lx absent(2) in \<open>auto simp: breakpoint_set_def\<close>)
  then have "wf_table ?g" using up(3) len by (simp add: wf_table_def MAX_BREAKPOINTS_NUMBER_def)
  moreover have "breakpoint_set ?g = insert address (breakpoint_set gdb)"
    using append_take_drop_id [of k ?x] unfolding breakpoint_set_def act
    by (metis Un_insert_right list.simps(15) set_append)
  moreover have "gdb_add_breakpoint gdb address = Inr (1, ?g)"
    using absent(1) assms(2) up(1-3) len by (simp add: gdb_add_breakpoint_def Let_def)
  ultimately show ?thesis by blast
qed

lemma gdb_add_breakpoint_full:
  "breakpoints_number gdb \<ge> MAX_BREAKPOINTS_NUMBER \<Longrightarrow> gdb_add_breakpoint gdb address = Inr (0, gdb)"
  by (simp add: gdb_add_breakpoint_def)

lemma gdb_remove_breakpoint_correct:
  assumes "wf_table gdb" "address \<in> breakpoint_set gdb"
  shows "\<exists>bps n. gdb_remove_breakpoint gdb address = Inr (1, gdb\<lparr>breakpoints := bps, breakpoints_number := n\<rparr>)
    \<and> wf_table (gdb\<lparr>breakpoints := bps, breakpoints_number := n\<rparr>)
    \<and> breakpoint_set (gdb\<lparr>breakpoints := bps, breakpoints_number := n\<rparr>) = breakpoint_set gdb - {address}"
proof (rule gdb_find_breakpoint_correct [OF assms(1), of address])
  let ?n = "breakpoints_number gdb" and ?x = "active gdb"
  fix p assume p: "p < ?n" "breakpoints gdb ! p = address"
    "gdb_find_breakpoint gdb address = Inr (int p)"
  have len: "length (breakpoints gdb) = 1024" "?n \<le> 1024"
    using assms by (simp_all add: wf_table_def MAX_BREAKPOINTS_NUMBER_def)
  then have lx: "length ?x = ?n" by (simp add: active_def)
  have x: "?x ! i = breakpoints gdb ! i" if "i < ?n" for i using that by (simp add: active_def)
  have srt: "sorted_wrt (<) ?x" using assms(1) by (simp add: wf_table_def)
  obtain bps where down: "shift_down (breakpoints gdb) p (?n - 1) = Inr bps" "length bps = 1024"
    "\<And>i. i < 1024 \<Longrightarrow> bps ! i =
       (if p \<le> i \<and> i < ?n - 1 then breakpoints gdb ! (i + 1) else breakpoints gdb ! i)"
  proof -
    have "?n - 1 < length (breakpoints gdb)" "p \<le> ?n - 1" using len p(1) by linarith+
    then show ?thesis using shift_down_correct [of "?n - 1" "breakpoints gdb" p] len(1) that by auto
  qed
  let ?g = "gdb\<lparr>breakpoints := bps, breakpoints_number := ?n - 1\<rparr>"
  have act: "active ?g = take p ?x @ drop (Suc p) ?x"
  proof (rule nth_equalityI)
    show "length (active ?g) = length (take p ?x @ drop (Suc p) ?x)"
      using p(1) down(2) len lx by (simp add: active_def)
    fix i assume "i < length (active ?g)"
    then have "i < ?n - 1" "i < 1024" using len down(2) by (auto simp: active_def)
    then show "active ?g ! i = (take p ?x @ drop (Suc p) ?x) ! i"
      using p(1) down len lx x by (auto simp: active_def nth_append)
  qed
  have split: "?x = take p ?x @ address # drop (Suc p) ?x"
    using p lx x [of p] by (metis id_take_nth_drop)
  have "sorted_wrt (<) (active ?g)"
    using srt unfolding act by (subst (asm) split) (auto simp: sorted_wrt_append)
  then have "wf_table ?g"
    using down(2) len by (simp add: wf_table_def MAX_BREAKPOINTS_NUMBER_def)
  moreover have "address \<notin> set (take p ?x @ drop (Suc p) ?x)"
    using srt by (subst (asm) split) (auto simp: sorted_wrt_append)
  then have "breakpoint_set ?g = breakpoint_set gdb - {address}"
    unfolding breakpoint_set_def act by (subst (2) split) auto
  moreover have "gdb_remove_breakpoint gdb address = Inr (1, ?g)"
    using p(3) down(1) by (simp add: gdb_remove_breakpoint_def Let_def)
  ultimately show ?thesis by blast
qed (use assms(2) in blast)

lemma gdb_remove_breakpoint_absent:
  assumes "wf_table gdb" "address \<notin> breakpoint_set gdb"
  shows "gdb_remove_breakpoint gdb address = Inr (0, gdb)"
  by (rule gdb_find_breakpoint_correct [OF assms(1), of address])
    (use assms(2) in \<open>auto simp: gdb_remove_breakpoint_def\<close>)


section \<open>The interface: a set of bounded size\<close>

text \<open>
  What the debugger relies on: a bounded set with a membership test and reported insertions and
  removals. A client that issues any sequence of commands gets the replies of the abstract set.
\<close>

datatype breakpoint_command = Set_Breakpoint u32 | Clear_Breakpoint u32

fun run_commands ::
    "('t \<Rightarrow> u32 \<Rightarrow> (int \<times> 't) res) \<Rightarrow> ('t \<Rightarrow> u32 \<Rightarrow> (int \<times> 't) res)
     \<Rightarrow> breakpoint_command list \<Rightarrow> 't \<Rightarrow> (int list \<times> 't) res" where
  "run_commands add remove [] t = Inr ([], t)"
| "run_commands add remove (c # cs) t =
     bindR (case c of Set_Breakpoint a \<Rightarrow> add t a | Clear_Breakpoint a \<Rightarrow> remove t a) (\<lambda>(r, t).
     bindR (run_commands add remove cs t) (\<lambda>(rs, t). Inr (r # rs, t)))"

fun set_commands :: "nat \<Rightarrow> breakpoint_command list \<Rightarrow> u32 set \<Rightarrow> int list \<times> u32 set" where
  "set_commands cap [] A = ([], A)"
| "set_commands cap (Set_Breakpoint a # cs) A =
     (let (r, A) = (if card A < cap then (1, insert a A) else (0, A));
          (rs, A) = set_commands cap cs A
      in (r # rs, A))"
| "set_commands cap (Clear_Breakpoint a # cs) A =
     (let (rs, B) = set_commands cap cs (A - {a}) in ((if a \<in> A then 1 else 0) # rs, B))"

locale bounded_set =
  fixes find :: "'t \<Rightarrow> u32 \<Rightarrow> int res"
    and add :: "'t \<Rightarrow> u32 \<Rightarrow> (int \<times> 't) res"
    and remove :: "'t \<Rightarrow> u32 \<Rightarrow> (int \<times> 't) res"
    and inv :: "'t \<Rightarrow> bool"
    and elems :: "'t \<Rightarrow> u32 set"
    and cap :: nat
  assumes find_elems: "inv t \<Longrightarrow> \<exists>r. find t a = Inr r \<and> (r = -1 \<longleftrightarrow> a \<notin> elems t)"
    and add_room: "inv t \<Longrightarrow> card (elems t) < cap \<Longrightarrow>
      \<exists>t'. add t a = Inr (1, t') \<and> inv t' \<and> elems t' = insert a (elems t)"
    and add_full: "inv t \<Longrightarrow> cap \<le> card (elems t) \<Longrightarrow> add t a = Inr (0, t)"
    and remove_present: "inv t \<Longrightarrow> a \<in> elems t \<Longrightarrow>
      \<exists>t'. remove t a = Inr (1, t') \<and> inv t' \<and> elems t' = elems t - {a}"
    and remove_absent: "inv t \<Longrightarrow> a \<notin> elems t \<Longrightarrow> remove t a = Inr (0, t)"
begin

lemma add_spec: "inv t \<Longrightarrow> \<exists>t'. add t a = Inr (if card (elems t) < cap then 1 else 0, t') \<and> inv t'
    \<and> elems t' = (if card (elems t) < cap then insert a (elems t) else elems t)"
  using add_room [of t a] add_full [of t a] by (cases "card (elems t) < cap") auto

lemma remove_spec: "inv t \<Longrightarrow> \<exists>t'. remove t a = Inr (if a \<in> elems t then 1 else 0, t') \<and> inv t'
    \<and> elems t' = elems t - {a}"
  using remove_present [of t a] remove_absent [of t a] by (cases "a \<in> elems t") auto

lemma run_refines_set:
  "inv t \<Longrightarrow> \<exists>t'. run_commands add remove cs t = Inr (fst (set_commands cap cs (elems t)), t')
     \<and> inv t' \<and> elems t' = snd (set_commands cap cs (elems t))"
proof (induction cs arbitrary: t)
  case (Cons c cs)
  show ?case
  proof (cases c)
    case (Set_Breakpoint a)
    obtain t1 where t1: "add t a = Inr (if card (elems t) < cap then 1 else 0, t1)" "inv t1"
      "elems t1 = (if card (elems t) < cap then insert a (elems t) else elems t)"
      using add_spec [OF Cons.prems] by blast
    from Cons.IH [OF t1(2)] t1 Set_Breakpoint show ?thesis
      by (cases "card (elems t) < cap") (auto simp: split_beta)
  next
    case (Clear_Breakpoint a)
    obtain t1 where t1: "remove t a = Inr (if a \<in> elems t then 1 else 0, t1)" "inv t1"
      "elems t1 = elems t - {a}"
      using remove_spec [OF Cons.prems] by blast
    from Cons.IH [OF t1(2)] t1 Clear_Breakpoint show ?thesis
      by (auto simp: split_beta)
  qed
qed simp

end

lemma card_breakpoint_set: "wf_table gdb \<Longrightarrow> card (breakpoint_set gdb) = breakpoints_number gdb"
proof -
  assume w: "wf_table gdb"
  then have "distinct (active gdb)"
    by (auto simp: wf_table_def strict_sorted_iff)
  with w show ?thesis
    by (simp add: breakpoint_set_def distinct_card) (simp add: active_def wf_table_def)
qed

interpretation bps: bounded_set gdb_find_breakpoint gdb_add_breakpoint gdb_remove_breakpoint
  wf_table breakpoint_set MAX_BREAKPOINTS_NUMBER
proof unfold_locales
  fix t :: "'a breakpoint_table_scheme" and a
  assume w: "wf_table t"
  show "\<exists>r. gdb_find_breakpoint t a = Inr r \<and> (r = -1 \<longleftrightarrow> a \<notin> breakpoint_set t)"
    by (rule gdb_find_breakpoint_correct [OF w, of a]) auto
  show "card (breakpoint_set t) < MAX_BREAKPOINTS_NUMBER \<Longrightarrow>
    \<exists>t'. gdb_add_breakpoint t a = Inr (1, t') \<and> wf_table t'
       \<and> breakpoint_set t' = insert a (breakpoint_set t)"
    using gdb_add_breakpoint_correct [OF w] by (fastforce simp: card_breakpoint_set [OF w])
  show "MAX_BREAKPOINTS_NUMBER \<le> card (breakpoint_set t) \<Longrightarrow> gdb_add_breakpoint t a = Inr (0, t)"
    by (simp add: card_breakpoint_set [OF w] gdb_add_breakpoint_full)
  show "a \<in> breakpoint_set t \<Longrightarrow> \<exists>t'. gdb_remove_breakpoint t a = Inr (1, t') \<and> wf_table t'
       \<and> breakpoint_set t' = breakpoint_set t - {a}"
    using gdb_remove_breakpoint_correct [OF w] by fastforce
  show "a \<notin> breakpoint_set t \<Longrightarrow> gdb_remove_breakpoint t a = Inr (0, t)"
    by (rule gdb_remove_breakpoint_absent [OF w])
qed

section \<open>Properties\<close>

text \<open>On a table in increasing order the binary search finds an address exactly when it is one of
  the breakpoints, at its position, and never reads outside the array.\<close>

theorem find_breakpoint_correct:
  assumes "wf_table gdb"
  shows "\<exists>r. gdb_find_breakpoint gdb address = Inr r
    \<and> (r = -1 \<longleftrightarrow> address \<notin> breakpoint_set gdb)
    \<and> (address \<in> breakpoint_set gdb \<longrightarrow> 0 \<le> r \<and> breakpoints gdb ! nat r = address)"
  by (rule gdb_find_breakpoint_correct [OF assms, of address]) auto

text \<open>C32: Any sequence of breakpoint commands gets the replies of a set of at most 1024 addresses, and
  leaves a table in increasing order that stands for that set; in particular no array access is out
  of bounds.\<close>

theorem breakpoint_commands_refine_set:
  assumes "wf_table gdb"
  shows "\<exists>gdb'. run_commands gdb_add_breakpoint gdb_remove_breakpoint cs gdb
      = Inr (fst (set_commands 1024 cs (breakpoint_set gdb)), gdb')
    \<and> wf_table gdb' \<and> breakpoint_set gdb' = snd (set_commands 1024 cs (breakpoint_set gdb))"
  using bps.run_refines_set [OF assms] by (simp add: MAX_BREAKPOINTS_NUMBER_def)

definition empty_table :: breakpoint_table where
  "empty_table = \<lparr>breakpoints = replicate 1024 0, breakpoints_number = 0\<rparr>"

lemma wf_empty_table: "wf_table empty_table" "breakpoint_set empty_table = {}"
  by (simp_all add: empty_table_def wf_table_def active_def breakpoint_set_def
      MAX_BREAKPOINTS_NUMBER_def)

theorem find_breakpoint_correct_witness:
  "\<exists>r. gdb_find_breakpoint empty_table 0x8000 = Inr r
    \<and> (r = -1 \<longleftrightarrow> 0x8000 \<notin> breakpoint_set empty_table)
    \<and> (0x8000 \<in> breakpoint_set empty_table \<longrightarrow> 0 \<le> r \<and> breakpoints empty_table ! nat r = 0x8000)"
  by (rule find_breakpoint_correct [OF wf_empty_table(1)])

theorem breakpoint_commands_refine_set_witness:
  "\<exists>gdb'. run_commands gdb_add_breakpoint gdb_remove_breakpoint
        [Set_Breakpoint 8, Set_Breakpoint 4, Set_Breakpoint 8, Clear_Breakpoint 4,
         Clear_Breakpoint 12] empty_table = Inr ([1, 1, 1, 1, 0], gdb')
    \<and> wf_table gdb' \<and> breakpoint_set gdb' = {8}"
  using breakpoint_commands_refine_set [OF wf_empty_table(1), of
    "[Set_Breakpoint 8, Set_Breakpoint 4, Set_Breakpoint 8, Clear_Breakpoint 4, Clear_Breakpoint 12]"]
  by (simp add: wf_empty_table insert_commute insert_Diff_if)

end
