(* ===== verification/Trace.thy ===== *)
theory Trace
  imports Registers Stdio
begin

text \<open>
  The trace of \<^verbatim>\<open>trace.c\<close> in its default format: the options, the stack of source locations, and
  the text written for memory accesses, register accesses and the state of the processor. The module's
  static variables are the fields of one record, with the text written so far.
\<close>

section \<open>State\<close>

abbreviation MEMORY :: int where "MEMORY \<equiv> 32"
abbreviation REGISTERS :: int where "REGISTERS \<equiv> 64"
abbreviation STATE :: int where "STATE \<equiv> 128"
abbreviation POSITION :: int where "POSITION \<equiv> 256"

record trace_data =
  trace_output :: string
  last_address :: u32
  enabled :: bool
  location_file_stack :: "string list"
  location_line_stack :: "int list"
  location_stack_top :: int
  trace_flags :: int
  states :: "bool list"

definition trace_initial :: trace_data where
  "trace_initial =
     \<lparr>trace_output = [], last_address = 0x12345678, enabled = True,
      location_file_stack = replicate 128 [], location_line_stack = replicate 128 0,
      location_stack_top = -1, trace_flags = 0, states = replicate 32 False\<rparr>"

definition trace_memory_seq :: "string list" where "trace_memory_seq = ['''', '''']"
definition trace_memory_cause :: "string list" where "trace_memory_cause = ['''', '', fetch'']"
definition trace_memory_type :: "string list" where "trace_memory_type = [''write'', ''read'']"
definition trace_register_type :: "string list" where "trace_register_type = [''write'', ''read'']"

section \<open>Operations\<close>

definition fprint :: "string \<Rightarrow> trace_data \<Rightarrow> trace_data" where
  "fprint s t = t\<lparr>trace_output := trace_output t @ s\<rparr>"

definition trace_start_location :: "string \<Rightarrow> int \<Rightarrow> trace_data \<Rightarrow> trace_data res" where
  "trace_start_location file line t =
     (if enabled t then
        (let top = location_stack_top t + 1; t = t\<lparr>location_stack_top := top\<rparr> in
         if top < 0 then Inl Out_Of_Bounds
         else
           bindR (store (location_file_stack t) (nat top) file) (\<lambda>files.
           bindR (store (location_line_stack t) (nat top) line) (\<lambda>lines.
           Inr (t\<lparr>location_file_stack := files, location_line_stack := lines\<rparr>))))
      else Inr t)"

definition trace_end_location :: "trace_data \<Rightarrow> trace_data" where
  "trace_end_location t =
     (if enabled t then t\<lparr>location_stack_top := location_stack_top t - 1\<rparr> else t)"

definition trace_print_location :: "trace_data \<Rightarrow> trace_data res" where
  "trace_print_location t =
     (if enabled t \<and> trace_flags t AND POSITION \<noteq> 0 then
        (if location_stack_top t \<ge> 0 then
           bindR (load (location_file_stack t) (nat (location_stack_top t))) (\<lambda>file.
           bindR (load (location_line_stack t) (nat (location_stack_top t))) (\<lambda>line.
           Inr (fprint (file @ '', '' @ format_d (word_of_int line) @ '': '') t)))
         else Inr t)
      else Inr t)"

definition trace_memory ::
    "u32 \<Rightarrow> nat \<Rightarrow> nat \<Rightarrow> nat \<Rightarrow> u32 \<Rightarrow> u32 \<Rightarrow> trace_data \<Rightarrow> trace_data res" where
  "trace_memory cycle type size' cause address val t =
     (if enabled t \<and> trace_flags t AND MEMORY \<noteq> 0 then
        (let seq = (if address = last_address t + 4 then 1 else 0);
             t = t\<lparr>last_address := address\<rparr>
         in
         bindR (trace_print_location t) (\<lambda>t.
         bindR (load trace_memory_seq seq) (\<lambda>s.
         bindR (load trace_memory_type type) (\<lambda>ty.
         bindR (load trace_memory_cause cause) (\<lambda>ca.
         Inr (fprint (''Cycle '' @ format_d cycle @ '', Mem '' @ s @ ty @ '' ('' @ show_dec size'
           @ '' bytes'' @ ca @ '') addr: '' @ format_08X address @ '', val: '' @ format_08X val
           @ [CHR 0x0A]) t))))))
      else Inr t)"

definition trace_register ::
    "u32 \<Rightarrow> nat \<Rightarrow> nat \<Rightarrow> nat \<Rightarrow> u32 \<Rightarrow> trace_data \<Rightarrow> trace_data res" where
  "trace_register cycle type reg mode val t =
     (if enabled t \<and> trace_flags t AND REGISTERS \<noteq> 0 then
        bindR (arm_get_mode_name mode) (\<lambda>name.
        let mode_name = (case name of None \<Rightarrow> [] | Some n \<Rightarrow> ''_'' @ n) in
        bindR (trace_print_location t) (\<lambda>t.
        bindR (arm_get_register_name reg) (\<lambda>r.
        bindR (load trace_register_type type) (\<lambda>ty.
        Inr (fprint (''Cycle '' @ format_d cycle @ '', Register '' @ r @ '', '' @ ty @ mode_name
          @ '', val: '' @ format_08X val @ [CHR 0x0A]) t)))))
      else Inr t)"

text \<open>The two loops of \<^verbatim>\<open>trace_arm_state\<close>: over the registers of a mode, and over the modes.\<close>

fun state_registers :: "host \<Rightarrow> registers \<Rightarrow> nat \<Rightarrow> nat list \<Rightarrow> nat \<Rightarrow> trace_data \<Rightarrow> trace_data res" where
  "state_registers h r mode [] count t = Inr t"
| "state_registers h r mode (reg # regs) count t =
     (let t = (if count > 0 \<and> count mod 5 = 0 then fprint (CHR 0x0A # ''    '') t else t) in
      bindR (arm_get_register_name reg) (\<lambda>name.
      bindR (registers_read h r reg mode) (\<lambda>v.
      state_registers h r mode regs (count + 1)
        (fprint (''   '' @ pad_left 3 name @ ''='' @ format_08X v) t))))"

fun state_modes :: "host \<Rightarrow> registers \<Rightarrow> nat list \<Rightarrow> trace_data \<Rightarrow> trace_data res" where
  "state_modes h r [] t = Inr t"
| "state_modes h r (mode # modes) t =
     bindR (arm_get_mode_name mode) (\<lambda>name.
     bindR (load (states t) mode) (\<lambda>selected.
     case name of
       Some n \<Rightarrow>
         if selected then
           bindR (state_registers h r mode [0..<16] 0 (fprint (n @ '':'') t)) (\<lambda>t.
           bindR (registers_read_spsr h r mode) (\<lambda>spsr.
           state_modes h r modes
             (fprint (''   CPSR='' @ format_08X (registers_read_cpsr r)
                      @ ''   SPSR='' @ format_08X spsr @ [CHR 0x0A]) t)))
         else state_modes h r modes t
     | None \<Rightarrow> state_modes h r modes t))"

definition trace_arm_state :: "host \<Rightarrow> registers \<Rightarrow> trace_data \<Rightarrow> trace_data res" where
  "trace_arm_state h r t =
     (if enabled t \<and> trace_flags t AND STATE \<noteq> 0 then state_modes h r [0..<32] t else Inr t)"

definition trace_disable :: "trace_data \<Rightarrow> trace_data" where
  "trace_disable t = t\<lparr>enabled := False\<rparr>"

definition trace_enable :: "trace_data \<Rightarrow> trace_data" where
  "trace_enable t = t\<lparr>enabled := True\<rparr>"

definition trace_add :: "int \<Rightarrow> trace_data \<Rightarrow> trace_data" where
  "trace_add flags t =
     (if flags < 32 then
        (if flags \<ge> 0 then
           t\<lparr>trace_flags := trace_flags t OR STATE, states := (states t)[nat flags := True]\<rparr>
         else t)
      else t\<lparr>trace_flags := trace_flags t OR flags\<rparr>)"

section \<open>When the state can be traced\<close>

definition wf_trace :: "trace_data \<Rightarrow> bool" where
  "wf_trace t \<longleftrightarrow> length (states t) = 32"

text \<open>The modes whose registers and SPSR all exist.\<close>

definition traceable :: "nat set" where
  "traceable = {IRQ, SVC, ABT, UND}"

definition selected :: "trace_data \<Rightarrow> nat set" where
  "selected t = {mode. mode < 32 \<and> states t ! mode \<and> arm_mode_names ! mode \<noteq> None}"

lemma mode_names_bounds: "length arm_mode_names = 32"
  by (simp add: arm_mode_names_def)

lemma fprint_simps [simp]:
  "states (fprint s t) = states t" "trace_flags (fprint s t) = trace_flags t"
  "enabled (fprint s t) = enabled t" "wf_trace (fprint s t) = wf_trace t"
  by (simp_all add: fprint_def wf_trace_def)

lemma fprint_fprint: "fprint s (fprint s' t) = fprint (s' @ s) t"
  by (simp add: fprint_def)

lemma state_registers_ok:
  assumes "wf_registers r" "mode \<noteq> FIQ" "\<forall>reg \<in> set regs. reg < 16"
  shows "\<exists>s. state_registers h r mode regs count t = Inr (fprint s t)"
  using assms
proof (induction regs arbitrary: count t)
  case Nil
  have "t = fprint [] t" by (simp add: fprint_def)
  then show ?case by auto
next
  case (Cons reg regs)
  have "reg < 16" using Cons.prems(3) by simp
  then obtain k where "cell reg mode = Inr k" using cell_low Cons.prems(2) by blast
  then obtain v where v: "registers_read h r reg mode = Inr v"
    using banks.rd_total [OF Cons.prems(1)] by blast
  have "reg < 18" using Cons.prems(3) by auto
  then obtain n where n: "arm_get_register_name reg = Inr n"
    by (simp add: arm_get_register_name_def arm_register_names_def)
  show ?case
    using Cons.IH [OF Cons.prems(1,2)] Cons.prems(3)
    by (simp add: v n Let_def) (metis fprint_fprint)
qed

lemma state_registers_fiq:
  assumes "wf_registers r" "SP \<in> set regs" "\<forall>reg \<in> set regs. reg < 16"
  shows "state_registers h r FIQ regs count t = Inl Out_Of_Bounds"
  using assms
proof (induction regs arbitrary: count t)
  case (Cons reg regs)
  have "reg < 18" using Cons.prems(3) by auto
  then obtain n where n: "arm_get_register_name reg = Inr n"
    by (simp add: arm_get_register_name_def arm_register_names_def)
  show ?case
    using Cons
    by (auto simp: n Let_def registers_read_cell bindR_eq_Inl cell_def get_read_write_mode_def)
qed simp

lemma spsr_in_mode:
  assumes "wf_registers r"
  shows "registers_mode_has_spsr mode \<Longrightarrow> \<exists>v. registers_read_spsr h r mode = Inr v"
    and "\<not> registers_mode_has_spsr mode \<Longrightarrow> registers_read_spsr h r mode = Inl Null_Pointer"
  using assms by (auto simp: registers_read_spsr_def registers_read_cell cell_def Let_def
      registers_mode_has_spsr_def)

lemma named_modes:
  assumes "mode < 32" "arm_mode_names ! mode \<noteq> None"
  shows "mode \<in> {USR, FIQ, IRQ, SVC, ABT, UND, SYS}"
proof -
  have "mode \<in> set (filter (\<lambda>m. arm_mode_names ! m \<noteq> None) [0..<32])" using assms by simp
  also have "filter (\<lambda>m. arm_mode_names ! m \<noteq> None) [0..<32] = [USR, FIQ, IRQ, SVC, ABT, UND, SYS]"
    by code_simp
  finally show ?thesis by simp
qed

lemma state_modes_outcome:
  assumes "wf_registers r" "wf_trace t" "\<forall>mode \<in> set modes. mode < 32"
  shows "if set modes \<inter> selected t \<subseteq> traceable then \<exists>s. state_modes h r modes t = Inr (fprint s t)
    else state_modes h r modes t \<in> {Inl Null_Pointer, Inl Out_Of_Bounds}"
  using assms
proof (induction modes arbitrary: t)
  case Nil
  have "t = fprint [] t" by (simp add: fprint_def)
  then show ?case by auto
next
  case (Cons mode modes)
  have mode: "mode < 32" and rest: "\<forall>m \<in> set modes. m < 32" using Cons.prems(3) by auto
  then have len: "mode < length (states t)" using Cons.prems(2) by (simp add: wf_trace_def)
  have sel: "selected (fprint s t) = selected t" for s by (simp add: selected_def)
  show ?case
  proof (cases "mode \<in> selected t")
    case False
    then have "state_modes h r (mode # modes) t = state_modes h r modes t"
      using mode len by (auto simp: arm_get_mode_name_def selected_def split: option.split)
    moreover have "set (mode # modes) \<inter> selected t = set modes \<inter> selected t"
      using False by auto
    ultimately show ?thesis using Cons.IH [OF Cons.prems(1,2) rest] by (simp only:)
  next
    case True
    then obtain n where n: "arm_mode_names ! mode = Some n" "states t ! mode"
      by (auto simp: selected_def)
    then have named: "mode \<in> {USR, FIQ, IRQ, SVC, ABT, UND, SYS}" using named_modes mode by auto
    have unfold: "state_modes h r (mode # modes) t =
        bindR (state_registers h r mode [0..<16] 0 (fprint (n @ '':'') t)) (\<lambda>t.
        bindR (registers_read_spsr h r mode) (\<lambda>spsr.
        state_modes h r modes (fprint (''   CPSR='' @ format_08X (registers_read_cpsr r)
          @ ''   SPSR='' @ format_08X spsr @ [CHR 0x0A]) t)))"
      using n mode len by (simp add: arm_get_mode_name_def)
    show ?thesis
    proof (cases "mode = FIQ")
      case True
      then have "state_registers h r mode [0..<16] 0 (fprint (n @ '':'') t) = Inl Out_Of_Bounds"
        using state_registers_fiq [OF Cons.prems(1), of "[0..<16]"] by simp
      moreover have "mode \<in> selected t - traceable" using True \<open>mode \<in> selected t\<close>
        by (simp add: traceable_def)
      ultimately show ?thesis using unfold by auto
    next
      case False
      then obtain s where s: "state_registers h r mode [0..<16] 0 (fprint (n @ '':'') t)
          = Inr (fprint s t)"
      proof -
        have "\<forall>reg \<in> set [0..<16]. reg < 16" by simp
        from state_registers_ok [OF Cons.prems(1) False this, of h 0 "fprint (n @ '':'') t"] that
        show ?thesis by (auto simp: fprint_fprint)
      qed
      show ?thesis
      proof (cases "mode \<in> traceable")
        case True
        then have "registers_mode_has_spsr mode"
          by (auto simp: traceable_def registers_mode_has_spsr_def get_read_write_mode_def)
        then obtain v where "registers_read_spsr h r mode = Inr v"
          using spsr_in_mode Cons.prems(1) by blast
        then obtain s' where
          e: "state_modes h r (mode # modes) t = state_modes h r modes (fprint s' t)"
          using s unfold by (simp add: fprint_fprint)
        have "set (mode # modes) \<inter> selected t \<subseteq> traceable \<longleftrightarrow> set modes \<inter> selected t \<subseteq> traceable"
          using True by auto
        then show ?thesis
          using Cons.IH [of "fprint s' t"] Cons.prems(1,2) rest
          unfolding e by (auto simp: sel fprint_fprint split: if_splits)
      next
        case False
        then have "\<not> registers_mode_has_spsr mode"
          using named \<open>mode \<noteq> FIQ\<close>
          by (auto simp: traceable_def registers_mode_has_spsr_def get_read_write_mode_def)
        then have "registers_read_spsr h r mode = Inl Null_Pointer"
          using spsr_in_mode Cons.prems(1) by blast
        with False \<open>mode \<in> selected t\<close> s unfold show ?thesis by auto
      qed
    qed
  qed
qed

section \<open>Properties\<close>

text \<open>Tracing the state of the processor succeeds, and only writes text, exactly when every selected
  mode has an SPSR and is not FIQ; selecting USR or SYS ends in a null pointer, selecting FIQ in an
  access past the end of an array.\<close>

theorem trace_arm_state_outcome:
  assumes "wf_registers r" "wf_trace t"
  shows "if enabled t \<and> trace_flags t AND STATE \<noteq> 0 \<and> \<not> selected t \<subseteq> {IRQ, SVC, ABT, UND}
    then trace_arm_state h r t \<in> {Inl Null_Pointer, Inl Out_Of_Bounds}
    else \<exists>s. trace_arm_state h r t = Inr (t\<lparr>trace_output := trace_output t @ s\<rparr>)"
proof (cases "enabled t \<and> trace_flags t AND STATE \<noteq> 0")
  case True
  have "selected t \<subseteq> set [0..<32]" by (auto simp: selected_def)
  then have "set [0..<32] \<inter> selected t = selected t" by blast
  then show ?thesis
    using True state_modes_outcome [OF assms, of "[0..<32]" h]
    by (auto simp: trace_arm_state_def traceable_def fprint_def split: if_splits)
next
  case False
  then have "trace_arm_state h r t = Inr (t\<lparr>trace_output := trace_output t @ []\<rparr>)"
    by (auto simp: trace_arm_state_def)
  then have "\<exists>s. trace_arm_state h r t = Inr (t\<lparr>trace_output := trace_output t @ s\<rparr>)" by blast
  with False show ?thesis by (split if_split) blast
qed

theorem trace_arm_state_outcome_witness:
  "trace_arm_state \<lparr>host_big_endian = False, host_masks_shifts = True\<rparr>
     registers_create (trace_add (arm_get_mode_number ''USR'') trace_initial)
     \<in> {Inl Null_Pointer, Inl Out_Of_Bounds}"
proof -
  let ?t = "trace_add (arm_get_mode_number ''USR'') trace_initial"
  have n: "arm_get_mode_number ''USR'' = 16" by code_simp
  have "arm_mode_names ! 16 \<noteq> None" by code_simp
  then have "16 \<in> selected ?t" unfolding n
    by (simp add: selected_def trace_add_def trace_initial_def)
  then have "\<not> selected ?t \<subseteq> {IRQ, SVC, ABT, UND}" by auto
  moreover have "wf_trace ?t" "enabled ?t" "trace_flags ?t AND STATE \<noteq> 0" unfolding n
    by (simp_all add: wf_trace_def trace_add_def trace_initial_def)
  ultimately show ?thesis
    using trace_arm_state_outcome [OF wf_registers_create, of ?t] by simp
qed

end
