(* ===== verification/Gdb_Protocol.thy ===== *)
theory Gdb_Protocol
  imports Arm_Instruction Breakpoints Trace
begin

text \<open>
  The remote protocol of \<^verbatim>\<open>gdb_protocol.c\<close>: packets with their checksums, the command handlers and
  the execution commands. The structure of the code holds pointers to the processor, its registers
  and its memory; they are those of one simulator, so one field holds it. The bytes written to the
  connection are collected in \<open>sent\<close>, and a write after the shutdown of the connection faults. The
  debug messages and warnings on standard error are left out. A pointer into the received packet is
  the rest of that packet.
\<close>

section \<open>State\<close>

definition MAX_PACKET_SIZE :: nat where
  "MAX_PACKET_SIZE = 4096"

record gdb_protocol_data = breakpoint_table +
  arm :: sim
  trace :: trace_data
  target_exception :: int
  packet :: string
  len :: nat
  sent :: string
  shut_down :: bool

section \<open>Sending\<close>

definition Rio_writen :: "string \<Rightarrow> gdb_protocol_data \<Rightarrow> gdb_protocol_data res" where
  "Rio_writen s gdb =
     (if shut_down gdb then Inl Broken_Pipe else Inr (gdb\<lparr>sent := sent gdb @ s\<rparr>))"

definition gdb_send_ack :: "gdb_protocol_data \<Rightarrow> gdb_protocol_data res" where
  "gdb_send_ack gdb = Rio_writen ''+'' gdb"

definition gdb_require_retransmission :: "gdb_protocol_data \<Rightarrow> gdb_protocol_data res" where
  "gdb_require_retransmission gdb = Rio_writen ''-'' gdb"

definition gdb_transmit_packet :: "gdb_protocol_data \<Rightarrow> gdb_protocol_data res" where
  "gdb_transmit_packet gdb = Rio_writen (take (len gdb) (packet gdb)) gdb"

text \<open>The loop to the null character, with the sum of the characters.\<close>

function payload_end :: "string \<Rightarrow> nat \<Rightarrow> u8 \<Rightarrow> (nat \<times> u8) res" where
  "payload_end pkt i check =
     (if i < length pkt then
        (if pkt ! i \<noteq> NUL then payload_end pkt (i + 1) (check + of_char (pkt ! i))
         else Inr (i, check))
      else Inl Out_Of_Bounds)"
  by pat_completeness auto
termination
  by (relation "measure (\<lambda>(pkt, i, check). length pkt - i)") auto

declare payload_end.simps [simp del]

definition gdb_send_buffer :: "gdb_protocol_data \<Rightarrow> gdb_protocol_data res" where
  "gdb_send_buffer gdb =
     bindR (store (packet gdb) 0 (CHR ''$'')) (\<lambda>pkt.
     bindR (payload_end pkt 1 0) (\<lambda>(i, check).
     bindR (store pkt i (CHR ''#'')) (\<lambda>pkt.
     bindR (store_string pkt (i + 1) (format_02x check)) (\<lambda>pkt.
     bindR (store pkt (i + 3) NUL) (\<lambda>pkt.
     gdb_transmit_packet (gdb\<lparr>packet := pkt, len := i + 3\<rparr>))))))"

definition gdb_send_data :: "gdb_protocol_data \<Rightarrow> string \<Rightarrow> gdb_protocol_data res" where
  "gdb_send_data gdb data =
     bindR (store_string (packet gdb) 1 data) (\<lambda>pkt. gdb_send_buffer (gdb\<lparr>packet := pkt\<rparr>))"

section \<open>Numbers in packets\<close>

definition read_uint32 :: "string \<Rightarrow> u32 res" where
  "read_uint32 data =
     bindR (c_string data) (\<lambda>s.
     bindR (scan_x 32 8 s) (\<lambda>(v, _).
     case v of None \<Rightarrow> Inl Uninitialised | Some n \<Rightarrow> Inr (of_nat n)))"

definition write_uint32 :: "string \<Rightarrow> nat \<Rightarrow> u32 \<Rightarrow> string res" where
  "write_uint32 buffer position v = store_string buffer position (format_08x v)"

text \<open>
  A \<^verbatim>\<open>sscanf\<close> of hexadecimal numbers separated by commas: the objects of the given sizes, those
  not reached by the conversion \<open>None\<close>.
\<close>

fun scan_fields :: "nat list \<Rightarrow> string \<Rightarrow> nat option list res" where
  "scan_fields [] s = Inr []"
| "scan_fields (bits # others) s =
     bindR (scan_x bits (length s) s) (\<lambda>(v, rest).
     if v = None then Inr (replicate (Suc (length others)) None)
     else if others \<noteq> [] \<and> (rest = [] \<or> hd rest \<noteq> CHR '','') then
       Inr (v # replicate (length others) None)
     else bindR (scan_fields others (tl rest)) (\<lambda>vs. Inr (v # vs)))"

definition initialised :: "nat option \<Rightarrow> nat res" where
  "initialised v = (case v of None \<Rightarrow> Inl Uninitialised | Some n \<Rightarrow> Inr n)"

text \<open>The string after the first occurrence of a character, as of \<^verbatim>\<open>index\<close> plus one.\<close>

definition after_char :: "char \<Rightarrow> string \<Rightarrow> string res" where
  "after_char c data =
     bindR (c_string data) (\<lambda>s.
     if c \<in> set s then advance (length (takeWhile (\<lambda>x. x \<noteq> c) s) + 1) data else Inl Null_Pointer)"

section \<open>Execution\<close>

definition gdb_send_stop_reason :: "gdb_protocol_data \<Rightarrow> gdb_protocol_data res" where
  "gdb_send_stop_reason gdb =
     gdb_send_data gdb
       (if target_exception gdb = int UNDEFINED_INSTRUCTION then ''S04''
        else if target_exception gdb = int PREFETCH_ABORT then ''S0A''
        else if target_exception gdb = int DATA_ABORT then ''S0B''
        else if target_exception gdb = int END_SIMULATION then ''X05''
        else ''S05'')"

definition single_step :: "gdb_protocol_data \<Rightarrow> gdb_protocol_data res" where
  "single_step gdb =
     bindR (arm_step (arm gdb)) (\<lambda>(rc, p).
     bindR (trace_arm_state (sim_host p) (reg p) (trace gdb)) (\<lambda>t.
     Inr (gdb\<lparr>arm := p, target_exception := rc, trace := t\<rparr>)))"

definition single_step_with_signal :: "gdb_protocol_data \<Rightarrow> gdb_protocol_data res" where
  "single_step_with_signal gdb = single_step gdb"

text \<open>The condition on which the loop of \<^verbatim>\<open>cont\<close> stops.\<close>

definition cont_stop :: "gdb_protocol_data \<Rightarrow> bool res" where
  "cont_stop gdb =
     bindR (registers_read (sim_host (arm gdb)) (reg (arm gdb)) 15
              (registers_get_mode (reg (arm gdb)))) (\<lambda>PCr.
     bindR (gdb_find_breakpoint gdb PCr) (\<lambda>r.
     Inr (r \<noteq> -1 \<or> target_exception gdb \<noteq> 0)))"

partial_function (option) cont_loop :: "gdb_protocol_data \<Rightarrow> gdb_protocol_data res option" where
  "cont_loop gdb =
     (case single_step gdb of
        Inl e \<Rightarrow> Some (Inl e)
      | Inr gdb \<Rightarrow>
          (case cont_stop gdb of
             Inl e \<Rightarrow> Some (Inl e)
           | Inr stop \<Rightarrow> if stop then Some (Inr gdb) else cont_loop gdb))"

definition cont :: "gdb_protocol_data \<Rightarrow> string \<Rightarrow> gdb_protocol_data res option" where
  "cont gdb data = map_option (\<lambda>r. bindR r gdb_send_stop_reason) (cont_loop gdb)"

definition cont_with_signal :: "gdb_protocol_data \<Rightarrow> string \<Rightarrow> gdb_protocol_data res option" where
  "cont_with_signal gdb data = cont gdb data"

definition step :: "gdb_protocol_data \<Rightarrow> string \<Rightarrow> gdb_protocol_data res" where
  "step gdb data = bindR (single_step gdb) gdb_send_stop_reason"

definition step_with_signal :: "gdb_protocol_data \<Rightarrow> string \<Rightarrow> gdb_protocol_data res" where
  "step_with_signal gdb data = bindR (single_step_with_signal gdb) gdb_send_stop_reason"

definition reason :: "gdb_protocol_data \<Rightarrow> string \<Rightarrow> gdb_protocol_data res" where
  "reason gdb data = gdb_send_stop_reason gdb"

definition kill_request :: "gdb_protocol_data \<Rightarrow> string \<Rightarrow> gdb_protocol_data res" where
  "kill_request gdb data = Inr (gdb\<lparr>shut_down := True\<rparr>)"

section \<open>Queries\<close>

definition query :: "gdb_protocol_data \<Rightarrow> string \<Rightarrow> gdb_protocol_data res" where
  "query gdb data =
     bindR (c_string data) (\<lambda>s.
     if s = ''Offsets'' then gdb_send_data gdb ''Text=0;Data=0;Bss=0''
     else if take 9 s = ''Supported'' then gdb_send_data gdb ''PacketSize=400''
     else if s = ''TStatus'' then gdb_send_data gdb ''T0;tnotrun:0''
     else if s = ''Symbol::'' then gdb_send_data gdb []
     else gdb_send_data gdb [])"

definition set_thread :: "gdb_protocol_data \<Rightarrow> string \<Rightarrow> gdb_protocol_data res" where
  "set_thread gdb data =
     bindR (load data 0) (\<lambda>type.
     bindR (advance 1 data) (\<lambda>d.
     bindR (c_string d) (\<lambda>s.
     bindR (atoi s) (\<lambda>n.
     if (type = CHR ''c'' \<or> type = CHR ''g'') \<and> n < 1 \<and> n > -2 then gdb_send_data gdb ''OK''
     else gdb_send_data gdb ''E01''))))"

section \<open>Registers\<close>

definition read_register :: "gdb_protocol_data \<Rightarrow> string \<Rightarrow> nat \<Rightarrow> nat \<Rightarrow> string res" where
  "read_register gdb buffer position r =
     (if r < 16 then
        bindR (registers_read (sim_host (arm gdb)) (reg (arm gdb)) r
                 (registers_get_mode (reg (arm gdb)))) (\<lambda>v.
        write_uint32 buffer position v)
      else Inl Assertion_Failed)"

fun read_registers_loop :: "gdb_protocol_data \<Rightarrow> nat list \<Rightarrow> string \<Rightarrow> nat \<Rightarrow> (string \<times> nat) res" where
  "read_registers_loop gdb [] buffer position = Inr (buffer, position)"
| "read_registers_loop gdb (i # is) buffer position =
     bindR (read_register gdb buffer position i) (\<lambda>buffer.
     read_registers_loop gdb is buffer (position + 8))"

fun fill_unknown :: "nat \<Rightarrow> string \<Rightarrow> nat \<Rightarrow> (string \<times> nat) res" where
  "fill_unknown 0 buffer position = Inr (buffer, position)"
| "fill_unknown (Suc n) buffer position =
     bindR (store_string buffer position ''xxxxxxxx'') (\<lambda>buffer.
     fill_unknown n buffer (position + 8))"

definition read_general_registers :: "gdb_protocol_data \<Rightarrow> string \<Rightarrow> gdb_protocol_data res" where
  "read_general_registers gdb data =
     bindR (read_registers_loop gdb [0..<16] (packet gdb) 1) (\<lambda>(buffer, position).
     bindR (fill_unknown (8 * 3) buffer position) (\<lambda>(buffer, position).
     bindR (store_string buffer position ''xxxxxxxx'') (\<lambda>buffer.
     bindR (write_uint32 buffer (position + 8) (registers_read_cpsr (reg (arm gdb)))) (\<lambda>buffer.
     gdb_send_buffer (gdb\<lparr>packet := buffer\<rparr>)))))"

definition read_single_register :: "gdb_protocol_data \<Rightarrow> string \<Rightarrow> gdb_protocol_data res" where
  "read_single_register gdb data =
     bindR (c_string data) (\<lambda>s.
     bindR (atoi s) (\<lambda>r.
     bindR (read_register gdb (packet gdb) 1 (nat (r mod 256))) (\<lambda>buffer.
     gdb_send_buffer (gdb\<lparr>packet := buffer\<rparr>))))"

definition write_register :: "gdb_protocol_data \<Rightarrow> nat \<Rightarrow> string \<Rightarrow> gdb_protocol_data res" where
  "write_register gdb r data =
     bindR (read_uint32 data) (\<lambda>v.
     if r < 16 then
       bindR (registers_write (sim_host (arm gdb)) (reg (arm gdb)) r
                (registers_get_mode (reg (arm gdb))) v) (\<lambda>rs.
       Inr (gdb\<lparr>arm := (arm gdb)\<lparr>reg := rs\<rparr>\<rparr>))
     else Inl Assertion_Failed)"

fun write_registers_loop :: "gdb_protocol_data \<Rightarrow> nat list \<Rightarrow> string \<Rightarrow> (gdb_protocol_data \<times> string) res" where
  "write_registers_loop gdb [] position = Inr (gdb, position)"
| "write_registers_loop gdb (i # is) position =
     bindR (write_register gdb i position) (\<lambda>gdb.
     bindR (advance 8 position) (\<lambda>position.
     write_registers_loop gdb is position))"

definition write_general_registers :: "gdb_protocol_data \<Rightarrow> string \<Rightarrow> gdb_protocol_data res" where
  "write_general_registers gdb data =
     bindR (write_registers_loop gdb [0..<16] data) (\<lambda>(gdb, position).
     bindR (advance (8 * 3 * 8 + 8) position) (\<lambda>position.
     bindR (read_uint32 position) (\<lambda>v.
     gdb_send_data
       (gdb\<lparr>arm := (arm gdb)\<lparr>reg := registers_write_cpsr (reg (arm gdb)) v\<rparr>\<rparr>) ''OK'')))"

definition write_single_register :: "gdb_protocol_data \<Rightarrow> string \<Rightarrow> gdb_protocol_data res" where
  "write_single_register gdb data =
     bindR (c_string data) (\<lambda>s.
     bindR (scan_fields [32] s) (\<lambda>vs.
     bindR (after_char (CHR ''='') data) (\<lambda>data.
     bindR (initialised (vs ! 0)) (\<lambda>r.
     bindR (write_register gdb r data) (\<lambda>gdb.
     gdb_send_data gdb ''OK'')))))"

section \<open>Memory\<close>

fun read_memory_loop :: "memory \<Rightarrow> nat \<Rightarrow> u32 \<Rightarrow> string \<Rightarrow> nat \<Rightarrow> string res" where
  "read_memory_loop m 0 address buffer position = Inr buffer"
| "read_memory_loop m (Suc size') address buffer position =
     bindR (memory_read_byte m address) (\<lambda>r.
     case r of
       None \<Rightarrow> Inr buffer
     | Some b \<Rightarrow>
         bindR (store_string buffer position (format_02x b)) (\<lambda>buffer.
         read_memory_loop m size' (address + 1) buffer (position + 2)))"

definition read_memory :: "gdb_protocol_data \<Rightarrow> string \<Rightarrow> gdb_protocol_data res" where
  "read_memory gdb data =
     bindR (c_string data) (\<lambda>s.
     bindR (scan_fields [32, 32] s) (\<lambda>vs.
     bindR (initialised (vs ! 0)) (\<lambda>address.
     if address < memory_get_size (mem (arm gdb)) then
       bindR (store (packet gdb) 1 NUL) (\<lambda>buffer.
       bindR (initialised (vs ! 1)) (\<lambda>size'.
       bindR (read_memory_loop (mem (arm gdb)) size' (of_nat address) buffer 1) (\<lambda>buffer.
       gdb_send_buffer (gdb\<lparr>packet := buffer\<rparr>))))
     else
       bindR (store_string (packet gdb) 1 ''E0E'') (\<lambda>buffer.
       gdb_send_buffer (gdb\<lparr>packet := buffer\<rparr>)))))"

fun write_memory_loop :: "nat \<Rightarrow> string \<Rightarrow> u32 \<Rightarrow> memory \<Rightarrow> (bool \<times> memory) res" where
  "write_memory_loop 0 content address m = Inr (True, m)"
| "write_memory_loop (Suc n) content address m =
     bindR (load content 0) (\<lambda>c.
     bindR (if c = CHR 0x7D then
              bindR (advance 1 content) (\<lambda>content.
              bindR (load content 0) (\<lambda>c. Inr (content, (of_char c :: u8) XOR 0x20)))
            else Inr (content, of_char c)) (\<lambda>(content, b).
     bindR (memory_write_byte m address b) (\<lambda>(rc, m).
     bindR (advance 1 content) (\<lambda>content.
     if rc = 0 then write_memory_loop n content (address + 1) m else Inr (False, m)))))"

definition write_memory_binary :: "gdb_protocol_data \<Rightarrow> string \<Rightarrow> gdb_protocol_data res" where
  "write_memory_binary gdb data =
     bindR (c_string data) (\<lambda>s.
     bindR (scan_fields [32, 32] s) (\<lambda>vs.
     bindR (after_char (CHR '':'') data) (\<lambda>content.
     bindR (initialised (vs ! 0)) (\<lambda>address.
     bindR (initialised (vs ! 1)) (\<lambda>size'.
     bindR (if address < memory_get_size (mem (arm gdb))
            then write_memory_loop size' content (of_nat address) (mem (arm gdb))
            else Inr (False, mem (arm gdb))) (\<lambda>(write_ok, m).
     gdb_send_data (gdb\<lparr>arm := (arm gdb)\<lparr>mem := m\<rparr>\<rparr>) (if write_ok then ''OK'' else ''E02'')))))))"

section \<open>Breakpoint commands\<close>

definition set_breakpoint :: "gdb_protocol_data \<Rightarrow> string \<Rightarrow> gdb_protocol_data res" where
  "set_breakpoint gdb data =
     bindR (c_string data) (\<lambda>s.
     bindR (scan_fields [8, 32, 32] s) (\<lambda>vs.
     bindR (initialised (vs ! 0)) (\<lambda>type.
     if type \<noteq> 0 then gdb_send_data gdb ''E03''
     else
       bindR (initialised (vs ! 1)) (\<lambda>address.
       bindR (gdb_add_breakpoint gdb (of_nat address)) (\<lambda>(r, gdb).
       if r \<noteq> 0 then gdb_send_data gdb ''OK'' else gdb_send_data gdb ''E04'')))))"

definition remove_breakpoint :: "gdb_protocol_data \<Rightarrow> string \<Rightarrow> gdb_protocol_data res" where
  "remove_breakpoint gdb data =
     bindR (c_string data) (\<lambda>s.
     bindR (scan_fields [8, 32, 32] s) (\<lambda>vs.
     bindR (initialised (vs ! 0)) (\<lambda>type.
     if type \<noteq> 0 then gdb_send_data gdb ''E03''
     else
       bindR (initialised (vs ! 1)) (\<lambda>address.
       bindR (gdb_remove_breakpoint gdb (of_nat address)) (\<lambda>(r, gdb).
       if r \<noteq> 0 then gdb_send_data gdb ''OK'' else gdb_send_data gdb ''E05'')))))"

section \<open>Dispatch\<close>

text \<open>
  The table \<^verbatim>\<open>gdb_init\<close> fills. Only \<^verbatim>\<open>cont\<close> may fail to return.
\<close>

definition handler :: "char \<Rightarrow> (gdb_protocol_data \<Rightarrow> string \<Rightarrow> gdb_protocol_data res option) option" where
  "handler c =
     (if c = CHR ''c'' then Some cont
      else if c = CHR ''C'' then Some cont_with_signal
      else if c = CHR ''k'' then Some (\<lambda>gdb data. Some (kill_request gdb data))
      else if c = CHR ''q'' then Some (\<lambda>gdb data. Some (query gdb data))
      else if c = CHR ''g'' then Some (\<lambda>gdb data. Some (read_general_registers gdb data))
      else if c = CHR ''m'' then Some (\<lambda>gdb data. Some (read_memory gdb data))
      else if c = CHR ''p'' then Some (\<lambda>gdb data. Some (read_single_register gdb data))
      else if c = CHR ''?'' then Some (\<lambda>gdb data. Some (reason gdb data))
      else if c = CHR ''H'' then Some (\<lambda>gdb data. Some (set_thread gdb data))
      else if c = CHR ''s'' then Some (\<lambda>gdb data. Some (step gdb data))
      else if c = CHR ''S'' then Some (\<lambda>gdb data. Some (step_with_signal gdb data))
      else if c = CHR ''G'' then Some (\<lambda>gdb data. Some (write_general_registers gdb data))
      else if c = CHR ''X'' then Some (\<lambda>gdb data. Some (write_memory_binary gdb data))
      else if c = CHR ''P'' then Some (\<lambda>gdb data. Some (write_single_register gdb data))
      else if c = CHR ''z'' then Some (\<lambda>gdb data. Some (remove_breakpoint gdb data))
      else if c = CHR ''Z'' then Some (\<lambda>gdb data. Some (set_breakpoint gdb data))
      else None)"

text \<open>
  \<open>ok\<close> says whether the allocation succeeds; the two arrays are not initialised by the code, their
  content is that of the allocated block.
\<close>

definition gdb_init_data ::
    "bool \<Rightarrow> string \<Rightarrow> u32 list \<Rightarrow> sim \<Rightarrow> trace_data \<Rightarrow> gdb_protocol_data option" where
  "gdb_init_data ok packet0 breakpoints0 p t =
     (if ok then
        Some \<lparr>breakpoints = breakpoints0, breakpoints_number = 0, arm = p, trace = t,
              target_exception = 0, packet = packet0, len = 0, sent = [], shut_down = False\<rparr>
      else None)"

function packet_sum :: "string \<Rightarrow> nat \<Rightarrow> nat \<Rightarrow> u8 \<Rightarrow> (nat \<times> u8) res" where
  "packet_sum pkt i last' check =
     (if i < last' then
        bindR (load pkt i) (\<lambda>c. packet_sum pkt (i + 1) last' (check + of_char c))
      else Inr (i, check))"
  by pat_completeness auto
termination
  by (relation "measure (\<lambda>(pkt, i, last', check). last' - i)") auto

declare packet_sum.simps [simp del]

text \<open>
  What the analysis does before it looks for the handler: the sum, the two digits, and the
  acknowledgement or the request for another transmission; of an accepted packet, the command and its
  data.
\<close>

definition packet_check ::
    "gdb_protocol_data \<Rightarrow> string \<Rightarrow> nat \<Rightarrow> (gdb_protocol_data \<times> (char \<times> string) option) res" where
  "packet_check gdb pkt length' =
     bindR (packet_sum pkt 1 (length' - 3) 0) (\<lambda>(i, check).
     bindR (advance (i + 1) pkt) (\<lambda>d.
     bindR (c_string d) (\<lambda>s.
     bindR (scan_fields [32] s) (\<lambda>vs.
     bindR (initialised (vs ! 0)) (\<lambda>given.
     if unat check = given then
       bindR (gdb_send_ack gdb) (\<lambda>gdb.
       bindR (store pkt i NUL) (\<lambda>pkt.
       bindR (load pkt 1) (\<lambda>index.
       bindR (advance 2 pkt) (\<lambda>data. Inr (gdb, Some (index, data))))))
     else
       bindR (gdb_require_retransmission gdb) (\<lambda>gdb. Inr (gdb, None)))))))"

definition gdb_packet_analysis ::
    "gdb_protocol_data \<Rightarrow> string \<Rightarrow> nat \<Rightarrow> gdb_protocol_data res option" where
  "gdb_packet_analysis gdb pkt length' =
     (case packet_check gdb pkt length' of
        Inl e \<Rightarrow> Some (Inl e)
      | Inr (gdb, None) \<Rightarrow> Some (Inr gdb)
      | Inr (gdb, Some (index, data)) \<Rightarrow>
          (case handler index of
             Some h \<Rightarrow> h gdb data
           | None \<Rightarrow> Some (gdb_send_data gdb [])))"

end
