(* ===== verification/Gdb_Packets.thy ===== *)
theory Gdb_Packets
  imports Gdb_Protocol
begin

text \<open>
  Facts about the remote protocol: framing and checksums, the register and memory commands, the
  breakpoints, and the loop of the continue command.
\<close>

section \<open>Framing\<close>

definition checksum :: "string \<Rightarrow> u8" where
  "checksum data = sum_list (map of_char data)"

definition frame :: "string \<Rightarrow> string" where
  "frame data = CHR ''$'' # data @ CHR ''#'' # format_02x (checksum data)"

lemma payload_end_append:
  "NUL \<notin> set data \<Longrightarrow>
    payload_end (pre @ data @ NUL # rest) (length pre) c
      = Inr (length pre + length data, c + checksum data)"
proof (induction data arbitrary: pre c)
  case Nil
  show ?case by (subst payload_end.simps) (simp add: checksum_def nth_append)
next
  case (Cons x data)
  have "payload_end (pre @ (x # data) @ NUL # rest) (length pre) c
      = payload_end ((pre @ [x]) @ data @ NUL # rest) (length (pre @ [x])) (c + of_char x)"
  proof -
    have "x \<noteq> NUL" using Cons.prems by auto
    then show ?thesis by (subst payload_end.simps) (simp add: nth_append)
  qed
  also have "\<dots> = Inr (length (pre @ [x]) + length data, c + of_char x + checksum data)"
    using Cons.prems by (intro Cons.IH) simp
  finally show ?case by (simp add: checksum_def add.assoc)
qed

lemma store_append [simp]: "store (pre @ x # rest) (length pre) y = Inr (pre @ y # rest)"
  by (simp add: store_def)

lemma store_list_append:
  "length ys \<le> length rest \<Longrightarrow>
    store_list (pre @ rest) (length pre) ys = Inr (pre @ ys @ drop (length ys) rest)"
  by (simp add: store_list_def)

lemma store_string_append:
  "length s < length rest \<Longrightarrow>
    store_string (pre @ rest) (length pre) s = Inr (pre @ s @ NUL # drop (length s + 1) rest)"
  unfolding store_string_def by (subst store_list_append) simp_all

lemma gdb_send_buffer_frame:
  assumes "packet gdb = c # data @ NUL # rest" "NUL \<notin> set data" "3 \<le> length rest"
    "\<not> shut_down gdb"
  shows "gdb_send_buffer gdb = Inr (gdb\<lparr>packet := frame data @ NUL # drop 3 rest,
    len := length data + 4, sent := sent gdb @ frame data\<rparr>)"
proof -
  obtain a b d rest' where rest: "rest = a # b # d # rest'"
    using assms(3) by (metis Suc_le_length_iff numeral_3_eq_3)
  let ?p = "CHR ''$'' # data"
  have s0: "store (packet gdb) 0 (CHR ''$'') = Inr (?p @ NUL # rest)"
    by (simp add: assms(1) store_def)
  have pe: "payload_end (?p @ NUL # rest) 1 0 = Inr (length ?p, checksum data)"
    using payload_end_append [OF assms(2), of "[CHR ''$'']" rest 0] by simp
  let ?p1 = "?p @ [CHR ''#'']"
  have s1: "store (?p @ NUL # rest) (length ?p) (CHR ''#'') = Inr (?p1 @ rest)"
    using store_append [of ?p NUL rest "CHR ''#''"] by simp
  have s2: "store_string (?p1 @ rest) (length ?p + 1) (format_02x (checksum data))
      = Inr (?p1 @ format_02x (checksum data) @ NUL # rest')"
    using store_string_append [of "format_02x (checksum data)" rest ?p1] by (simp add: rest)
  let ?p2 = "?p1 @ format_02x (checksum data)"
  have s3: "store (?p2 @ NUL # rest') (length ?p + 3) NUL = Inr (?p2 @ NUL # rest')"
    using store_append [of ?p2 NUL rest' NUL] by simp
  have "?p2 = frame data" "length ?p + 3 = length (frame data)" by (simp_all add: frame_def)
  moreover have "drop 3 rest = rest'" by (simp add: rest)
  moreover have "gdb_send_buffer gdb = gdb_transmit_packet
      (gdb\<lparr>packet := ?p2 @ NUL # rest', len := length ?p + 3\<rparr>)"
    unfolding gdb_send_buffer_def s0 bindR_simps pe prod.case s1 s2
    using s3 by simp
  ultimately show ?thesis
    using assms(4) by (simp add: gdb_transmit_packet_def Rio_writen_def)
qed

lemma gdb_send_data_frame:
  assumes "NUL \<notin> set data" "length data + 5 \<le> length (packet gdb)" "\<not> shut_down gdb"
  shows "\<exists>rest. length (frame data @ NUL # rest) = length (packet gdb) \<and>
    gdb_send_data gdb data = Inr (gdb\<lparr>packet := frame data @ NUL # rest,
      len := length data + 4, sent := sent gdb @ frame data\<rparr>)"
proof -
  obtain c tl where p: "packet gdb = c # tl" using assms(2) by (cases "packet gdb") auto
  let ?rest = "drop (length data + 1) tl"
  have st: "store_string (packet gdb) 1 data = Inr (c # data @ NUL # ?rest)"
    using store_string_append [of data tl "[c]"] assms(2) p by simp
  have "gdb_send_buffer (gdb\<lparr>packet := c # data @ NUL # ?rest\<rparr>) =
      Inr (gdb\<lparr>packet := frame data @ NUL # drop 3 ?rest, len := length data + 4,
        sent := sent gdb @ frame data\<rparr>)"
    using gdb_send_buffer_frame [of "gdb\<lparr>packet := c # data @ NUL # ?rest\<rparr>" c data ?rest] assms p
    by simp
  with st p assms(2) show ?thesis
    by (intro exI [of _ "drop 3 ?rest"]) (simp add: gdb_send_data_def frame_def)
qed

section \<open>Receiving\<close>

lemma packet_sum_append:
  "packet_sum (pre @ data @ rest) (length pre) (length pre + length data) c
    = Inr (length pre + length data, c + checksum data)"
proof (induction data arbitrary: pre c)
  case Nil
  show ?case by (subst packet_sum.simps) (simp add: checksum_def)
next
  case (Cons x data)
  have "packet_sum (pre @ (x # data) @ rest) (length pre) (length pre + length (x # data)) c
      = packet_sum ((pre @ [x]) @ data @ rest) (length (pre @ [x]))
          (length (pre @ [x]) + length data) (c + of_char x)"
    by (subst packet_sum.simps) (simp add: nth_append)
  also have "\<dots> = Inr (length (pre @ [x]) + length data, c + of_char x + checksum data)"
    by (rule Cons.IH)
  finally show ?case by (simp add: checksum_def add.assoc)
qed

text \<open>What the analysis does with a packet whose two digits stand for \<open>given\<close>.\<close>

lemma packet_check_framed:
  assumes "given < 256" "\<not> shut_down gdb"
  shows "packet_check gdb
      (CHR ''$'' # data @ CHR ''#'' # hex_fixed hex_digit 2 given @ [NUL]) (length data + 4) =
    Inr (if given = unat (checksum data) then
           (gdb\<lparr>sent := sent gdb @ ''+''\<rparr>,
            Some (case data of
                [] \<Rightarrow> (NUL, hex_fixed hex_digit 2 given @ [NUL])
              | c # args \<Rightarrow> (c, args @ NUL # hex_fixed hex_digit 2 given @ [NUL])))
         else (gdb\<lparr>sent := sent gdb @ ''-''\<rparr>, None))"
proof -
  let ?h = "hex_fixed hex_digit 2 given"
  let ?pkt = "CHR ''$'' # data @ CHR ''#'' # ?h @ [NUL]"
  have sum: "packet_sum ?pkt 1 (length data + 1) 0 = Inr (length data + 1, checksum data)"
    using packet_sum_append [of "[CHR ''$'']" data "CHR ''#'' # ?h @ [NUL]" 0] by simp
  have adv: "advance (length data + 2) ?pkt = Inr (?h @ [NUL])"
    by (simp add: advance_def)
  have hex: "\<forall>c \<in> set ?h. is_hex c" by (rule hex_fixed_digits)
  then have "\<forall>c \<in> set ?h. c \<noteq> NUL" using not_is_hex_space by blast
  then have cs: "c_string (?h @ [NUL]) = Inr ?h"
    by (simp add: c_string_def takeWhile_append)
  have fields: "scan_fields [32] ?h = Inr [Some given]"
    using scan_x_fixed [of 2 2 given 32 "[]"] assms(1) by simp
  have st: "store ?pkt (length data + 1) NUL = Inr (CHR ''$'' # data @ NUL # ?h @ [NUL])"
    using store_append [of "CHR ''$'' # data" "CHR ''#''" "?h @ [NUL]" NUL] by simp
  have two: "advance 2 (CHR ''$'' # data @ NUL # ?h @ [NUL])
      = Inr (if data = [] then ?h @ [NUL] else tl data @ NUL # ?h @ [NUL])"
    by (cases data) (simp_all add: advance_def)
  have ld: "load (CHR ''$'' # data @ NUL # ?h @ [NUL]) 1 = Inr (if data = [] then NUL else hd data)"
    by (cases data) simp_all
  have l3: "length data + 4 - 3 = length data + 1" by simp
  have i1: "length data + 1 + 1 = length data + 2" by simp
  have init: "initialised ([Some given] ! 0) = Inr given" by (simp add: initialised_def)
  have send: "gdb_send_ack gdb = Inr (gdb\<lparr>sent := sent gdb @ ''+''\<rparr>)"
    "gdb_require_retransmission gdb = Inr (gdb\<lparr>sent := sent gdb @ ''-''\<rparr>)"
    using assms(2) by (simp_all add: gdb_send_ack_def gdb_require_retransmission_def Rio_writen_def)
  show ?thesis
    unfolding packet_check_def l3 sum bindR_simps prod.case i1 adv cs fields init st ld two send
    by (cases data) auto
qed

lemma gdb_packet_analysis_framed:
  assumes "given < 256" "\<not> shut_down gdb"
  shows "gdb_packet_analysis gdb
      (CHR ''$'' # data @ CHR ''#'' # hex_fixed hex_digit 2 given @ [NUL]) (length data + 4) =
    (if given = unat (checksum data) then
       (case data of
          [] \<Rightarrow> Some (gdb_send_data (gdb\<lparr>sent := sent gdb @ ''+''\<rparr>) [])
        | c # args \<Rightarrow>
            (case handler c of
               Some h \<Rightarrow> h (gdb\<lparr>sent := sent gdb @ ''+''\<rparr>)
                           (args @ NUL # hex_fixed hex_digit 2 given @ [NUL])
             | None \<Rightarrow> Some (gdb_send_data (gdb\<lparr>sent := sent gdb @ ''+''\<rparr>) [])))
     else Some (Inr (gdb\<lparr>sent := sent gdb @ ''-''\<rparr>)))"
proof -
  have "handler NUL = None" by (simp add: handler_def)
  then show ?thesis
    unfolding gdb_packet_analysis_def packet_check_framed [OF assms] by (cases data) auto
qed

lemma format_02x_unat: "format_02x w = hex_fixed hex_digit 2 (unat w)" "unat (w :: u8) < 256"
  using unsigned_less [of w] by (simp_all add: format_02x_def)

lemma frame_received:
  assumes "\<not> shut_down gdb" "handler c = Some h"
  shows "gdb_packet_analysis gdb (frame (c # args) @ [NUL]) (length (frame (c # args))) =
    h (gdb\<lparr>sent := sent gdb @ ''+''\<rparr>) (args @ NUL # format_02x (checksum (c # args)) @ [NUL])"
  using gdb_packet_analysis_framed [of "unat (checksum (c # args))" gdb "c # args"]
      format_02x_unat(2) [of "checksum (c # args)"]
    assms
  by (simp add: frame_def format_02x_unat(1))

section \<open>Reading registers\<close>

definition register_text :: "(nat \<Rightarrow> u32) \<Rightarrow> string" where
  "register_text f = concat (map (\<lambda>i. format_08x (f i)) [0..<16])"

definition registers_text :: "(nat \<Rightarrow> u32) \<Rightarrow> u32 \<Rightarrow> string" where
  "registers_text f c = register_text f @ replicate 200 (CHR ''x'') @ format_08x c"

lemma length_register_text [simp]:
  "length (register_text f) = 128" "length (registers_text f c) = 336"
  by (simp_all add: register_text_def registers_text_def length_concat comp_def sum_list_triv)

lemma nul_format_08x: "NUL \<notin> set (format_08x v)"
  using hex_fixed_digits [of 8 "unat v"] not_is_hex_space unfolding format_08x_def by blast

lemma nul_format_02x: "NUL \<notin> set (format_02x b)"
  using hex_fixed_digits [of 2 "unat b"] not_is_hex_space unfolding format_02x_def by blast

lemma nul_registers_text: "NUL \<notin> set (registers_text f c)"
  using nul_format_08x by (auto simp: registers_text_def register_text_def)

lemma read_registers_loop_text:
  assumes "\<forall>i \<in> set is. i < 16 \<and> registers_read (sim_host (arm gdb)) (reg (arm gdb)) i
      (registers_get_mode (reg (arm gdb))) = Inr (f i)" "8 * length is < length rest"
  shows "read_registers_loop gdb is (pre @ rest) (length pre) =
    Inr (let t = concat (map (\<lambda>i. format_08x (f i)) is) in
         if is = [] then (pre @ rest, length pre)
         else (pre @ t @ NUL # drop (length t + 1) rest, length pre + length t))"
  using assms
proof (induction "is" arbitrary: pre rest)
  case (Cons i "is")
  let ?w = "format_08x (f i)"
  let ?rest = "NUL # drop 9 rest"
  have st: "store_string (pre @ rest) (length pre) ?w = Inr ((pre @ ?w) @ ?rest)"
    using store_string_append [of ?w rest pre] Cons.prems(2) by simp
  have "read_registers_loop gdb (i # is) (pre @ rest) (length pre)
      = read_registers_loop gdb is ((pre @ ?w) @ ?rest) (length (pre @ ?w))"
    using Cons.prems(1) by (simp add: read_register_def write_uint32_def st del: append_assoc)
  also have "\<dots> = Inr (let t = concat (map (\<lambda>i. format_08x (f i)) is) in
         if is = [] then ((pre @ ?w) @ ?rest, length (pre @ ?w))
         else ((pre @ ?w) @ t @ NUL # drop (length t + 1) ?rest, length (pre @ ?w) + length t))"
    using Cons.prems by (intro Cons.IH) auto
  finally show ?case by (cases "is") (simp_all add: Let_def add.commute)
qed simp

lemma fill_unknown_text:
  assumes "8 * n < length rest"
  shows "fill_unknown n (pre @ NUL # rest) (length pre) =
    Inr (pre @ replicate (8 * n) (CHR ''x'') @ NUL # drop (8 * n) rest, length pre + 8 * n)"
  using assms
proof (induction n arbitrary: pre rest)
  case (Suc n)
  have st: "store_string (pre @ NUL # rest) (length pre) ''xxxxxxxx'' = Inr ((pre @ ''xxxxxxxx'') @ NUL # drop 8 rest)"
    using store_string_append [of "''xxxxxxxx''" "NUL # rest" pre] Suc.prems
    by (simp add: numeral_eq_Suc)
  have "fill_unknown (Suc n) (pre @ NUL # rest) (length pre)
      = fill_unknown n ((pre @ ''xxxxxxxx'') @ NUL # drop 8 rest) (length (pre @ ''xxxxxxxx''))"
  proof -
    have l: "length pre + 8 = length (pre @ ''xxxxxxxx'')" by simp
    show ?thesis unfolding fill_unknown.simps st bindR_simps l ..
  qed
  also have "\<dots> = Inr ((pre @ ''xxxxxxxx'') @ replicate (8 * n) (CHR ''x'') @ NUL # drop (8 * n) (drop 8 rest),
      length (pre @ ''xxxxxxxx'') + 8 * n)"
    using Suc.prems by (intro Suc.IH) simp
  also have "\<dots> = Inr (pre @ replicate (8 * Suc n) (CHR ''x'') @ NUL # drop (8 * Suc n) rest,
      length pre + 8 * Suc n)"
    by (simp add: replicate_add [of 8] numeral_eq_Suc add.commute)
  finally show ?case .
qed simp


definition wf_gdb :: "gdb_protocol_data \<Rightarrow> bool" where
  "wf_gdb gdb \<longleftrightarrow> length (packet gdb) = MAX_PACKET_SIZE \<and> wf_table gdb \<and> wf_sim (arm gdb)
     \<and> wf_trace (trace gdb) \<and> \<not> shut_down gdb"

definition general :: "sim \<Rightarrow> nat \<Rightarrow> u32" where
  "general p i = (case raw p i (cur_mode p) of Inr v \<Rightarrow> v | Inl e \<Rightarrow> 0)"

lemma raw_general:
  "wf_sim p \<Longrightarrow> cur_mode p \<noteq> FIQ \<Longrightarrow> i < 16 \<Longrightarrow> raw p i (cur_mode p) = Inr (general p i)"
  by (rule raw_total [of p i "cur_mode p"]) (simp_all add: general_def)

lemma read_general_registers_reply:
  assumes "wf_gdb gdb" "cur_mode (arm gdb) \<noteq> FIQ"
  defines "reply \<equiv> registers_text (general (arm gdb)) (arm_read_cpsr (arm gdb))"
  shows "\<exists>rest. length (frame reply @ NUL # rest) = MAX_PACKET_SIZE \<and>
    read_general_registers gdb data = Inr (gdb\<lparr>packet := frame reply @ NUL # rest,
      len := 340, sent := sent gdb @ frame reply\<rparr>)"
proof -
  let ?f = "general (arm gdb)" and ?c = "arm_read_cpsr (arm gdb)"
  have lp: "length (packet gdb) = 4096" and ns: "\<not> shut_down gdb"
    using assms(1) by (simp_all add: wf_gdb_def MAX_PACKET_SIZE_def)
  then obtain c tl where p: "packet gdb = [c] @ tl" and tl: "length tl = 4095"
    by (cases "packet gdb") auto
  have rd: "\<forall>i \<in> set [0..<16]. i < 16 \<and> registers_read (sim_host (arm gdb)) (reg (arm gdb)) i
      (registers_get_mode (reg (arm gdb))) = Inr (?f i)"
    using raw_general [of "arm gdb"] assms(1,2) by (simp add: wf_gdb_def raw_def registers_get_mode_cur)
  have rt: "concat (map (\<lambda>i. format_08x (?f i)) [0..<16]) = register_text ?f"
    by (simp add: register_text_def)
  let ?t = "[c] @ register_text ?f"
  have s1: "read_registers_loop gdb [0..<16] (packet gdb) 1 = Inr (?t @ NUL # drop 129 tl, length ?t)"
    using read_registers_loop_text [OF rd, of tl "[c]"] tl unfolding rt p by simp
  let ?u = "?t @ replicate 192 (CHR ''x'')"
  have s2: "fill_unknown (8 * 3) (?t @ NUL # drop 129 tl) (length ?t)
      = Inr (?u @ NUL # drop 321 tl, length ?u)"
    using fill_unknown_text [of "8 * 3" "drop 129 tl" ?t] tl by simp
  let ?w = "?u @ ''xxxxxxxx''"
  have s3: "store_string (?u @ NUL # drop 321 tl) (length ?u) ''xxxxxxxx''
      = Inr (?w @ NUL # drop 329 tl)"
    using store_string_append [of "''xxxxxxxx''" "NUL # drop 321 tl" ?u] tl
    by (simp add: numeral_eq_Suc)
  have l3: "length ?u + 8 = length ?w" by simp
  have s4: "write_uint32 (?w @ NUL # drop 329 tl) (length ?w) ?c
      = Inr (?w @ format_08x ?c @ NUL # drop 337 tl)"
    using store_string_append [of "format_08x ?c" "NUL # drop 329 tl" ?w] tl
    by (simp add: write_uint32_def)
  have x: "replicate 192 (CHR ''x'') @ ''xxxxxxxx'' = replicate 200 (CHR ''x'')"
    by (simp add: numeral_eq_Suc)
  have t: "?w @ format_08x ?c @ NUL # drop 337 tl = c # reply @ NUL # drop 337 tl"
    unfolding reply_def registers_text_def x [symmetric] by simp
  let ?g = "gdb\<lparr>packet := c # reply @ NUL # drop 337 tl\<rparr>"
  have "read_general_registers gdb data = gdb_send_buffer ?g"
    unfolding read_general_registers_def s1 bindR_simps prod.case s2 s3 l3
    using s4 [unfolded t] by (simp add: arm_read_cpsr_def)
  also have "\<dots> = Inr (gdb\<lparr>packet := frame reply @ NUL # drop 3 (drop 337 tl),
      len := 340, sent := sent gdb @ frame reply\<rparr>)"
    using gdb_send_buffer_frame [of ?g c reply "drop 337 tl"] tl ns
    by (simp add: reply_def nul_registers_text)
  finally show ?thesis
    using tl by (intro exI [of _ "drop 3 (drop 337 tl)"])
      (simp add: frame_def reply_def MAX_PACKET_SIZE_def)
qed

section \<open>Writing registers\<close>

lemma read_uint32_format:
  assumes "NUL \<in> set rest"
  shows "read_uint32 (format_08x v @ rest) = Inr v"
proof -
  have "c_string (format_08x v @ rest) = Inr (format_08x v @ takeWhile (\<lambda>c. c \<noteq> NUL) rest)"
    using assms nul_format_08x [of v] by (auto simp: c_string_def takeWhile_append)
  moreover have "scan_x 32 8 (format_08x v @ s) = Inr (Some (unat v), s)" for s
    unfolding format_08x_def
    using unsigned_less [of v] by (intro scan_x_fixed) simp_all
  ultimately show ?thesis by (simp add: read_uint32_def)
qed

lemma write_register_format:
  "NUL \<in> set rest \<Longrightarrow> i < 16 \<Longrightarrow> write_register gdb i (format_08x v @ rest) =
    bindR (registers_write (sim_host (arm gdb)) (reg (arm gdb)) i (cur_mode (arm gdb)) v) (\<lambda>rs.
    Inr (gdb\<lparr>arm := (arm gdb)\<lparr>reg := rs\<rparr>\<rparr>))"
  by (simp add: write_register_def read_uint32_format registers_get_mode_cur)

lemma write_registers_loop_text:
  assumes "wf_sim (arm gdb)" "\<forall>i \<in> set is. i < 16" "NUL \<in> set rest"
  shows "write_registers_loop gdb is (concat (map (\<lambda>i. format_08x (f i)) is) @ rest) =
    bindR (write_list (registers_write (sim_host (arm gdb))) (reg (arm gdb)) (cur_mode (arm gdb))
      (map (\<lambda>i. (i, f i)) is)) (\<lambda>r. Inr (gdb\<lparr>arm := (arm gdb)\<lparr>reg := r\<rparr>\<rparr>, rest))"
  using assms
proof (induction "is" arbitrary: gdb)
  case (Cons i "is")
  let ?tl = "concat (map (\<lambda>i. format_08x (f i)) is) @ rest"
  have wr: "write_register gdb i (format_08x (f i) @ ?tl) =
    bindR (registers_write (sim_host (arm gdb)) (reg (arm gdb)) i (cur_mode (arm gdb)) (f i)) (\<lambda>rs.
    Inr (gdb\<lparr>arm := (arm gdb)\<lparr>reg := rs\<rparr>\<rparr>))"
    using Cons.prems by (intro write_register_format) auto
  have adv: "advance 8 (format_08x (f i) @ ?tl) = Inr ?tl" by (simp add: advance_def)
  show ?case
  proof (cases "registers_write (sim_host (arm gdb)) (reg (arm gdb)) i (cur_mode (arm gdb)) (f i)")
    case (Inl e)
    then show ?thesis using wr by simp
  next
    case (Inr rs)
    let ?g = "gdb\<lparr>arm := (arm gdb)\<lparr>reg := rs\<rparr>\<rparr>"
    have w: "arm_write_register i (f i) (arm gdb) = Inr (arm ?g)"
      using Inr by (simp add: arm_write_register_cell)
    have "wf_sim (arm ?g)" by (rule arm_write_registerE [OF Cons.prems(1) w])
    moreover have "cur_mode (arm ?g) = cur_mode (arm gdb)"
      using Cons.prems(2) by (intro cur_mode_write_register(2) [OF Cons.prems(1) w]) simp
    ultimately show ?thesis using Cons.IH [of ?g] Cons.prems(2,3) Inr wr adv by simp
  qed
qed simp

lemma mem_write_cpsr: "mem (arm_write_cpsr v p) = mem p"
  by (simp add: arm_write_cpsr_def)

lemma write_general_registers_text:
  assumes "wf_gdb gdb" "cur_mode (arm gdb) \<noteq> FIQ"
  shows "\<exists>gdb'. write_general_registers gdb (registers_text f c @ NUL # rest) = Inr gdb'
    \<and> sent gdb' = sent gdb @ frame ''OK'' \<and> arm_read_cpsr (arm gdb') = c
    \<and> (\<forall>i < 16. raw (arm gdb') i (cur_mode (arm gdb)) = Inr (f i))
    \<and> mem (arm gdb') = mem (arm gdb) \<and> wf_gdb gdb'"
proof -
  let ?p = "arm gdb"
  have w: "wf_sim ?p" and wr: "wf_registers (reg ?p)" using assms(1) by (auto simp: wf_gdb_def wf_sim_def)
  let ?xs = "map (\<lambda>i. (i, f i)) [0..<16]"
  have "\<forall>i \<in> fst ` set ?xs. \<exists>k. cell i (cur_mode ?p) = Inr k" using cell_low assms(2) by auto
  moreover have "distinct (map fst ?xs)" by (simp add: comp_def)
  ultimately obtain r where r: "write_list (registers_write (sim_host ?p)) (reg ?p) (cur_mode ?p) ?xs = Inr r"
    "wf_registers r" "\<forall>(i, v) \<in> set ?xs. registers_read (sim_host ?p) r i (cur_mode ?p) = Inr v"
    using banks.write_list_reads [OF wr, of ?xs "cur_mode ?p" "sim_host ?p"] by blast
  let ?g = "gdb\<lparr>arm := ?p\<lparr>reg := r\<rparr>\<rparr>"
  let ?tail = "replicate 200 (CHR ''x'') @ format_08x c @ NUL # rest"
  have loop: "write_registers_loop gdb [0..<16] (registers_text f c @ NUL # rest) = Inr (?g, ?tail)"
    using write_registers_loop_text [OF w, of "[0..<16]" ?tail f] r(1)
    by (simp add: registers_text_def register_text_def)
  have adv: "advance (8 * 3 * 8 + 8) ?tail = Inr (format_08x c @ NUL # rest)"
    by (simp add: advance_def)
  have rdc: "read_uint32 (format_08x c @ NUL # rest) = Inr c"
    by (rule read_uint32_format) simp
  let ?h = "?g\<lparr>arm := arm_write_cpsr c (arm ?g)\<rparr>"
  have wg: "wf_sim (arm ?g)" using w r(2) by (simp add: wf_sim_def)
  have raw_g: "raw (arm ?g) i (cur_mode ?p) = Inr (f i)" if "i < 16" for i
    using r(3) that by (simp add: raw_def)
  obtain rest' where send: "length (frame ''OK'' @ NUL # rest') = 4096"
    "gdb_send_data ?h ''OK'' = Inr (?h\<lparr>packet := frame ''OK'' @ NUL # rest', len := 6,
       sent := sent gdb @ frame ''OK''\<rparr>)"
    using gdb_send_data_frame [of "''OK''" ?h] assms(1) by (auto simp: wf_gdb_def MAX_PACKET_SIZE_def)
  have "write_general_registers gdb (registers_text f c @ NUL # rest) = gdb_send_data ?h ''OK''"
    unfolding write_general_registers_def loop bindR_simps prod.case adv rdc
    by (simp add: arm_write_cpsr_def)
  then show ?thesis
    using send assms(1) wg raw_g wf_sim_write_cpsr [OF wg, of c] mem_write_cpsr [of c "arm ?g"]
    by (auto simp: wf_gdb_def wf_table_def active_def MAX_PACKET_SIZE_def)
qed

section \<open>Properties\<close>

lemma gdb_send_data_reply:
  assumes "wf_gdb gdb" "NUL \<notin> set data" "length data + 5 \<le> MAX_PACKET_SIZE"
  shows "\<exists>g. gdb_send_data gdb data = Inr g \<and> sent g = sent gdb @ frame data \<and> wf_gdb g
    \<and> arm g = arm gdb \<and> trace g = trace gdb \<and> target_exception g = target_exception gdb
    \<and> breakpoint_set g = breakpoint_set gdb"
proof -
  obtain rest where "length (frame data @ NUL # rest) = length (packet gdb)"
    "gdb_send_data gdb data = Inr (gdb\<lparr>packet := frame data @ NUL # rest,
      len := length data + 4, sent := sent gdb @ frame data\<rparr>)"
    using gdb_send_data_frame [of data gdb] assms by (auto simp: wf_gdb_def)
  then show ?thesis
    using assms(1) by (auto simp: wf_gdb_def wf_table_def breakpoint_set_def active_def)
qed

definition demo_gdb :: "u8 list \<Rightarrow> gdb_protocol_data" where
  "demo_gdb bs = \<lparr>breakpoints = replicate 1024 0, breakpoints_number = 0, arm = demo_sim bs,
     trace = trace_initial, target_exception = 0, packet = replicate 4096 NUL, len = 0,
     sent = [], shut_down = False\<rparr>"

lemma wf_trace_initial: "wf_trace trace_initial"
  by (simp add: wf_trace_def trace_initial_def)

lemma wf_demo_gdb: "length bs < 2 ^ 32 \<Longrightarrow> wf_gdb (demo_gdb bs)"
  using wf_demo_sim [of bs] wf_trace_initial
  by (simp add: wf_gdb_def demo_gdb_def wf_table_def active_def MAX_PACKET_SIZE_def
      MAX_BREAKPOINTS_NUMBER_def)

lemma demo_gdb_simps:
  "arm (demo_gdb bs) = demo_sim bs" "sent (demo_gdb bs) = []" "trace (demo_gdb bs) = trace_initial"
  "breakpoints_number (demo_gdb bs) = 0" "target_exception (demo_gdb bs) = 0"
  by (simp_all add: demo_gdb_def)

text \<open>C36: A packet whose two hexadecimal digits are the checksum of its payload is acknowledged and its
  first character selects the handler, which gets the rest of the payload as a string; a payload
  without a handler gets the empty reply. With any other digits the packet is not executed: the
  retransmission is requested and nothing else changes.\<close>

theorem packet_acceptance:
  assumes "wf_gdb gdb" "given < 256"
  defines "digits \<equiv> hex_fixed hex_digit 2 given" and "ack \<equiv> gdb\<lparr>sent := sent gdb @ ''+''\<rparr>"
  shows "let r = gdb_packet_analysis gdb (CHR ''$'' # data @ CHR ''#'' # digits @ [NUL])
      (length data + 4) in
    if given \<noteq> unat (checksum data) then r = Some (Inr (gdb\<lparr>sent := sent gdb @ ''-''\<rparr>))
    else case (if data = [] then None else handler (hd data)) of
        Some h \<Rightarrow> r = h ack (tl data @ NUL # digits @ [NUL])
      | None \<Rightarrow> \<exists>g. r = Some (Inr g) \<and> sent g = sent gdb @ ''+$#00'' \<and> arm g = arm gdb
          \<and> breakpoint_set g = breakpoint_set gdb \<and> wf_gdb g"
proof -
  have ns: "\<not> shut_down gdb" and wa: "wf_gdb ack"
    using assms(1) by (simp_all add: wf_gdb_def ack_def wf_table_def active_def)
  have "frame [] = ''$#00''"
    by code_simp
  then obtain g where "gdb_send_data ack [] = Inr g" "sent g = sent gdb @ ''+$#00''" "wf_gdb g"
    "arm g = arm gdb" "breakpoint_set g = breakpoint_set gdb"
    using gdb_send_data_reply [OF wa, of "[]"]
    by (auto simp: MAX_PACKET_SIZE_def ack_def breakpoint_set_def active_def)
  then show ?thesis
    unfolding Let_def digits_def gdb_packet_analysis_framed [OF assms(2) ns] ack_def
    by (cases data) (auto split: option.split)
qed

text \<open>C37: The text a debugger gets for all registers, written back at any later time in the same mode,
  restores the sixteen registers and the status register, and changes no memory. The read itself
  changes nothing in the processor.\<close>

theorem general_registers_roundtrip:
  assumes "wf_gdb gdb" "cur_mode (arm gdb) \<noteq> FIQ" "wf_gdb later"
    "cur_mode (arm later) = cur_mode (arm gdb)"
  shows "\<exists>reply g. read_general_registers gdb data = Inr g \<and> sent g = sent gdb @ frame reply
    \<and> arm g = arm gdb
    \<and> (\<exists>g'. write_general_registers later (reply @ NUL # rest) = Inr g'
        \<and> sent g' = sent later @ frame ''OK''
        \<and> arm_read_cpsr (arm g') = arm_read_cpsr (arm gdb)
        \<and> (\<forall>i < 16. raw (arm g') i (cur_mode (arm gdb)) = raw (arm gdb) i (cur_mode (arm gdb)))
        \<and> mem (arm g') = mem (arm later))"
proof -
  let ?f = "general (arm gdb)" and ?c = "arm_read_cpsr (arm gdb)"
  have w: "wf_sim (arm gdb)" using assms(1) by (simp add: wf_gdb_def)
  obtain g where "read_general_registers gdb data = Inr g"
    "sent g = sent gdb @ frame (registers_text ?f ?c)" "arm g = arm gdb"
    using read_general_registers_reply [OF assms(1,2), of data] by auto
  moreover obtain g' where "write_general_registers later (registers_text ?f ?c @ NUL # rest) = Inr g'"
    "sent g' = sent later @ frame ''OK''" "arm_read_cpsr (arm g') = ?c"
    "\<forall>i < 16. raw (arm g') i (cur_mode (arm later)) = Inr (?f i)" "mem (arm g') = mem (arm later)"
    using write_general_registers_text [OF assms(3), of ?f ?c rest] assms(2,4) by auto
  ultimately show ?thesis
    using raw_general [OF w assms(2)] assms(4)
    by (intro exI [of _ "registers_text ?f ?c"] exI [of _ g] conjI exI [of _ g']) simp_all
qed

theorem packet_acceptance_witness:
  "gdb_packet_analysis (demo_gdb []) (''$k#6b'' @ [NUL]) 5 =
      Some (Inr ((demo_gdb [])\<lparr>sent := ''+'', shut_down := True\<rparr>))
    \<and> gdb_packet_analysis (demo_gdb []) (''$k#6c'' @ [NUL]) 5 = Some (Inr ((demo_gdb [])\<lparr>sent := ''-''\<rparr>))"
proof -
  have c: "checksum ''k'' = 0x6b" by (simp add: checksum_def)
  have h: "hex_fixed hex_digit 2 0x6b = ''6b''" "hex_fixed hex_digit 2 0x6c = ''6c''"
    by code_simp+
  show ?thesis
    using packet_acceptance [where gdb = "demo_gdb []" and given = "0x6b" and data = "''k''"]
      packet_acceptance [where gdb = "demo_gdb []" and given = "0x6c" and data = "''k''"]
    by (simp add: wf_demo_gdb c h demo_gdb_simps handler_def kill_request_def)
qed

theorem general_registers_roundtrip_witness:
  "\<exists>reply g. read_general_registers (demo_gdb [1, 2, 3]) [] = Inr g \<and> sent g = frame reply
    \<and> (\<exists>g'. write_general_registers (demo_gdb [4]) (reply @ [NUL]) = Inr g'
        \<and> arm_read_cpsr (arm g') = 0x153
        \<and> (\<forall>i < 16. raw (arm g') i SVC = raw (demo_sim [1, 2, 3]) i SVC))"
  using general_registers_roundtrip [of "demo_gdb [1, 2, 3]" "demo_gdb [4]" "[]" "[]"]
  by (auto simp: wf_demo_gdb demo_gdb_simps demo_sim_simps)

end
