(* ===== verification/Gdb_Commands.thy ===== *)
theory Gdb_Commands
  imports Gdb_Packets
begin

text \<open>
  The memory commands of the remote protocol: the text of addresses and lengths, the hexadecimal
  replies, the binary encoding of the data to write, and the round trip of the two commands.
\<close>

section \<open>Numbers in commands\<close>

lemma show_hex_fixed:
  obtains k where "0 < k" "show_hex n = hex_fixed hex_digit k n" "n < 16 ^ k"
proof (induction n arbitrary: thesis rule: show_hex.induct)
  case (1 n)
  show thesis
  proof (cases "n < 16")
    case True
    then show thesis by (intro "1.prems" [of 1]) (simp_all add: show_hex.simps [of n])
  next
    case False
    obtain k where k: "0 < k" "show_hex (n div 16) = hex_fixed hex_digit k (n div 16)" "n div 16 < 16 ^ k"
      using "1.IH" [OF False] by blast
    have "n < 16 ^ Suc k" using k(3) by (simp add: div_less_iff_less_mult mult.commute)
    with False k show thesis by (intro "1.prems" [of "Suc k"]) (simp_all add: show_hex.simps [of n])
  qed
qed

definition ends_number :: "string \<Rightarrow> bool" where
  "ends_number rest \<longleftrightarrow> rest = [] \<or> \<not> is_hex (hd rest) \<and> hd rest \<notin> {CHR ''x'', CHR ''X''}"

lemma scan_x_show_hex:
  assumes "n < 2 ^ bits" "ends_number rest" "length (show_hex n) \<le> w"
  shows "scan_x bits w (show_hex n @ rest) = Inr (Some n, rest)"
proof -
  obtain k where k: "0 < k" "show_hex n = hex_fixed hex_digit k n" "n < 16 ^ k" by (rule show_hex_fixed)
  have "k \<le> w" using assms(3) unfolding k(2) by simp
  then show ?thesis
    unfolding k(2) using k(1,3) assms(1,2)
    by (intro scan_x_fixed) (auto simp: ends_number_def)
qed

lemma set_show_hex: "c \<in> set (show_hex n) \<Longrightarrow> is_hex c"
proof -
  assume "c \<in> set (show_hex n)"
  moreover obtain k where "show_hex n = hex_fixed hex_digit k n" by (rule show_hex_fixed)
  ultimately show ?thesis using hex_fixed_digits by auto
qed

text \<open>The text of two numbers, as the commands on the memory start with.\<close>

definition range_text :: "nat \<Rightarrow> nat \<Rightarrow> string" where
  "range_text a n = show_hex a @ '','' @ show_hex n"

lemma scan_range_text:
  assumes "a < 2 ^ 32" "n < 2 ^ 32" "ends_number rest"
  shows "scan_fields [32, 32] (range_text a n @ rest) = Inr [Some a, Some n]"
proof -
  have comma: "ends_number ('','' @ t)" for t by (simp add: ends_number_def is_hex_def)
  have "scan_x 32 w (show_hex a @ '','' @ show_hex n @ rest) = Inr (Some a, '','' @ show_hex n @ rest)"
    if "length (show_hex a) \<le> w" for w
    using scan_x_show_hex [OF assms(1) comma that] .
  moreover have "scan_x 32 w (show_hex n @ rest) = Inr (Some n, rest)" if "length (show_hex n) \<le> w" for w
    using scan_x_show_hex [OF assms(2,3) that] .
  ultimately show ?thesis by (simp add: range_text_def)
qed

lemma set_range_text: "c \<in> set (range_text a n) \<Longrightarrow> is_hex c \<or> c = CHR '',''"
  using set_show_hex by (auto simp: range_text_def)

lemma nul_range_text: "NUL \<notin> set (range_text a n)" "CHR '':'' \<notin> set (range_text a n)"
  using set_range_text [of NUL a n] set_range_text [of "CHR '':''" a n] by (auto simp: is_hex_def)

lemma c_string_append: "NUL \<notin> set s \<Longrightarrow> c_string (s @ NUL # rest) = Inr s"
  by (auto simp: c_string_def takeWhile_append)

section \<open>Reading memory\<close>

definition hex_of_bytes :: "u8 list \<Rightarrow> string" where
  "hex_of_bytes bs = concat (map format_02x bs)"

lemma length_hex_of_bytes [simp]: "length (hex_of_bytes bs) = 2 * length bs"
  by (induction bs) (simp_all add: hex_of_bytes_def)

lemma nul_hex_of_bytes: "NUL \<notin> set (hex_of_bytes bs)"
  using nul_format_02x by (auto simp: hex_of_bytes_def)

lemma store_string_fit:
  "store_string (pre @ rest) (length pre) s =
    (if length s < length rest then Inr (pre @ s @ NUL # drop (length s + 1) rest)
     else Inl Out_Of_Bounds)"
  using store_string_append [of s rest pre] by (auto simp: store_string_def store_list_def)

lemma read_memory_loop_text:
  fixes n :: nat
  assumes "wf_memory (Some m)" "unat a \<le> msize m"
  defines "bs \<equiv> take n (drop (unat a) (mdata m))"
  shows "read_memory_loop (Some m) n a (pre @ NUL # rest) (length pre) =
    (if 2 * length bs \<le> length rest then Inr (pre @ hex_of_bytes bs @ NUL # drop (2 * length bs) rest)
     else Inl Out_Of_Bounds)"
  using assms(2) unfolding bs_def
proof (induction n arbitrary: a pre rest)
  case 0
  show ?case by (simp add: hex_of_bytes_def)
next
  case (Suc n)
  have len: "length (mdata m) = msize m" "msize m < 2 ^ 32" using assms(1) by (simp_all add: wf_memory_def)
  show ?case
  proof (cases "unat a < msize m")
    case False
    then show ?thesis using len Suc.prems by (simp add: read_byte_refused hex_of_bytes_def)
  next
    case True
    let ?b = "mdata m ! unat a"
    have rd: "memory_read_byte (Some m) a = Inr (Some ?b)"
      using True by (intro read_byte_inside assms(1)) (simp add: inside_def)
    have a1: "unat (a + 1) = unat a + 1"
      using unat_add_no_wrap [of a 1] True len by simp
    have d: "drop (unat a) (mdata m) = ?b # drop (unat (a + 1)) (mdata m)"
      using True len a1 by (simp add: Cons_nth_drop_Suc)
    let ?t = "take n (drop (unat (a + 1)) (mdata m))"
    show ?thesis
    proof (cases "length rest < 2")
      case small: True
      then have "store_string (pre @ NUL # rest) (length pre) (format_02x ?b) = Inl Out_Of_Bounds"
        unfolding store_string_fit by auto
      with rd small d show ?thesis by simp
    next
      case False
      then have st: "store_string (pre @ NUL # rest) (length pre) (format_02x ?b)
          = Inr ((pre @ format_02x ?b) @ NUL # drop 2 rest)"
        unfolding store_string_fit by (simp add: eval_nat_numeral)
      have "read_memory_loop (Some m) (Suc n) a (pre @ NUL # rest) (length pre)
          = read_memory_loop (Some m) n (a + 1) ((pre @ format_02x ?b) @ NUL # drop 2 rest)
              (length (pre @ format_02x ?b))"
        by (simp add: rd st del: append_assoc)
      also have "\<dots> = (if 2 * length ?t \<le> length (drop 2 rest)
          then Inr ((pre @ format_02x ?b) @ hex_of_bytes ?t @ NUL # drop (2 * length ?t) (drop 2 rest))
          else Inl Out_Of_Bounds)"
        using True a1 by (intro Suc.IH) simp
      also have "\<dots> = (if 2 * length (?b # ?t) \<le> length rest
          then Inr (pre @ hex_of_bytes (?b # ?t) @ NUL # drop (2 * length (?b # ?t)) rest)
          else Inl Out_Of_Bounds)"
        using False by (auto simp: hex_of_bytes_def add.commute)
      finally show ?thesis unfolding d by simp
    qed
  qed
qed

lemma gdb_send_buffer_overrun:
  assumes "packet gdb = c # data @ NUL # rest" "NUL \<notin> set data" "length rest < 3"
  shows "gdb_send_buffer gdb = Inl Out_Of_Bounds"
proof -
  let ?p = "CHR ''$'' # data"
  have s0: "store (packet gdb) 0 (CHR ''$'') = Inr (?p @ NUL # rest)"
    by (simp add: assms(1) store_def)
  have pe: "payload_end (?p @ NUL # rest) 1 0 = Inr (length ?p, checksum data)"
    using payload_end_append [OF assms(2), of "[CHR ''$'']" rest 0] by simp
  have s1: "store (?p @ NUL # rest) (length ?p) (CHR ''#'') = Inr ((?p @ [CHR ''#'']) @ rest)"
    using store_append [of ?p NUL rest "CHR ''#''"] by simp
  have "store_string ((?p @ [CHR ''#'']) @ rest) (length (?p @ [CHR ''#''])) (format_02x (checksum data))
      = Inl Out_Of_Bounds"
    unfolding store_string_fit using assms(3) by simp
  then have s2: "store_string ((?p @ [CHR ''#'']) @ rest) (length ?p + 1) (format_02x (checksum data))
      = Inl Out_Of_Bounds" by simp
  show ?thesis
    unfolding gdb_send_buffer_def s0 bindR_simps pe prod.case s1 s2 ..
qed


text \<open>The command without the letter \<^verbatim>\<open>m\<close>, as the handler gets it.\<close>

lemma read_memory_reply:
  assumes "wf_gdb gdb" "mem (arm gdb) = Some m" "a < msize m" "n < 2 ^ 32"
  defines "bs \<equiv> take n (drop a (mdata m))"
  shows "if length bs \<le> 2045
    then \<exists>g. read_memory gdb (range_text a n @ NUL # rest) = Inr g \<and> wf_gdb g \<and> arm g = arm gdb
      \<and> sent g = sent gdb @ frame (hex_of_bytes bs)
    else read_memory gdb (range_text a n @ NUL # rest) = Inl Out_Of_Bounds"
proof -
  have wm: "wf_memory (Some m)" using assms(1,2) by (auto simp: wf_gdb_def wf_sim_def)
  then have a: "a < 2 ^ 32" using assms(3) by (simp add: wf_memory_def)
  then have ua: "unat (of_nat a :: u32) = a" by (simp add: unsigned_of_nat take_bit_nat_eq_self)
  have lp: "length (packet gdb) = 4096" and ns: "\<not> shut_down gdb"
    using assms(1) by (simp_all add: wf_gdb_def MAX_PACKET_SIZE_def)
  then obtain c d tl where p: "packet gdb = c # d # tl" and tl: "length tl = 4094"
    by (cases "packet gdb"; cases "List.tl (packet gdb)") auto
  have st: "store (packet gdb) 1 NUL = Inr ([c] @ NUL # tl)" by (simp add: p store_def)
  have loop: "read_memory_loop (Some m) n (of_nat a) ([c] @ NUL # tl) 1 =
    (if 2 * length bs \<le> length tl then Inr ([c] @ hex_of_bytes bs @ NUL # drop (2 * length bs) tl)
     else Inl Out_Of_Bounds)"
    using read_memory_loop_text [OF wm, of "of_nat a" n "[c]" tl] assms(3) unfolding ua bs_def by simp
  have scan: "scan_fields [32, 32] (range_text a n) = Inr [Some a, Some n]"
    using scan_range_text [OF a assms(4), of "[]"] by (simp add: ends_number_def)
  have sz: "a < memory_get_size (mem (arm gdb))" using assms(2,3) by (simp add: memory_get_size_def)
  have run: "read_memory gdb (range_text a n @ NUL # rest) =
    (if 2 * length bs \<le> length tl
     then gdb_send_buffer (gdb\<lparr>packet := [c] @ hex_of_bytes bs @ NUL # drop (2 * length bs) tl\<rparr>)
     else Inl Out_Of_Bounds)"
    unfolding read_memory_def c_string_append [OF nul_range_text(1)] bindR_simps scan
    using sz loop st by (simp add: initialised_def assms(2))
  show ?thesis
  proof (cases "length bs \<le> 2045")
    case True
    let ?g = "gdb\<lparr>packet := c # hex_of_bytes bs @ NUL # drop (2 * length bs) tl\<rparr>"
    have "gdb_send_buffer ?g = Inr (?g\<lparr>packet := frame (hex_of_bytes bs) @ NUL # drop 3 (drop (2 * length bs) tl),
        len := 2 * length bs + 4, sent := sent gdb @ frame (hex_of_bytes bs)\<rparr>)"
      using gdb_send_buffer_frame [of ?g c "hex_of_bytes bs" "drop (2 * length bs) tl"] True tl ns
      by (simp add: nul_hex_of_bytes)
    with True tl run assms(1) show ?thesis
      by (auto simp: wf_gdb_def wf_table_def active_def frame_def MAX_PACKET_SIZE_def)
  next
    case False
    moreover have "gdb_send_buffer (gdb\<lparr>packet := c # hex_of_bytes bs @ NUL # drop (2 * length bs) tl\<rparr>)
        = Inl Out_Of_Bounds"
      using False tl
      by (intro gdb_send_buffer_overrun [of _ c "hex_of_bytes bs" "drop (2 * length bs) tl"])
        (simp_all add: nul_hex_of_bytes)
    ultimately show ?thesis using run by simp
  qed
qed

section \<open>Writing memory\<close>

text \<open>
  The binary encoding of the packets that write memory: a byte of \<open>E\<close> is sent as the escape
  character 0x7D followed by the byte with bit 5 flipped.
\<close>

definition escape :: "u8 set \<Rightarrow> u8 list \<Rightarrow> string" where
  "escape E bs = concat (map (\<lambda>b. if b \<in> E then [CHR 0x7D, char_of (unat (b XOR 0x20))]
                                   else [char_of (unat b)]) bs)"

lemma escape_Cons:
  "escape E (b # bs) = (if b \<in> E then [CHR 0x7D, char_of (unat (b XOR 0x20))]
     else [char_of (unat b)]) @ escape E bs"
  by (simp add: escape_def)

lemma of_char_byte: "(of_char c :: u8) = of_nat (of_char c)"
  by (simp only: of_nat_of_char)

lemma of_char_of_byte [simp]: "(of_char (char_of (unat b) :: char) :: u8) = b"
proof -
  have "(of_char (char_of (unat b) :: char) :: nat) = unat b"
    using format_02x_unat(2) [of b] by simp
  then show ?thesis unfolding of_char_byte by simp
qed

lemma unat_of_char: "unat (of_char c :: u8) = of_char c"
  using of_char_mod_256 [of c, where ?'a = nat] unfolding of_char_byte
  by (simp add: unsigned_of_nat take_bit_eq_mod del: of_char_mod_256)

lemma char_of_byte_eq: "(char_of (unat (b :: u8)) = c) \<longleftrightarrow> b = of_char c"
  using of_char_of_byte [of b] unat_of_char [of c] by (metis char_of_char)

lemma write_memory_loop_text:
  assumes "wf_memory (Some m)" "unat a \<le> msize m" "0x7D \<in> E"
  shows "write_memory_loop (length bs) (escape E bs @ rest) a (Some m) =
    Inr (unat a + length bs \<le> msize m,
         Some (m\<lparr>mdata := take (unat a) (mdata m) @ take (msize m - unat a) bs
                          @ drop (unat a + length bs) (mdata m)\<rparr>))"
  using assms(1,2)
proof (induction bs arbitrary: a m)
  case Nil
  show ?case using Nil.prems by simp
next
  case (Cons b bs)
  have len: "length (mdata m) = msize m" "msize m < 2 ^ 32"
    using Cons.prems(1) by (simp_all add: wf_memory_def)
  let ?tl = "escape E bs @ rest"
  have unfold_loop: "write_memory_loop (length (b # bs)) (escape E (b # bs) @ rest) a (Some m) =
    bindR (memory_write_byte (Some m) a b) (\<lambda>(rc, m).
    if rc = 0 then write_memory_loop (length bs) ?tl (a + 1) m else Inr (False, m))"
    using assms(3) by (auto simp: escape_Cons advance_def char_of_byte_eq xor.assoc cong: if_cong)
  show ?case
  proof (cases "unat a < msize m")
    case False
    with len Cons.prems(2) show ?thesis
      unfolding unfold_loop by (simp add: write_byte_refused)
  next
    case True
    let ?m = "m\<lparr>mdata := (mdata m)[unat a := b]\<rparr>"
    have wr: "memory_write_byte (Some m) a b = Inr (0, Some ?m)"
      using True Cons.prems(1) by (intro write_byte_inside) (simp_all add: inside_def)
    have a1: "unat (a + 1) = unat a + 1"
      using unat_add_no_wrap [of a 1] True len by simp
    have "write_memory_loop (length bs) ?tl (a + 1) (Some ?m) =
      Inr (unat (a + 1) + length bs \<le> msize ?m,
         Some (?m\<lparr>mdata := take (unat (a + 1)) (mdata ?m) @ take (msize ?m - unat (a + 1)) bs
                          @ drop (unat (a + 1) + length bs) (mdata ?m)\<rparr>))"
      using True a1 len by (intro Cons.IH wf_memory_update Cons.prems(1)) simp_all
    moreover have "take (unat a + 1) ((mdata m)[unat a := b]) = take (unat a) (mdata m) @ [b]"
      using True len by (simp add: take_Suc_conv_app_nth)
    moreover have "take (msize m - unat a) (b # bs) = b # take (msize m - (unat a + 1)) bs"
      using True by (simp add: take_Cons')
    ultimately show ?thesis
      unfolding unfold_loop wr using a1 by simp
  qed
qed


lemma write_memory_reply:
  assumes "wf_gdb gdb" "mem (arm gdb) = Some m" "a < msize m" "length bs < 2 ^ 32" "0x7D \<in> E"
  shows "\<exists>g. write_memory_binary gdb (range_text a (length bs) @ '':'' @ escape E bs @ NUL # rest) = Inr g
    \<and> wf_gdb g
    \<and> sent g = sent gdb @ frame (if a + length bs \<le> msize m then ''OK'' else ''E02'')
    \<and> arm g = (arm gdb)\<lparr>mem := Some (m\<lparr>mdata := take a (mdata m) @ take (msize m - a) bs
                                          @ drop (a + length bs) (mdata m)\<rparr>)\<rparr>"
proof -
  let ?data = "range_text a (length bs) @ '':'' @ escape E bs @ NUL # rest"
  let ?d = "take a (mdata m) @ take (msize m - a) bs @ drop (a + length bs) (mdata m)"
  have wm: "wf_memory (Some m)" using assms(1,2) by (auto simp: wf_gdb_def wf_sim_def)
  then have a: "a < 2 ^ 32" and len: "length (mdata m) = msize m"
    using assms(3) by (simp_all add: wf_memory_def)
  then have ua: "unat (of_nat a :: u32) = a" by (simp add: unsigned_of_nat take_bit_nat_eq_self)
  define s where "s = takeWhile (\<lambda>c. c \<noteq> NUL) ?data"
  obtain u where s: "s = range_text a (length bs) @ CHR '':'' # u"
  proof -
    have "s = range_text a (length bs) @ takeWhile (\<lambda>c. c \<noteq> NUL) ('':'' @ escape E bs @ NUL # rest)"
      unfolding s_def using nul_range_text(1) [of a "length bs"] by (subst takeWhile_append2) auto
    then show thesis using that by simp
  qed
  have cs: "c_string ?data = Inr s" by (simp add: c_string_def s_def)
  have scan: "scan_fields [32, 32] s = Inr [Some a, Some (length bs)]"
    unfolding s by (rule scan_range_text [OF a assms(4)]) (simp add: ends_number_def is_hex_def)
  have tw: "takeWhile (\<lambda>x. x \<noteq> CHR '':'') s = range_text a (length bs)"
    unfolding s using nul_range_text(2) [of a "length bs"] by (auto simp: takeWhile_append)
  have "CHR '':'' \<in> set s" by (simp add: s)
  then have ac: "after_char (CHR '':'') ?data = Inr (escape E bs @ NUL # rest)"
    unfolding after_char_def cs bindR_simps tw by (simp add: advance_def)
  have loop: "write_memory_loop (length bs) (escape E bs @ NUL # rest) (of_nat a) (Some m) =
      Inr (a + length bs \<le> msize m, Some (m\<lparr>mdata := ?d\<rparr>))"
    using write_memory_loop_text [OF wm _ assms(5), of "of_nat a" bs "NUL # rest"] assms(3)
    unfolding ua by simp
  have sz: "a < memory_get_size (mem (arm gdb))" using assms(2,3) by (simp add: memory_get_size_def)
  let ?g = "gdb\<lparr>arm := (arm gdb)\<lparr>mem := Some (m\<lparr>mdata := ?d\<rparr>)\<rparr>\<rparr>"
  have run: "write_memory_binary gdb ?data =
      gdb_send_data ?g (if a + length bs \<le> msize m then ''OK'' else ''E02'')"
    unfolding write_memory_binary_def cs bindR_simps scan ac
    using sz loop by (simp add: initialised_def assms(2))
  have "length ?d = msize m" using len assms(3) by auto
  then have "wf_gdb ?g" using assms(1) wm by (simp add: wf_gdb_def wf_sim_def wf_memory_def wf_table_def active_def)
  then show ?thesis
    using gdb_send_data_reply [of ?g "if a + length bs \<le> msize m then ''OK'' else ''E02''"]
    unfolding run by (auto simp: MAX_PACKET_SIZE_def)
qed

section \<open>Properties of the memory commands\<close>

text \<open>C38: Bytes written with the binary write command, whichever of them are escaped, are acknowledged and
  returned by the read command for the same range; no register and no other byte of memory changes.
  The range must lie inside the memory and have at most 2045 bytes, all that a reply can hold.\<close>

theorem memory_commands_roundtrip:
  assumes "wf_gdb gdb" "mem (arm gdb) = Some m" "a < msize m" "a + length bs \<le> msize m"
    "length bs \<le> 2045" "0x7D \<in> E"
  shows "\<exists>g g'. write_memory_binary gdb
        (range_text a (length bs) @ '':'' @ escape E bs @ NUL # rest) = Inr g
    \<and> sent g = sent gdb @ frame ''OK''
    \<and> read_memory g (range_text a (length bs) @ NUL # rest') = Inr g'
    \<and> sent g' = sent g @ frame (hex_of_bytes bs)
    \<and> arm g' = arm g \<and> reg (arm g) = reg (arm gdb)
    \<and> (\<forall>i. i < a \<or> a + length bs \<le> i \<longrightarrow> byte_at (mem (arm g)) i = byte_at (mem (arm gdb)) i)"
proof -
  have n: "length bs < 2 ^ 32" using assms(5) by simp
  have len: "length (mdata m) = msize m" using assms(1,2) by (auto simp: wf_gdb_def wf_sim_def wf_memory_def)
  let ?m = "m\<lparr>mdata := take a (mdata m) @ bs @ drop (a + length bs) (mdata m)\<rparr>"
  obtain g where g: "write_memory_binary gdb
        (range_text a (length bs) @ '':'' @ escape E bs @ NUL # rest) = Inr g" "wf_gdb g"
    "sent g = sent gdb @ frame ''OK''" "arm g = (arm gdb)\<lparr>mem := Some ?m\<rparr>"
    using write_memory_reply [OF assms(1-3) n assms(6), of rest] assms(4) by auto
  have "take (length bs) (drop a (mdata ?m)) = bs" using len assms(3) by simp
  then obtain g' where "read_memory g (range_text a (length bs) @ NUL # rest') = Inr g'"
    "arm g' = arm g" "sent g' = sent g @ frame (hex_of_bytes bs)"
    using read_memory_reply [OF g(2), of ?m a "length bs" rest'] g(4) assms(3,5) n by auto
  moreover have "byte_at (Some ?m) i = byte_at (Some m) i" if "i < a \<or> a + length bs \<le> i" for i
    using that len assms(3,4) by (auto simp: byte_at_def nth_append)
  ultimately show ?thesis using g assms(2) by (intro exI [of _ g] exI [of _ g']) simp
qed

text \<open>The reply to a read of memory holds the bytes from the address on, as many as requested and as
  there are up to the end of the memory. The buffer of 4096 characters takes 2045 bytes; a request
  for more of them is not refused but overruns the buffer. Requests that fit the packet size of
  0x400 the simulator announces never do.\<close>

theorem read_memory_bounds:
  assumes "wf_gdb gdb" "mem (arm gdb) = Some m" "a < msize m" "n < 2 ^ 32"
  shows "(read_memory gdb (range_text a n @ NUL # rest) = Inl Out_Of_Bounds
      \<longleftrightarrow> 2045 < min n (msize m - a))
    \<and> (n \<le> 0x400 \<longrightarrow> (\<exists>g. read_memory gdb (range_text a n @ NUL # rest) = Inr g \<and> wf_gdb g
      \<and> arm g = arm gdb \<and> sent g = sent gdb @ frame (hex_of_bytes (take n (drop a (mdata m))))))"
proof -
  have len: "length (mdata m) = msize m" using assms(1,2) by (auto simp: wf_gdb_def wf_sim_def wf_memory_def)
  note r = read_memory_reply [OF assms, of rest]
  have "read_memory gdb (range_text a n @ NUL # rest) = Inl Out_Of_Bounds
      \<longleftrightarrow> 2045 < min n (msize m - a)"
    using r len by (cases "min n (msize m - a) \<le> 2045") (auto simp: min.commute)
  with r show ?thesis by auto
qed

theorem memory_commands_roundtrip_witness:
  "\<exists>g g'. write_memory_binary (demo_gdb (replicate 64 0))
        (range_text 0x10 2 @ '':'' @ escape {0x7D, 0x23} [0x23, 7] @ [NUL]) = Inr g
    \<and> read_memory g (range_text 0x10 2 @ [NUL]) = Inr g'
    \<and> sent g' = frame ''OK'' @ frame (hex_of_bytes [0x23, 7])"
proof -
  let ?m = "\<lparr>msize = 64, mdata = replicate 64 0\<rparr>"
  have "mem (arm (demo_gdb (replicate 64 0))) = Some ?m" by (simp add: demo_gdb_simps demo_sim_simps)
  moreover have l: "length [0x23 :: u8, 7] = 2" by simp
  ultimately obtain g g' where "write_memory_binary (demo_gdb (replicate 64 0))
        (range_text 0x10 2 @ '':'' @ escape {0x7D, 0x23} [0x23, 7] @ [NUL]) = Inr g"
    "sent g = sent (demo_gdb (replicate 64 0)) @ frame ''OK''"
    "read_memory g (range_text 0x10 2 @ [NUL]) = Inr g'" "sent g' = sent g @ frame (hex_of_bytes [0x23, 7])"
    using memory_commands_roundtrip [of "demo_gdb (replicate 64 0)" ?m "0x10" "[0x23, 7]" "{0x7D, 0x23}"
        "[]" "[]"] wf_demo_gdb [of "replicate 64 0"] unfolding l by auto
  then show ?thesis by (auto simp: demo_gdb_simps)
qed

theorem read_memory_bounds_witness:
  "read_memory (demo_gdb (replicate 4096 0)) (range_text 0 0xFFF @ [NUL]) = Inl Out_Of_Bounds"
proof -
  let ?m = "\<lparr>msize = 4096, mdata = replicate 4096 0\<rparr>"
  have "mem (arm (demo_gdb (replicate 4096 0))) = Some ?m" by (simp add: demo_gdb_simps demo_sim_simps)
  then show ?thesis
    using read_memory_bounds [of "demo_gdb (replicate 4096 0)" ?m 0 "0xFFF" "[]"]
      wf_demo_gdb [of "replicate 4096 0"] by simp
qed

end
