(* ===== verification/Gdb_Execution.thy ===== *)
theory Gdb_Execution
  imports Gdb_Commands
begin

text \<open>
  The execution commands of the remote protocol: when the loop of the continue command ends, and
  what every command keeps.
\<close>

section \<open>The loop of the continue command\<close>

text \<open>
  \<open>continues g g'\<close>: one round of the loop, after which it goes on; \<open>halts g r\<close>: one round after
  which it ends, with the state or the fault \<open>r\<close>.
\<close>

inductive continues :: "gdb_protocol_data \<Rightarrow> gdb_protocol_data \<Rightarrow> bool" where
  go_on: "single_step g = Inr g' \<Longrightarrow> cont_stop g' = Inr False \<Longrightarrow> continues g g'"

inductive halts :: "gdb_protocol_data \<Rightarrow> gdb_protocol_data res \<Rightarrow> bool" where
  stop: "single_step g = Inr g' \<Longrightarrow> cont_stop g' = Inr True \<Longrightarrow> halts g (Inr g')"
| step_fault: "single_step g = Inl e \<Longrightarrow> halts g (Inl e)"
| stop_fault: "single_step g = Inr g' \<Longrightarrow> cont_stop g' = Inl e \<Longrightarrow> halts g (Inl e)"

inductive_simps continues_iff: "continues g g'"
inductive_cases haltsE: "halts g r"

lemma round_cases:
  obtains (goes_on) g' where "continues g g'" | (ends) r where "halts g r"
proof (cases "single_step g")
  case (Inr g')
  then show ?thesis
  proof (cases "cont_stop g'")
    fix b assume "cont_stop g' = Inr b"
    with Inr that show ?thesis by (cases b) (auto intro: continues.intros halts.intros)
  qed (auto intro: that halts.intros Inr)
qed (auto intro: that halts.intros)

lemma continues_halts_exclusive: "continues g g' \<Longrightarrow> \<not> halts g r"
  by (auto simp: continues_iff elim!: haltsE)

lemma continues_deterministic: "continues g a \<Longrightarrow> continues g b \<Longrightarrow> a = b"
  by (simp add: continues_iff)

lemma halts_deterministic: "halts g r \<Longrightarrow> halts g r' \<Longrightarrow> r = r'"
  by (auto elim!: haltsE)

lemma cont_loop_continues: "continues g g' \<Longrightarrow> cont_loop g = cont_loop g'"
  by (subst cont_loop.simps) (simp add: continues_iff)

lemma cont_loop_halts: "halts g r \<Longrightarrow> cont_loop g = Some r"
  by (subst cont_loop.simps) (auto elim!: haltsE)

lemma cont_loop_run: "continues\<^sup>*\<^sup>* g g' \<Longrightarrow> cont_loop g = cont_loop g'"
  by (induction rule: rtranclp_induct) (simp_all add: cont_loop_continues)

lemma cont_loop_SomeD:
  assumes "cont_loop g = Some r"
  shows "\<exists>g'. continues\<^sup>*\<^sup>* g g' \<and> halts g' r"
proof (rule cont_loop.raw_induct [where P = "\<lambda>g r. \<exists>g'. continues\<^sup>*\<^sup>* g g' \<and> halts g' r", OF _ assms])
  fix loop g r
  assume IH: "\<And>g r. loop g = Some r \<Longrightarrow> \<exists>g'. continues\<^sup>*\<^sup>* g g' \<and> halts g' r"
    and eq: "(case single_step g of Inl e \<Rightarrow> Some (Inl e)
      | Inr g \<Rightarrow> (case cont_stop g of Inl e \<Rightarrow> Some (Inl e)
          | Inr stop \<Rightarrow> if stop then Some (Inr g) else loop g)) = Some r"
  show "\<exists>g'. continues\<^sup>*\<^sup>* g g' \<and> halts g' r"
  proof (cases rule: round_cases [of g])
    case (goes_on g1)
    then have "loop g1 = Some r" using eq by (simp add: continues_iff)
    with IH goes_on show ?thesis by (blast intro: converse_rtranclp_into_rtranclp)
  next
    case (ends r')
    then have "r' = r" using eq by (auto elim!: haltsE)
    with ends show ?thesis by blast
  qed
qed

lemma cont_loop_Some_iff: "cont_loop g = Some r \<longleftrightarrow> (\<exists>g'. continues\<^sup>*\<^sup>* g g' \<and> halts g' r)"
  using cont_loop_SomeD cont_loop_run cont_loop_halts by metis

lemma self_branch_step:
  assumes "wf_sim p" "cur_mode p \<noteq> FIQ" "raw p PC (cur_mode p) = Inr a" "inside (mem p) a 4"
    "4 dvd unat a" "unat a + 8 < 2 ^ 32" "arm_read_word a p = Inr (Some 0xEAFFFFFE)"
  shows "\<exists>p'. arm_step p = Inr (0, p') \<and> wf_sim p' \<and> arm_read_cpsr p' = arm_read_cpsr p
    \<and> mem p' = mem p \<and> raw p' PC (cur_mode p) = Inr a"
proof -
  obtain p1 where p1: "arm_fetch p = Inr (Some 0xEAFFFFFE, p1)" "wf_sim p1" "arm_read_cpsr p1 = arm_read_cpsr p"
    "mem p1 = mem p" "\<And>j mode. raw p1 j mode = (if j = PC then Inr (a + 4) else raw p j mode)"
    using fetch_inside [OF assms(1,3,4,7)] by blast
  then have m1: "cur_mode p1 = cur_mode p" by (simp add: cur_mode_def)
  have pc: "(a + 4 + 4) AND 0xFFFFFFFD = a + 8" using pc_plus_8 [OF assms(5,6)] by (simp add: add.assoc)
  have off: "branch_offset 0xEAFFFFFE = - 8" by code_simp
  obtain p' where p': "arm_branch 0xEAFFFFFE p1 = Inr (0, p')" "wf_sim p'"
    "arm_read_cpsr p' = arm_read_cpsr p1" "mem p' = mem p1" "raw p' PC (cur_mode p1) = Inr (a + 8 + - 8)"
    using arm_branch_effect [of p1 "a + 4" "0xEAFFFFFE"] p1(2,5) assms(2) m1 unfolding pc off by auto
  have cond: "flag_cond (get_bits 0xEAFFFFFE 31 28) c" for c
  proof -
    have "get_bits (0xEAFFFFFE :: u32) 31 28 = AL" by code_simp
    then show ?thesis by (simp add: flag_cond_def Let_def)
  qed
  have "get_bits (0xEAFFFFFE :: u32) 27 25 = 5" by code_simp
  then have "arm_fetch_code_inst 0xEAFFFFFE c p1 = arm_branch 0xEAFFFFFE p1" for c
    by (simp add: arm_fetch_code_inst_def Let_def)
  then have "arm_step p = Inr (0, p')"
    using p1(1) cond p'(1) by (simp add: arm_step_def arm_execute_instruction_def Let_def)
  with p' p1 m1 show ?thesis by (intro exI [of _ p']) simp
qed

text \<open>The states in which the processor stands at a branch to itself that nothing interrupts.\<close>

definition at_self_branch :: "u32 \<Rightarrow> gdb_protocol_data \<Rightarrow> bool" where
  "at_self_branch a g \<longleftrightarrow> wf_table g \<and> wf_sim (arm g) \<and> cur_mode (arm g) \<noteq> FIQ
     \<and> raw (arm g) PC (cur_mode (arm g)) = Inr a \<and> inside (mem (arm g)) a 4
     \<and> arm_read_word a (arm g) = Inr (Some 0xEAFFFFFE) \<and> a \<notin> breakpoint_set g
     \<and> \<not> (enabled (trace g) \<and> trace_flags (trace g) AND STATE \<noteq> 0)"

lemma at_self_branch_continues:
  assumes "at_self_branch a g" "4 dvd unat a" "unat a + 8 < 2 ^ 32"
  shows "\<exists>g'. single_step g = Inr g' \<and> cont_stop g' = Inr False \<and> at_self_branch a g'"
proof -
  note s = assms(1) [unfolded at_self_branch_def]
  obtain p' where p': "arm_step (arm g) = Inr (0, p')" "wf_sim p'" "arm_read_cpsr p' = arm_read_cpsr (arm g)"
    "mem p' = mem (arm g)" "raw p' PC (cur_mode (arm g)) = Inr a"
    using self_branch_step [of "arm g" a] s assms(2,3) by blast
  let ?g = "g\<lparr>arm := p', target_exception := 0, trace := trace g\<rparr>"
  have tr: "trace_arm_state h r (trace g) = Inr (trace g)" for h r
    using s by (auto simp: trace_arm_state_def)
  have m: "cur_mode p' = cur_mode (arm g)" using p'(3) by (simp add: cur_mode_def)
  have "wf_table ?g" "breakpoint_set ?g = breakpoint_set g"
    using s by (simp_all add: wf_table_def active_def breakpoint_set_def)
  moreover from this have "gdb_find_breakpoint ?g a = Inr (- 1)"
    using gdb_find_breakpoint_correct [of ?g a] s by metis
  then have "cont_stop ?g = Inr False"
    using p'(5) m by (simp add: cont_stop_def raw_def registers_get_mode_cur)
  moreover have "single_step g = Inr ?g" using p'(1) tr by (simp add: single_step_def)
  ultimately show ?thesis
    using s p' m by (intro exI [of _ ?g]) (simp add: at_self_branch_def arm_read_word_def)
qed


lemma cont_loop_never_returns:
  assumes "P g" "\<And>g. P g \<Longrightarrow> \<exists>g'. continues g g' \<and> P g'"
  shows "cont_loop g = None"
proof (rule ccontr)
  assume "cont_loop g \<noteq> None"
  then obtain r g' where g': "continues\<^sup>*\<^sup>* g g'" "halts g' r" using cont_loop_SomeD by blast
  have "P g'"
    using g'(1) by (induction rule: rtranclp_induct) (use assms continues_deterministic in blast)+
  with assms(2) g'(2) continues_halts_exclusive show False by blast
qed

text \<open>A processor at a branch to itself without a breakpoint never comes back to the debugger: the
  loop of the continue command goes on for ever, and nothing outside it can change the state, since
  the command runs with the lock of the simulator held.\<close>

theorem continue_at_self_branch_never_returns:
  assumes "at_self_branch a gdb" "4 dvd unat a" "unat a + 8 < 2 ^ 32"
  shows "cont gdb data = None"
proof -
  have "cont_loop gdb = None"
    by (rule cont_loop_never_returns [where P = "at_self_branch a", OF assms(1)])
      (use at_self_branch_continues [OF _ assms(2,3)] in \<open>blast intro: continues.intros\<close>)
  then show ?thesis by (simp add: cont_def)
qed

lemma demo_at_self_branch: "at_self_branch 0 (demo_gdb [0xEA, 0xFF, 0xFF, 0xFE])"
proof -
  let ?p = "demo_sim [0xEA, 0xFF, 0xFF, 0xFE]"
  have "raw ?p PC SVC = Inr 0" by (rule raw_demo_sim [where k = 0]) (simp_all add: cell_def)
  moreover have "inside (mem ?p) 0 4" by (simp add: demo_sim_simps inside_def)
  moreover have "arm_read_word 0 ?p = Inr (Some 0xEAFFFFFE)"
    by (simp add: arm_read_word_def demo_sim_simps) code_simp
  ultimately show ?thesis
    using wf_demo_gdb [of "[0xEA, 0xFF, 0xFF, 0xFE]"]
    by (simp add: at_self_branch_def demo_gdb_simps demo_sim_simps wf_gdb_def breakpoint_set_def
        active_def trace_initial_def)
qed

theorem continue_at_self_branch_never_returns_witness:
  "cont (demo_gdb [0xEA, 0xFF, 0xFF, 0xFE]) [] = None"
  by (rule continue_at_self_branch_never_returns [OF demo_at_self_branch]) simp_all

section \<open>When a continue command returns\<close>

text \<open>
  The processor on its own, without a debugger: its state after a number of instructions, and the code of
  the last one. A program stops after an instruction that raised an exception, or that leaves the program
  counter on an address of a set; \<open>passes bps p n\<close>: none of the first \<open>n\<close> instructions stops it, nor faults.
\<close>

fun processor_run :: "nat \<Rightarrow> sim \<Rightarrow> (int \<times> sim) res" where
  "processor_run 0 p = Inr (0, p)"
| "processor_run (Suc n) p = bindR (processor_run n p) (\<lambda>(rc, q). arm_step q)"

definition stops_at :: "u32 set \<Rightarrow> int \<Rightarrow> sim \<Rightarrow> bool" where
  "stops_at bps rc q \<longleftrightarrow> rc \<noteq> 0 \<or> (\<exists>a \<in> bps. raw q PC (cur_mode q) = Inr a)"

definition passes :: "u32 set \<Rightarrow> sim \<Rightarrow> nat \<Rightarrow> bool" where
  "passes bps p n \<longleftrightarrow> (\<forall>k \<in> {1..n}. \<exists>rc q. processor_run k p = Inr (rc, q) \<and> \<not> stops_at bps rc q)"

text \<open>
  The state of the registers can be printed after each instruction: the modes whose state is traced all
  have a saved status register. Otherwise the trace itself faults.
\<close>

definition state_traceable :: "trace_data \<Rightarrow> bool" where
  "state_traceable t \<longleftrightarrow> wf_trace t \<and> (enabled t \<and> trace_flags t AND STATE \<noteq> 0 \<longrightarrow> selected t \<subseteq> {IRQ, SVC, ABT, UND})"

lemma passes_Suc:
  "passes bps p (Suc n) \<longleftrightarrow> passes bps p n
    \<and> (\<exists>rc q. processor_run (Suc n) p = Inr (rc, q) \<and> \<not> stops_at bps rc q)"
  by (auto simp: passes_def atLeastAtMostSuc_conv simp del: processor_run.simps)

lemma passes_0 [simp]: "passes bps p 0"
  by (simp add: passes_def)

lemma wf_sim_step:
  assumes "wf_sim p" "arm_step p = Inr (rc, q)"
  shows "wf_sim q"
proof -
  have "core_inv UNIV (sim_host p) (mem p) p" using assms(1) by (simp add: core_inv_def modes_in_def)
  from outcomeD [OF any_mode.arm_step_outcome [OF this] assms(2)] show ?thesis by (simp add: core_inv_def)
qed

lemma wf_sim_run: "wf_sim p \<Longrightarrow> processor_run n p = Inr (rc, q) \<Longrightarrow> wf_sim q"
  by (induction n arbitrary: rc q) (auto simp: bindR_eq_Inr wf_sim_step)

lemma pc_total: "wf_sim p \<Longrightarrow> \<exists>a. raw p PC (cur_mode p) = Inr a"
  by (rule arm_read_register_total [of p PC]) auto

text \<open>The debugger with the processor of a round; the trace has written some text.\<close>

definition debugging :: "gdb_protocol_data \<Rightarrow> int \<Rightarrow> sim \<Rightarrow> string \<Rightarrow> gdb_protocol_data" where
  "debugging gdb rc q s = gdb\<lparr>arm := q, target_exception := rc,
     trace := (trace gdb)\<lparr>trace_output := trace_output (trace gdb) @ s\<rparr>\<rparr>"

lemma cont_stop_breakpoint:
  assumes "wf_table gdb" "wf_sim q"
  shows "cont_stop (debugging gdb rc q s) = Inr (stops_at (breakpoint_set gdb) rc q)"
proof -
  have t: "wf_table (debugging gdb rc q s)" "breakpoint_set (debugging gdb rc q s) = breakpoint_set gdb"
    using assms(1) by (simp_all add: debugging_def wf_table_def active_def breakpoint_set_def)
  obtain a where a: "raw q PC (cur_mode q) = Inr a" using pc_total [OF assms(2)] by blast
  obtain i where i: "gdb_find_breakpoint (debugging gdb rc q s) a = Inr i" "i \<noteq> -1 \<longleftrightarrow> a \<in> breakpoint_set gdb"
    by (rule gdb_find_breakpoint_correct [OF t(1), of a]) (use t(2) that in auto)
  then show ?thesis using a i
    by (auto simp: cont_stop_def debugging_def raw_def registers_get_mode_cur stops_at_def)
qed

lemma single_step_debugging:
  assumes "state_traceable (trace gdb)" "wf_sim q"
  shows "single_step (debugging gdb rc q s) = Inl e \<longleftrightarrow> arm_step q = Inl e"
    "arm_step q = Inr (rc', q') \<Longrightarrow> \<exists>s'. single_step (debugging gdb rc q s) = Inr (debugging gdb rc' q' s')"
proof -
  have tr: "\<exists>s'. trace_arm_state h (reg q') (trace (debugging gdb rc q s)) =
      Inr ((trace gdb)\<lparr>trace_output := trace_output (trace gdb) @ s'\<rparr>)"
    if "arm_step q = Inr (rc', q')" for rc' q' h
  proof -
    have "wf_registers (reg q')" using wf_sim_step [OF assms(2) that] by (simp add: wf_sim_def)
    moreover have "wf_trace (trace (debugging gdb rc q s))"
      using assms(1) by (simp add: debugging_def wf_trace_def state_traceable_def)
    moreover have "selected (trace (debugging gdb rc q s)) = selected (trace gdb)"
      by (simp add: debugging_def selected_def)
    ultimately show ?thesis
      using trace_arm_state_outcome [of "reg q'" "trace (debugging gdb rc q s)" h] assms(1)
      by (auto simp: debugging_def state_traceable_def split: if_splits)
  qed
  have a: "arm (debugging gdb rc q s) = q" by (simp add: debugging_def)
  show "single_step (debugging gdb rc q s) = Inl e \<longleftrightarrow> arm_step q = Inl e"
  proof (cases "arm_step q")
    case (Inr r)
    obtain rc' q' where r: "r = (rc', q')" by fastforce
    then show ?thesis using tr [of rc' q' "sim_host q'"] Inr by (auto simp: single_step_def a)
  qed (simp add: single_step_def a)
  show "\<exists>s'. single_step (debugging gdb rc q s) = Inr (debugging gdb rc' q' s')" if st: "arm_step q = Inr (rc', q')"
  proof -
    obtain s' where "trace_arm_state (sim_host q') (reg q') (trace (debugging gdb rc q s)) =
      Inr ((trace gdb)\<lparr>trace_output := trace_output (trace gdb) @ s'\<rparr>)" using tr [OF st] by blast
    then show ?thesis using st by (intro exI [of _ s']) (simp add: single_step_def a, simp add: debugging_def)
  qed
qed

lemma debugging_round:
  assumes "wf_table gdb" "state_traceable (trace gdb)" "wf_sim q" "arm_step q = Inr (rc1, q1)"
  obtains s1 where "single_step (debugging gdb rc q s) = Inr (debugging gdb rc1 q1 s1)"
    "cont_stop (debugging gdb rc1 q1 s1) = Inr (stops_at (breakpoint_set gdb) rc1 q1)"
  using single_step_debugging(2) [OF assms(2-4)] cont_stop_breakpoint [OF assms(1) wf_sim_step [OF assms(3,4)]] by blast

lemma debugging_start: "debugging gdb (target_exception gdb) (arm gdb) [] = gdb"
  by (simp add: debugging_def)

text \<open>While nothing stops the program the loop goes on, one round for each instruction.\<close>

lemma passes_continues:
  assumes "wf_table gdb" "wf_sim (arm gdb)" "state_traceable (trace gdb)" "passes (breakpoint_set gdb) (arm gdb) n"
  obtains rc q s rc' where "processor_run n (arm gdb) = Inr (rc', q)" "continues\<^sup>*\<^sup>* gdb (debugging gdb rc q s)" "wf_sim q"
proof -
  have "\<exists>rc q s rc'. processor_run n (arm gdb) = Inr (rc', q) \<and> continues\<^sup>*\<^sup>* gdb (debugging gdb rc q s)"
    using assms(4)
  proof (induction n)
    case 0
    have "continues\<^sup>*\<^sup>* gdb (debugging gdb (target_exception gdb) (arm gdb) [])" by (simp add: debugging_start)
    then show ?case by auto
  next
    case (Suc n)
    then obtain rc q s rc' where IH: "processor_run n (arm gdb) = Inr (rc', q)" "continues\<^sup>*\<^sup>* gdb (debugging gdb rc q s)"
      using passes_Suc by blast
    obtain rc1 q1 where r: "processor_run (Suc n) (arm gdb) = Inr (rc1, q1)" "\<not> stops_at (breakpoint_set gdb) rc1 q1"
      using Suc.prems unfolding passes_Suc by blast
    then have "arm_step q = Inr (rc1, q1)" using IH(1) by simp
    from debugging_round [OF assms(1,3) wf_sim_run [OF assms(2) IH(1)] this, of rc s]
    obtain s1 where "continues (debugging gdb rc q s) (debugging gdb rc1 q1 s1)"
      using r(2) by (auto intro: continues.intros)
    then show ?case using IH(2) r(1) by (blast intro: rtranclp.rtrancl_into_rtrancl)
  qed
  with wf_sim_run [OF assms(2)] that show thesis by blast
qed

lemma continue_faults:
  assumes "wf_table gdb" "wf_sim (arm gdb)" "state_traceable (trace gdb)" "passes (breakpoint_set gdb) (arm gdb) n"
    "processor_run (Suc n) (arm gdb) = Inl e"
  shows "cont gdb data = Some (Inl e)"
proof -
  obtain rc q s rc' where r: "processor_run n (arm gdb) = Inr (rc', q)" "continues\<^sup>*\<^sup>* gdb (debugging gdb rc q s)" "wf_sim q"
    by (rule passes_continues [OF assms(1-4)])
  then have "halts (debugging gdb rc q s) (Inl e)"
    using assms(5) single_step_debugging(1) [OF assms(3) r(3)] by (simp add: halts.intros)
  then show ?thesis using cont_loop_run [OF r(2)] cont_loop_halts by (simp add: cont_def)
qed

lemma continue_stops:
  assumes "wf_table gdb" "wf_sim (arm gdb)" "state_traceable (trace gdb)" "passes (breakpoint_set gdb) (arm gdb) n"
    "processor_run (Suc n) (arm gdb) = Inr (rc1, q1)" "stops_at (breakpoint_set gdb) rc1 q1"
  shows "\<exists>s. cont gdb data = Some (gdb_send_stop_reason (debugging gdb rc1 q1 s))"
proof -
  obtain rc q s rc' where r: "processor_run n (arm gdb) = Inr (rc', q)" "continues\<^sup>*\<^sup>* gdb (debugging gdb rc q s)" "wf_sim q"
    by (rule passes_continues [OF assms(1-4)])
  then have "arm_step q = Inr (rc1, q1)" using assms(5) by simp
  from debugging_round [OF assms(1,3) r(3) this, of rc s]
  obtain s1 where "halts (debugging gdb rc q s) (Inr (debugging gdb rc1 q1 s1))"
    using assms(6) by (auto intro: halts.intros)
  then show ?thesis using cont_loop_run [OF r(2)] cont_loop_halts by (auto simp: cont_def)
qed

lemma continue_goes_on:
  assumes "wf_table gdb" "wf_sim (arm gdb)" "state_traceable (trace gdb)"
    "\<And>n. passes (breakpoint_set gdb) (arm gdb) n"
  shows "cont gdb data = None"
proof -
  let ?P = "\<lambda>g. \<exists>n rc q s rc'. g = debugging gdb rc q s \<and> processor_run n (arm gdb) = Inr (rc', q)"
  have "cont_loop gdb = None"
  proof (rule cont_loop_never_returns [where P = ?P])
    show "?P gdb" using debugging_start [of gdb] by (metis processor_run.simps(1))
    fix g assume "?P g"
    then obtain n rc q s rc' where g: "g = debugging gdb rc q s" "processor_run n (arm gdb) = Inr (rc', q)" by blast
    obtain rc1 q1 where r: "processor_run (Suc n) (arm gdb) = Inr (rc1, q1)" "\<not> stops_at (breakpoint_set gdb) rc1 q1"
      using assms(4) [of "Suc n"] unfolding passes_Suc by blast
    then have "arm_step q = Inr (rc1, q1)" using g(2) by simp
    from debugging_round [OF assms(1,3) wf_sim_run [OF assms(2) g(2)] this, of rc s]
    obtain s1 where "continues g (debugging gdb rc1 q1 s1)"
      using r(2) g(1) by (auto intro: continues.intros)
    then show "\<exists>g'. continues g g' \<and> ?P g'" using r(1) by blast
  qed
  then show ?thesis by (simp add: cont_def)
qed

lemma first_unpassed: "\<not> passes bps p n \<Longrightarrow> \<exists>m. passes bps p m \<and> \<not> passes bps p (Suc m)"
  by (induction n) auto

text \<open>C35: When a continue command returns, in terms of the processor alone and of the set of breakpoints. If
  the first \<open>n\<close> instructions neither raise an exception nor arrive at a breakpoint, and the next one does,
  the command returns and reports the stop reason of that exception or breakpoint, with the processor as
  that instruction left it. The instruction at the start is executed even if a breakpoint stands there. If
  the next instruction faults the command ends in this fault. It does not return exactly when no
  instruction ever stops the program.\<close>

theorem continue_returns:
  assumes "wf_table gdb" "wf_sim (arm gdb)" "state_traceable (trace gdb)"
  shows "(\<forall>n e. passes (breakpoint_set gdb) (arm gdb) n \<and> processor_run (Suc n) (arm gdb) = Inl e \<longrightarrow>
      cont gdb data = Some (Inl e))
    \<and> (\<forall>n rc q. passes (breakpoint_set gdb) (arm gdb) n \<and> processor_run (Suc n) (arm gdb) = Inr (rc, q)
        \<and> stops_at (breakpoint_set gdb) rc q \<longrightarrow>
      (\<exists>s. cont gdb data = Some (gdb_send_stop_reason (debugging gdb rc q s))))
    \<and> (cont gdb data = None \<longleftrightarrow> (\<forall>n. passes (breakpoint_set gdb) (arm gdb) n))"
proof -
  have "passes (breakpoint_set gdb) (arm gdb) n" if none: "cont gdb data = None" for n
  proof (rule ccontr)
    assume "\<not> passes (breakpoint_set gdb) (arm gdb) n"
    then obtain m where m: "passes (breakpoint_set gdb) (arm gdb) m" "\<not> passes (breakpoint_set gdb) (arm gdb) (Suc m)"
      using first_unpassed by blast
    show False
    proof (cases "processor_run (Suc m) (arm gdb)")
      case (Inl e)
      then show False using none continue_faults [OF assms m(1)] by simp
    next
      case (Inr r)
      obtain rc q where r: "r = (rc, q)" by fastforce
      then have "stops_at (breakpoint_set gdb) rc q" using m Inr unfolding passes_Suc by blast
      from continue_stops [OF assms m(1) Inr [unfolded r] this, of data] show False using none by simp
    qed
  qed
  then show ?thesis
    using continue_faults [OF assms] continue_stops [OF assms] continue_goes_on [OF assms] by blast
qed

theorem continue_returns_witness:
  "\<exists>q s. cont ((demo_gdb [0xEA, 0xFF, 0xFF, 0xFE])\<lparr>breakpoints_number := 1\<rparr>) [] =
      Some (gdb_send_stop_reason (debugging ((demo_gdb [0xEA, 0xFF, 0xFF, 0xFE])\<lparr>breakpoints_number := 1\<rparr>) 0 q s))
    \<and> raw q PC SVC = Inr 0"
proof -
  let ?p = "demo_sim [0xEA, 0xFF, 0xFF, 0xFE]"
  let ?g = "(demo_gdb [0xEA, 0xFF, 0xFF, 0xFE])\<lparr>breakpoints_number := 1\<rparr>"
  note s = demo_at_self_branch [unfolded at_self_branch_def demo_gdb_simps]
  have a: "arm ?g = ?p" by (simp add: demo_gdb_simps)
  obtain q where q: "arm_step ?p = Inr (0, q)" "arm_read_cpsr q = arm_read_cpsr ?p" "raw q PC (cur_mode ?p) = Inr 0"
    using self_branch_step [of ?p 0] s by auto
  have m: "cur_mode ?p = SVC" "cur_mode q = cur_mode ?p" using q(2) by (simp add: demo_sim_simps) (simp only: cur_mode_def q(2))
  have "wf_table ?g" "0 \<in> breakpoint_set ?g"
    by (simp_all add: wf_table_def active_def breakpoint_set_def demo_gdb_def MAX_BREAKPOINTS_NUMBER_def)
  moreover have "state_traceable (trace ?g)"
    by (simp add: state_traceable_def demo_gdb_def wf_trace_initial, simp add: trace_initial_def)
  moreover have "stops_at (breakpoint_set ?g) 0 q" using calculation(2) q(3) m by (auto simp: stops_at_def)
  ultimately show ?thesis
    using continue_returns [of ?g "[]"] s q m(1) passes_0 [of "breakpoint_set ?g" "arm ?g"]
    unfolding a by (metis processor_run.simps bindR_simps(2) case_prod_conv)
qed

end
