(* ===== verification/Gdb_Invariant.thy ===== *)
theory Gdb_Invariant
  imports Gdb_Execution
begin

text \<open>
  The invariant of the debugger and its proof for every command, the dispatch and the packets; the
  commands that only inspect.
\<close>

section \<open>Array lengths\<close>

lemma any_bindI:
  "(\<And>x. m = Inr x \<Longrightarrow> outcome UNIV Q (f x)) \<Longrightarrow> outcome UNIV Q (bindR m f)"
  by (cases m) simp_all

lemma any_InrI: "(\<And>x. r = Inr x \<Longrightarrow> Q x) \<Longrightarrow> outcome UNIV Q r"
  by (cases r) simp_all

named_theorems array_lengths \<open>the writes into an array keep its length\<close>

lemma length_store [array_lengths]: "store xs i v = Inr ys \<Longrightarrow> length ys = length xs"
  by (auto simp: store_def split: if_splits)

lemma length_store_list [array_lengths]: "store_list xs i zs = Inr ys \<Longrightarrow> length ys = length xs"
  by (auto simp: store_list_def split: if_splits)

lemma length_store_string [array_lengths]: "store_string xs i s = Inr ys \<Longrightarrow> length ys = length xs"
  unfolding store_string_def by (rule length_store_list)

lemma length_read_register [array_lengths]: "read_register g b pos i = Inr b' \<Longrightarrow> length b' = length b"
  by (auto simp: read_register_def write_uint32_def bindR_eq_Inr split: if_splits dest: array_lengths)

lemma length_write_uint32 [array_lengths]: "write_uint32 b pos v = Inr b' \<Longrightarrow> length b' = length b"
  unfolding write_uint32_def by (rule length_store_string)

lemma length_read_registers_loop [array_lengths]:
  "read_registers_loop g is b pos = Inr (b', pos') \<Longrightarrow> length b' = length b"
  by (induction "is" arbitrary: b pos) (auto simp: bindR_eq_Inr dest: array_lengths)

lemma length_fill_unknown [array_lengths]:
  "fill_unknown n b pos = Inr (b', pos') \<Longrightarrow> length b' = length b"
  by (induction n arbitrary: b pos) (auto simp: bindR_eq_Inr dest: array_lengths)

lemma length_read_memory_loop [array_lengths]:
  "read_memory_loop m n a b pos = Inr b' \<Longrightarrow> length b' = length b"
  by (induction n arbitrary: a b pos) (auto simp: bindR_eq_Inr dest!: length_store_string split: option.splits)

section \<open>The invariant of the debugger\<close>

text \<open>
  What holds of the state of the debugger between any two events: the packet buffer has its size and
  the transmitted length lies inside it, the breakpoints are in increasing order, the processor keeps
  the invariant of the core on its host and with its memory size, the trace options have one entry
  per mode, and nothing sent is ever taken back. The modes of the processor are in \<open>M\<close>: all of them,
  or all but FIQ.
\<close>

definition step_modes :: "nat set \<Rightarrow> bool" where
  "step_modes M \<longleftrightarrow> M = UNIV \<or> M = - {FIQ}"

definition gdb_inv :: "nat set \<Rightarrow> host \<Rightarrow> memory \<Rightarrow> string \<Rightarrow> gdb_protocol_data \<Rightarrow> bool" where
  "gdb_inv M h m0 s0 gdb \<longleftrightarrow> length (packet gdb) = MAX_PACKET_SIZE \<and> len gdb < MAX_PACKET_SIZE
     \<and> wf_table gdb \<and> core_inv M h m0 (arm gdb) \<and> wf_trace (trace gdb)
     \<and> (\<exists>s. sent gdb = s0 @ s)"

lemma gdb_invD:
  assumes "gdb_inv M h m0 s0 gdb"
  shows "length (packet gdb) = 4096" "core_inv M h m0 (arm gdb)" "wf_sim (arm gdb)" "wf_table gdb"
    "wf_trace (trace gdb)"
  using assms by (auto simp: gdb_inv_def MAX_PACKET_SIZE_def core_inv_def)

lemma gdb_inv_packet:
  "gdb_inv M h m0 s0 gdb \<Longrightarrow> length pkt = 4096 \<Longrightarrow> gdb_inv M h m0 s0 (gdb\<lparr>packet := pkt\<rparr>)"
  by (simp add: gdb_inv_def MAX_PACKET_SIZE_def wf_table_def active_def)

lemma gdb_inv_arm:
  "gdb_inv M h m0 s0 gdb \<Longrightarrow> core_inv M h m0 p \<Longrightarrow> gdb_inv M h m0 s0 (gdb\<lparr>arm := p\<rparr>)"
  by (simp add: gdb_inv_def wf_table_def active_def)

abbreviation keeps :: "nat set \<Rightarrow> host \<Rightarrow> memory \<Rightarrow> string \<Rightarrow> gdb_protocol_data res \<Rightarrow> bool" where
  "keeps M h m0 s0 \<equiv> outcome UNIV (gdb_inv M h m0 s0)"

lemma Rio_writen_inv: "gdb_inv M h m0 s0 gdb \<Longrightarrow> keeps M h m0 s0 (Rio_writen s gdb)"
  by (auto simp: Rio_writen_def gdb_inv_def wf_table_def active_def)

lemma gdb_transmit_packet_inv:
  "gdb_inv M h m0 s0 gdb \<Longrightarrow> keeps M h m0 s0 (gdb_transmit_packet gdb)"
  unfolding gdb_transmit_packet_def by (rule Rio_writen_inv)

lemma gdb_send_buffer_inv:
  assumes "gdb_inv M h m0 s0 gdb"
  shows "keeps M h m0 s0 (gdb_send_buffer gdb)"
  unfolding gdb_send_buffer_def
proof (intro any_bindI, clarify, intro any_bindI)
  fix p0 i check p1 p2 p3
  assume w: "store (packet gdb) 0 CHR ''$'' = Inr p0" "store p0 i CHR ''#'' = Inr p1"
    "store_string p1 (i + 1) (format_02x check) = Inr p2" "store p2 (i + 3) NUL = Inr p3"
  have l: "length p3 = 4096"
    using gdb_invD(1) [OF assms] length_store [OF w(1)] length_store [OF w(2)]
      length_store_string [OF w(3)] length_store [OF w(4)] by simp
  moreover have "i + 3 < 4096"
    using w(4) l length_store [OF w(4)] by (auto simp: store_def split: if_splits)
  ultimately have "gdb_inv M h m0 s0 (gdb\<lparr>packet := p3, len := i + 3\<rparr>)"
    using assms by (simp add: gdb_inv_def MAX_PACKET_SIZE_def wf_table_def active_def)
  then show "keeps M h m0 s0 (gdb_transmit_packet (gdb\<lparr>packet := p3, len := i + 3\<rparr>))"
    by (rule gdb_transmit_packet_inv)
qed

lemma gdb_send_data_inv:
  assumes "gdb_inv M h m0 s0 gdb"
  shows "keeps M h m0 s0 (gdb_send_data gdb data)"
  unfolding gdb_send_data_def
  by (intro any_bindI gdb_send_buffer_inv gdb_inv_packet assms)
    (use gdb_invD(1) [OF assms] in \<open>simp add: length_store_string\<close>)

lemma send_stop_reason_inv:
  "gdb_inv M h m0 s0 gdb \<Longrightarrow> keeps M h m0 s0 (gdb_send_stop_reason gdb)"
  unfolding gdb_send_stop_reason_def by (rule gdb_send_data_inv)


section \<open>The handlers\<close>

lemma states_state_registers:
  "state_registers h r mode regs n t = Inr t' \<Longrightarrow> states t' = states t"
  by (induction regs arbitrary: n t) (auto simp: bindR_eq_Inr fprint_def Let_def split: if_splits)

lemma states_state_modes: "state_modes h r modes t = Inr t' \<Longrightarrow> states t' = states t"
  by (induction modes arbitrary: t)
    (auto simp: bindR_eq_Inr fprint_def dest!: states_state_registers split: option.splits if_splits)

lemma wf_trace_arm_state: "trace_arm_state h r t = Inr t' \<Longrightarrow> wf_trace t \<Longrightarrow> wf_trace t'"
  by (auto simp: trace_arm_state_def wf_trace_def dest: states_state_modes split: if_splits)

lemma arm_step_inv:
  assumes "step_modes M" "core_inv M h m0 p"
  shows "outcome UNIV (\<lambda>(rc, p'). core_inv M h m0 p') (arm_step p)"
  using assms unfolding step_modes_def
  by (auto intro: outcome_mono [OF any_mode.arm_step_outcome] outcome_mono [OF not_fiq.arm_step_outcome])

lemma single_step_inv:
  assumes "step_modes M" "gdb_inv M h m0 s0 gdb"
  shows "keeps M h m0 s0 (single_step gdb)"
  unfolding single_step_def
proof (intro any_bindI, clarify, intro any_bindI)
  fix rc p t
  assume s: "arm_step (arm gdb) = Inr (rc, p)" and t: "trace_arm_state (sim_host p) (reg p) (trace gdb) = Inr t"
  have "core_inv M h m0 p"
    using arm_step_inv [OF assms(1) gdb_invD(2) [OF assms(2)]] s by simp
  moreover have "wf_trace t" using wf_trace_arm_state [OF t] gdb_invD(5) [OF assms(2)] by simp
  ultimately show "keeps M h m0 s0 (Inr (gdb\<lparr>arm := p, target_exception := rc, trace := t\<rparr>))"
    using assms(2) by (simp add: gdb_inv_def wf_table_def active_def)
qed

lemma cont_inv:
  assumes "step_modes M" "gdb_inv M h m0 s0 gdb" "cont gdb data = Some r"
  shows "keeps M h m0 s0 r"
proof -
  obtain l where l: "cont_loop gdb = Some l" "r = bindR l gdb_send_stop_reason"
    using assms(3) by (auto simp: cont_def)
  obtain g where g: "continues\<^sup>*\<^sup>* gdb g" "halts g l" using cont_loop_SomeD [OF l(1)] by blast
  have "gdb_inv M h m0 s0 g"
    using g(1)
    by (induction rule: rtranclp_induct)
      (use assms(2) in \<open>auto simp: continues_iff dest: outcomeD [OF single_step_inv [OF assms(1)]]\<close>)
  with g(2) have "keeps M h m0 s0 l"
    by (auto elim!: haltsE dest: outcomeD [OF single_step_inv [OF assms(1)]])
  then show ?thesis unfolding l(2) by (cases l) (simp_all add: send_stop_reason_inv)
qed

lemma step_inv: "step_modes M \<Longrightarrow> gdb_inv M h m0 s0 gdb \<Longrightarrow> keeps M h m0 s0 (step gdb data)"
  unfolding step_def
  by (rule any_bindI) (auto intro!: send_stop_reason_inv dest: outcomeD [OF single_step_inv])

lemma kill_request_inv: "gdb_inv M h m0 s0 gdb \<Longrightarrow> keeps M h m0 s0 (kill_request gdb data)"
  by (simp add: kill_request_def gdb_inv_def wf_table_def active_def)

lemma query_inv: "gdb_inv M h m0 s0 gdb \<Longrightarrow> keeps M h m0 s0 (query gdb data)"
  unfolding query_def by (intro any_bindI) (simp add: gdb_send_data_inv)

lemma set_thread_inv: "gdb_inv M h m0 s0 gdb \<Longrightarrow> keeps M h m0 s0 (set_thread gdb data)"
  unfolding set_thread_def by (intro any_bindI) (simp add: gdb_send_data_inv)

lemma read_general_registers_inv:
  "gdb_inv M h m0 s0 gdb \<Longrightarrow> keeps M h m0 s0 (read_general_registers gdb data)"
  unfolding read_general_registers_def
  by (intro any_bindI, clarify, intro any_bindI, clarify, intro any_bindI gdb_send_buffer_inv gdb_inv_packet)
    (use gdb_invD(1) in \<open>auto dest!: array_lengths\<close>)

lemma read_single_register_inv:
  "gdb_inv M h m0 s0 gdb \<Longrightarrow> keeps M h m0 s0 (read_single_register gdb data)"
  unfolding read_single_register_def
  by (intro any_bindI gdb_send_buffer_inv gdb_inv_packet) (use gdb_invD(1) in \<open>auto dest!: array_lengths\<close>)

lemma read_memory_inv: "gdb_inv M h m0 s0 gdb \<Longrightarrow> keeps M h m0 s0 (read_memory gdb data)"
  unfolding read_memory_def
  by (intro any_bindI, split if_split, intro conjI impI any_bindI gdb_send_buffer_inv gdb_inv_packet)
    (use gdb_invD(1) in \<open>auto dest!: array_lengths\<close>)

lemma write_register_inv: "gdb_inv M h m0 s0 gdb \<Longrightarrow> keeps M h m0 s0 (write_register gdb i data)"
proof (unfold write_register_def, intro any_bindI, split if_split, intro conjI impI any_bindI)
  fix v rs assume inv: "gdb_inv M h m0 s0 gdb" and i: "i < 16"
    and w: "registers_write (sim_host (arm gdb)) (reg (arm gdb)) i (registers_get_mode (reg (arm gdb))) v = Inr rs"
  have "arm_write_register i v (arm gdb) = Inr ((arm gdb)\<lparr>reg := rs\<rparr>)"
    using w by (simp add: arm_write_register_cell registers_get_mode_cur)
  then have "core_inv M h m0 ((arm gdb)\<lparr>reg := rs\<rparr>)"
    by (rule core_inv_write_register [OF gdb_invD(2) [OF inv] i])
  then show "keeps M h m0 s0 (Inr (gdb\<lparr>arm := (arm gdb)\<lparr>reg := rs\<rparr>\<rparr>))"
    by (simp add: gdb_inv_arm inv)
qed simp

lemma write_registers_loop_inv:
  "gdb_inv M h m0 s0 gdb \<Longrightarrow> write_registers_loop gdb is data = Inr (gdb', data') \<Longrightarrow> gdb_inv M h m0 s0 gdb'"
proof (induction "is" arbitrary: gdb data)
  case (Cons i "is")
  then show ?case using outcomeD [OF write_register_inv] by (fastforce simp: bindR_eq_Inr)
qed simp

lemma write_general_registers_inv:
  assumes "gdb_inv UNIV h m0 s0 gdb"
  shows "keeps UNIV h m0 s0 (write_general_registers gdb data)"
  unfolding write_general_registers_def
proof (intro any_bindI, clarify, intro any_bindI)
  fix g d d' v
  assume "write_registers_loop gdb [0..<16] data = Inr (g, d)"
  then have g: "gdb_inv UNIV h m0 s0 g" by (rule write_registers_loop_inv [OF assms])
  have "core_inv UNIV h m0 ((arm g)\<lparr>reg := registers_write_cpsr (reg (arm g)) v\<rparr>)"
    using core_inv_write_cpsr [OF gdb_invD(2) [OF g], of v] by (simp add: arm_write_cpsr_def)
  then show "keeps UNIV h m0 s0 (gdb_send_data (g\<lparr>arm := (arm g)\<lparr>reg := registers_write_cpsr (reg (arm g)) v\<rparr>\<rparr>) ''OK'')"
    by (intro gdb_send_data_inv gdb_inv_arm g)
qed

lemma write_single_register_inv:
  "gdb_inv M h m0 s0 gdb \<Longrightarrow> keeps M h m0 s0 (write_single_register gdb data)"
  unfolding write_single_register_def
  by (intro any_bindI gdb_send_data_inv) (rule outcomeD [OF write_register_inv])

lemma write_memory_loop_inv:
  "wf_memory m \<Longrightarrow> write_memory_loop n content a m = Inr (ok, m') \<Longrightarrow> wf_memory m' \<and> same_shape m m'"
proof (induction n arbitrary: content a m)
  case (Suc n)
  obtain content1 b rc m1 content2 where s: "memory_write_byte m a b = Inr (rc, m1)"
    "(if rc = 0 then write_memory_loop n content2 (a + 1) m1 else Inr (False, m1)) = Inr (ok, m')"
    using Suc.prems(2) by (auto simp: bindR_eq_Inr split: prod.splits)
  have "wf_memory m1" "same_shape m m1"
    using outcomeD [OF write_byte_outcome [OF Suc.prems(1)] s(1)] by (auto simp: write_keeps_def)
  with s(2) Suc.IH show ?case by (auto split: if_splits intro: same_shape_trans)
qed simp

lemma write_memory_binary_inv:
  assumes "gdb_inv M h m0 s0 gdb"
  shows "keeps M h m0 s0 (write_memory_binary gdb data)"
  unfolding write_memory_binary_def
proof (intro any_bindI, clarify)
  fix a n content :: "nat" and ok m
  fix c :: string and sz :: nat
  assume w: "(if a < memory_get_size (mem (arm gdb)) then write_memory_loop sz c (of_nat a) (mem (arm gdb))
      else Inr (False, mem (arm gdb))) = Inr (ok, m)"
  have "wf_memory (mem (arm gdb))" using gdb_invD(3) [OF assms] by (simp add: wf_sim_def)
  then have "wf_memory m" "same_shape (mem (arm gdb)) m"
    using w write_memory_loop_inv by (auto split: if_splits)
  then show "keeps M h m0 s0 (gdb_send_data (gdb\<lparr>arm := (arm gdb)\<lparr>mem := m\<rparr>\<rparr>) (if ok then ''OK'' else ''E02''))"
    by (intro gdb_send_data_inv gdb_inv_arm assms core_inv_frame(1) gdb_invD(2) [OF assms])
qed

lemma gdb_inv_table:
  assumes "gdb_inv M h m0 s0 gdb"
  shows "gdb_add_breakpoint gdb a = Inr (r, gdb') \<Longrightarrow> gdb_inv M h m0 s0 gdb'"
    and "gdb_remove_breakpoint gdb a = Inr (r, gdb') \<Longrightarrow> gdb_inv M h m0 s0 gdb'"
proof -
  note w = gdb_invD(4) [OF assms]
  have u: "gdb_inv M h m0 s0 (gdb\<lparr>breakpoints := b, breakpoints_number := n\<rparr>)"
    if "wf_table (gdb\<lparr>breakpoints := b, breakpoints_number := n\<rparr>)" for b n
    using that assms by (simp add: gdb_inv_def)
  show "gdb_inv M h m0 s0 gdb'" if "gdb_add_breakpoint gdb a = Inr (r, gdb')"
    using that gdb_add_breakpoint_correct [OF w, of a] gdb_add_breakpoint_full [of gdb a] u assms
    by (cases "breakpoints_number gdb < MAX_BREAKPOINTS_NUMBER") auto
  show "gdb_inv M h m0 s0 gdb'" if "gdb_remove_breakpoint gdb a = Inr (r, gdb')"
    using that gdb_remove_breakpoint_correct [OF w, of a] gdb_remove_breakpoint_absent [OF w, of a] u assms
    by (cases "a \<in> breakpoint_set gdb") auto
qed

lemma set_breakpoint_inv: "gdb_inv M h m0 s0 gdb \<Longrightarrow> keeps M h m0 s0 (set_breakpoint gdb data)"
  unfolding set_breakpoint_def
  by (intro any_bindI, split if_split, intro conjI impI any_bindI gdb_send_data_inv)
    (auto intro!: gdb_send_data_inv dest: gdb_inv_table(1))

lemma remove_breakpoint_inv: "gdb_inv M h m0 s0 gdb \<Longrightarrow> keeps M h m0 s0 (remove_breakpoint gdb data)"
  unfolding remove_breakpoint_def
  by (intro any_bindI, split if_split, intro conjI impI any_bindI gdb_send_data_inv)
    (auto intro!: gdb_send_data_inv dest: gdb_inv_table(2))

section \<open>Dispatch\<close>

lemma handlerE:
  assumes "handler c = Some f"
  obtains "f = cont" | "f = cont_with_signal" | "f = (\<lambda>g d. Some (kill_request g d))"
    | "f = (\<lambda>g d. Some (query g d))" | "f = (\<lambda>g d. Some (read_general_registers g d))"
    | "f = (\<lambda>g d. Some (read_memory g d))" | "f = (\<lambda>g d. Some (read_single_register g d))"
    | "f = (\<lambda>g d. Some (reason g d))" | "f = (\<lambda>g d. Some (set_thread g d))"
    | "f = (\<lambda>g d. Some (step g d))" | "f = (\<lambda>g d. Some (step_with_signal g d))"
    | "c = CHR ''G''" "f = (\<lambda>g d. Some (write_general_registers g d))"
    | "f = (\<lambda>g d. Some (write_memory_binary g d))"
    | "f = (\<lambda>g d. Some (write_single_register g d))" | "f = (\<lambda>g d. Some (remove_breakpoint g d))"
    | "f = (\<lambda>g d. Some (set_breakpoint g d))"
  using assms unfolding handler_def by (auto split: if_splits)

lemma with_signal:
  "step_with_signal = step" "cont_with_signal = cont" "reason gdb data = gdb_send_stop_reason gdb"
  by (simp_all add: fun_eq_iff step_with_signal_def single_step_with_signal_def step_def
      cont_with_signal_def reason_def)

lemmas handlers_inv =
  cont_inv kill_request_inv query_inv read_general_registers_inv read_memory_inv
  read_single_register_inv send_stop_reason_inv set_thread_inv step_inv write_general_registers_inv
  write_memory_binary_inv write_single_register_inv remove_breakpoint_inv set_breakpoint_inv

lemma handler_inv:
  assumes "handler c = Some f" "step_modes M" "M = UNIV \<or> c \<noteq> CHR ''G''" "gdb_inv M h m0 s0 gdb"
    "f gdb data = Some r"
  shows "keeps M h m0 s0 r"
  by (rule handlerE [OF assms(1)])
    (use assms(2-5) write_general_registers_inv in \<open>auto simp: with_signal intro: handlers_inv\<close>)

lemma gdb_packet_analysis_cases:
  assumes "gdb_packet_analysis gdb pkt n = Some r"
  obtains (fault) e where "r = Inl e"
    | (refused) "r = gdb_require_retransmission gdb"
    | (unknown) g where "gdb_send_ack gdb = Inr g" "r = gdb_send_data g []"
    | (command) g c f data where "gdb_send_ack gdb = Inr g" "take 1 (drop 1 pkt) = [c]"
        "handler c = Some f" "f g data = Some r"
proof -
  have "take 1 (drop 1 pkt) = [c]"
    if "handler c = Some f" "store pkt i NUL = Inr p" "load p 1 = Inr c" for p i c f
  proof -
    have "1 < length pkt" "c = pkt ! 1"
      using that by (cases "i = 1"; auto simp: store_def load_def handler_def split: if_splits)+
    then show ?thesis by (simp add: take_Suc hd_drop_conv_nth)
  qed
  with assms that show thesis
    unfolding gdb_packet_analysis_def packet_check_def
    by (fastforce split: sum.splits option.splits if_splits prod.splits
        simp: bindR_eq_Inr bindR_eq_Inl)
qed

lemma gdb_packet_analysis_inv:
  assumes "step_modes M" "gdb_inv M h m0 s0 gdb" "M = UNIV \<or> take 1 (drop 1 pkt) \<noteq> ''G''"
    "gdb_packet_analysis gdb pkt n = Some r"
  shows "keeps M h m0 s0 r"
  using assms(4)
proof (cases rule: gdb_packet_analysis_cases)
  case refused
  then show ?thesis using assms(2) by (simp add: gdb_require_retransmission_def Rio_writen_inv)
next
  case (unknown g)
  then show ?thesis
    using outcomeD [OF Rio_writen_inv [OF assms(2)]] by (auto simp: gdb_send_ack_def intro: gdb_send_data_inv)
next
  case (command g c f data)
  then have "gdb_inv M h m0 s0 g"
    using outcomeD [OF Rio_writen_inv [OF assms(2)]] by (simp add: gdb_send_ack_def)
  with command handler_inv assms(1,3) show ?thesis by metis
qed simp

section \<open>Properties\<close>

text \<open>
  Requests that are answered in every state: no command, an unknown one, the stop reason, the queries,
  the registers, the end, and a piece of the memory whose reply fits into the packet.
\<close>

definition surely_answered :: "gdb_protocol_data \<Rightarrow> string \<Rightarrow> bool" where
  "surely_answered gdb data \<longleftrightarrow> data = [] \<or> handler (hd data) = None
     \<or> hd data \<in> {CHR ''?'', CHR ''q'', CHR ''g'', CHR ''k''}
     \<or> (\<exists>a n. data = CHR ''m'' # range_text a n \<and> a < memory_get_size (mem (arm gdb)) \<and> n \<le> 2045)"

lemma query_answers:
  assumes "wf_gdb gdb"
  shows "\<exists>g. query gdb (args @ NUL # rest) = Inr g"
proof -
  have e: "\<exists>s. c_string (args @ NUL # rest) = Inr s" by (simp add: c_string_def)
  have "\<exists>g. gdb_send_data gdb t = Inr g"
    if "t \<in> {''Text=0;Data=0;Bss=0'', ''PacketSize=400'', ''T0;tnotrun:0'', []}" for t
    using gdb_send_data_reply [OF assms, of t] that by (auto simp: MAX_PACKET_SIZE_def)
  then show ?thesis using e by (auto simp: query_def)
qed

lemma stop_reason_answers:
  assumes "wf_gdb gdb"
  shows "\<exists>g. gdb_send_stop_reason gdb = Inr g"
proof -
  have "\<exists>g. gdb_send_data gdb t = Inr g" if "t \<in> {''S04'', ''S0A'', ''S0B'', ''X05'', ''S05''}" for t
    using gdb_send_data_reply [OF assms, of t] that by (auto simp: MAX_PACKET_SIZE_def)
  then show ?thesis unfolding gdb_send_stop_reason_def by simp
qed

lemma surely_answered_returns:
  assumes "wf_gdb gdb" "cur_mode (arm gdb) \<noteq> FIQ" "given < 256"
    "given \<noteq> unat (checksum data) \<or> surely_answered gdb data"
  shows "\<exists>g. gdb_packet_analysis gdb (CHR ''$'' # data @ CHR ''#'' # hex_fixed hex_digit 2 given @ [NUL])
      (length data + 4) = Some (Inr g)"
proof -
  let ?ack = "gdb\<lparr>sent := sent gdb @ ''+''\<rparr>" and ?rest = "hex_fixed hex_digit 2 given @ [NUL]"
  have ns: "\<not> shut_down gdb" and wa: "wf_gdb ?ack"
    using assms(1) by (simp_all add: wf_gdb_def wf_table_def active_def)
  obtain g where empty: "gdb_send_data ?ack [] = Inr g"
    using gdb_send_data_reply [OF wa, of "[]"] by (auto simp: MAX_PACKET_SIZE_def)
  have regs: "\<exists>g. read_general_registers ?ack d = Inr g" for d
    using read_general_registers_reply [OF wa] assms(2) by auto
  have piece: "\<exists>g. read_memory ?ack (range_text a n @ NUL # ?rest) = Inr g"
    if a: "a < memory_get_size (mem (arm gdb))" "n \<le> 2045" for a n
  proof -
    obtain m where m: "mem (arm gdb) = Some m" "a < msize m"
      using a(1) by (cases "mem (arm gdb)") (auto simp: memory_get_size_def)
    have "length (take n (drop a (mdata m))) \<le> 2045" "n < 2 ^ 32" using a(2) by simp_all
    then show ?thesis using read_memory_reply [OF wa, of m a n ?rest] m by auto
  qed
  have "\<exists>g. f ?ack (tl data @ NUL # ?rest) = Some (Inr g)"
    if "surely_answered gdb data" "data \<noteq> []" "handler (hd data) = Some f" for f
    using that query_answers [OF wa, of "tl data" ?rest] regs piece stop_reason_answers [OF wa]
    by (auto simp: surely_answered_def handler_def reason_def kill_request_def)
  then show ?thesis
    unfolding gdb_packet_analysis_framed [OF assms(3) ns] using assms(4) empty
    by (cases data) (auto split: option.split)
qed

text \<open>C34: A packet that is answered keeps the debugger in order: whatever bytes it holds, if its treatment
  returns and does not fault, then the buffer, the breakpoints and the trace options keep their form,
  the processor keeps the invariant of its core on the same host with the same size of memory, and
  what was sent before is a prefix of what is sent now. Unless it writes all registers, it does not
  bring the processor into FIQ mode, not even if it executes instructions. On an open connection
  outside FIQ mode a packet with a wrong checksum, without a command, with an unknown command, with
  one of the commands ?, q, g and k, and a request of at most 2045 bytes inside the memory, are
  always answered. Nothing is stated of packets that fault, such as a request of more bytes.\<close>

theorem packet_keeps_invariant:
  shows "(\<forall>gdb'. gdb_packet_analysis gdb pkt n = Some (Inr gdb') \<longrightarrow>
      (gdb_inv UNIV h m0 s0 gdb \<longrightarrow> gdb_inv UNIV h m0 s0 gdb')
      \<and> (take 1 (drop 1 pkt) \<noteq> ''G'' \<longrightarrow> gdb_inv (- {FIQ}) h m0 s0 gdb \<longrightarrow> gdb_inv (- {FIQ}) h m0 s0 gdb'))
    \<and> (gdb_inv (- {FIQ}) h m0 s0 gdb \<and> \<not> shut_down gdb \<and> given < 256
        \<and> (given \<noteq> unat (checksum data) \<or> surely_answered gdb data) \<longrightarrow>
      (\<exists>gdb'. gdb_packet_analysis gdb (CHR ''$'' # data @ CHR ''#'' # hex_fixed hex_digit 2 given @ [NUL])
          (length data + 4) = Some (Inr gdb')))"
proof (intro conjI allI impI)
  fix gdb'
  assume r: "gdb_packet_analysis gdb pkt n = Some (Inr gdb')"
  show "gdb_inv UNIV h m0 s0 gdb'" if "gdb_inv UNIV h m0 s0 gdb"
    using gdb_packet_analysis_inv [OF _ that _ r] by (simp add: step_modes_def)
  show "gdb_inv (- {FIQ}) h m0 s0 gdb'" if "take 1 (drop 1 pkt) \<noteq> ''G''" "gdb_inv (- {FIQ}) h m0 s0 gdb"
    using gdb_packet_analysis_inv [OF _ that(2) _ r] that(1) by (simp add: step_modes_def)
next
  assume a: "gdb_inv (- {FIQ}) h m0 s0 gdb \<and> \<not> shut_down gdb \<and> given < 256
      \<and> (given \<noteq> unat (checksum data) \<or> surely_answered gdb data)"
  then have "wf_gdb gdb" "cur_mode (arm gdb) \<noteq> FIQ"
    by (auto simp: gdb_inv_def wf_gdb_def core_inv_def modes_in_def cur_mode_def)
  then show "\<exists>gdb'. gdb_packet_analysis gdb (CHR ''$'' # data @ CHR ''#'' # hex_fixed hex_digit 2 given @ [NUL])
      (length data + 4) = Some (Inr gdb')"
    using a by (intro surely_answered_returns) auto
qed

text \<open>The commands that only inspect: queries, registers, memory, the stop reason, the threads.\<close>

definition inspects :: "char set" where
  "inspects = {CHR ''q'', CHR ''g'', CHR ''m'', CHR ''p'', CHR ''?'', CHR ''H''}"

definition same_target :: "gdb_protocol_data \<Rightarrow> gdb_protocol_data \<Rightarrow> bool" where
  "same_target gdb gdb' \<longleftrightarrow> arm gdb' = arm gdb \<and> trace gdb' = trace gdb
     \<and> target_exception gdb' = target_exception gdb \<and> breakpoints gdb' = breakpoints gdb
     \<and> breakpoints_number gdb' = breakpoints_number gdb \<and> shut_down gdb' = shut_down gdb"

lemma Rio_writen_same: "outcome UNIV (same_target gdb) (Rio_writen s gdb)"
  by (simp add: Rio_writen_def same_target_def)

lemma same_target_packet:
  "outcome UNIV (same_target (gdb\<lparr>packet := p, len := n\<rparr>)) r \<Longrightarrow> outcome UNIV (same_target gdb) r"
  "outcome UNIV (same_target (gdb\<lparr>packet := p\<rparr>)) r \<Longrightarrow> outcome UNIV (same_target gdb) r"
  by (auto elim!: outcome_weaken simp: same_target_def)

lemma gdb_send_buffer_same: "outcome UNIV (same_target gdb) (gdb_send_buffer gdb)"
  unfolding gdb_send_buffer_def gdb_transmit_packet_def
  by (intro any_bindI, clarify, intro any_bindI same_target_packet(1) [OF Rio_writen_same])

lemma gdb_send_data_same: "outcome UNIV (same_target gdb) (gdb_send_data gdb data)"
  unfolding gdb_send_data_def
  by (intro any_bindI same_target_packet(2) [OF gdb_send_buffer_same])

lemma query_same: "outcome UNIV (same_target gdb) (query gdb data)"
  unfolding query_def by (intro any_bindI) (simp add: gdb_send_data_same)

lemma set_thread_same: "outcome UNIV (same_target gdb) (set_thread gdb data)"
  unfolding set_thread_def by (intro any_bindI) (simp add: gdb_send_data_same)

lemma stop_reason_same: "outcome UNIV (same_target gdb) (gdb_send_stop_reason gdb)"
  unfolding gdb_send_stop_reason_def by (rule gdb_send_data_same)

lemmas send_packet_same = same_target_packet(2) [OF gdb_send_buffer_same]

lemma read_registers_same:
  "outcome UNIV (same_target gdb) (read_general_registers gdb data)"
  "outcome UNIV (same_target gdb) (read_single_register gdb data)"
  unfolding read_general_registers_def read_single_register_def
  by (intro any_bindI, clarify, intro any_bindI, clarify, intro any_bindI send_packet_same)
    (intro any_bindI send_packet_same)

lemma read_memory_same: "outcome UNIV (same_target gdb) (read_memory gdb data)"
  unfolding read_memory_def
  by (intro any_bindI, split if_split, intro conjI impI any_bindI send_packet_same)

lemmas inspection_same =
  query_same set_thread_same stop_reason_same read_registers_same read_memory_same

text \<open>The commands that inspect always return, and change neither the processor with its memory, nor
  the trace, the breakpoints or the stop reason.\<close>

theorem inspection_changes_nothing:
  assumes "c \<in> inspects"
  shows "\<exists>f. handler c = Some f \<and> (\<forall>gdb data. \<exists>r. f gdb data = Some r \<and>
    outcome UNIV (same_target gdb) r)"
proof -
  have "outcome UNIV (same_target gdb) (reason gdb data)" for gdb data
    unfolding with_signal by (rule stop_reason_same)
  then show ?thesis
    using assms unfolding inspects_def
    by (elim insertE emptyE) (simp_all add: handler_def inspection_same)
qed

theorem inspection_changes_nothing_witness:
  "\<exists>f. handler (CHR ''m'') = Some f \<and> (\<forall>gdb data. \<exists>r. f gdb data = Some r \<and>
    outcome UNIV (same_target gdb) r)"
  by (rule inspection_changes_nothing) (simp add: inspects_def)

lemma demo_gdb_inv:
  assumes "length bs < 2 ^ 32" "M = UNIV \<or> M = - {FIQ}"
  shows "gdb_inv M (sim_host (demo_sim bs)) (mem (demo_sim bs)) [] (demo_gdb bs)"
proof -
  have "mode_of v \<in> M" if r: "raw (demo_sim bs) SPSR mode = Inr v" for v mode
  proof -
    obtain k where "cell SPSR mode = Inr k"
      using r wf_demo_sim [OF assms(1)]
      by (auto simp: raw_def wf_sim_def registers_read_cell bindR_eq_Inr)
    then have "v = 0" using r raw_demo_sim [OF assms(1), of SPSR mode k] by simp
    then show ?thesis using assms(2) by (auto simp: mode_of_def get_bits_take_drop)
  qed
  then have "modes_in M (demo_sim bs)"
    using assms(2) demo_sim_simps [of bs] by (auto simp: modes_in_def cur_mode_def)
  then show ?thesis
    using wf_demo_gdb [OF assms(1)] unfolding gdb_inv_def wf_gdb_def
    by (simp add: demo_gdb_simps core_inv_def MAX_PACKET_SIZE_def) (simp add: demo_gdb_def)
qed

theorem packet_keeps_invariant_witness:
  "\<exists>gdb'. gdb_packet_analysis (demo_gdb [1, 2]) (''$k#6b'' @ [NUL]) 5 = Some (Inr gdb')
    \<and> gdb_inv (- {FIQ}) (sim_host (demo_sim [1, 2])) (mem (demo_sim [1, 2])) [] gdb'"
proof -
  let ?inv = "gdb_inv (- {FIQ}) (sim_host (demo_sim [1, 2])) (mem (demo_sim [1, 2])) []"
  have i: "?inv (demo_gdb [1, 2])" using demo_gdb_inv [of "[1, 2]" "- {FIQ}"] by simp
  have c: "checksum ''k'' = 0x6b" by (simp add: checksum_def)
  have x: "hex_fixed hex_digit 2 0x6b = ''6b''" by code_simp
  have s: "surely_answered (demo_gdb [1, 2]) ''k''" by (simp add: surely_answered_def)
  have "\<not> shut_down (demo_gdb [1, 2])" using wf_demo_gdb [of "[1, 2]"] by (simp add: wf_gdb_def)
  with conjunct2 [OF packet_keeps_invariant [where gdb = "demo_gdb [1, 2]" and given = "0x6b" and data = "''k''"
      and h = "sim_host (demo_sim [1, 2])" and ?s0.0 = "[]" and ?m0.0 = "mem (demo_sim [1, 2])"]] i s
  obtain gdb' where "gdb_packet_analysis (demo_gdb [1, 2]) (''$k#6b'' @ [NUL]) 5 = Some (Inr gdb')"
    by (auto simp: x)
  moreover from this have "?inv gdb'" using packet_keeps_invariant i by fastforce
  ultimately show ?thesis by blast
qed

end
