(* ===== verification/Debug_Messages.thy ===== *)
theory Debug_Messages
  imports Prelude "HOL-Library.Char_ord" "HOL-Library.List_Lexorder" "HOL-Library.Multiset"
begin

text \<open>
  The selection of debug messages of \<^verbatim>\<open>debug.c\<close>: a table of 64 file names in increasing order,
  with insertion and binary search, and the text printed for binary data. The table is a global
  variable of the program; here the functions take it and return it.
\<close>

section \<open>Comparison of strings\<close>

text \<open>The comparison of C strings by unsigned characters; the code looks at the sign only.\<close>

fun strcmp :: "string \<Rightarrow> string \<Rightarrow> int" where
  "strcmp [] [] = 0"
| "strcmp [] (b # bs) = -1"
| "strcmp (a # as) [] = 1"
| "strcmp (a # as) (b # bs) = (if a = b then strcmp as bs else if a < b then -1 else 1)"

lemma strcmp_sign: "strcmp a b < 0 \<longleftrightarrow> a < b" "strcmp a b = 0 \<longleftrightarrow> a = b" "0 < strcmp a b \<longleftrightarrow> b < a"
  by (induction a b rule: strcmp.induct) auto

section \<open>The list of files with debug messages\<close>

definition MAX_FILES_NUMBER :: nat where
  "MAX_FILES_NUMBER = 64"

record debug_data =
  debugged_files :: "string option list"
  nb_debugged_files :: nat

definition debug_initial :: debug_data where
  "debug_initial = \<lparr>debugged_files = replicate 64 None, nb_debugged_files = 0\<rparr>"

text \<open>The comparison with an entry of the array, a pointer that may be null.\<close>

definition compare_entry :: "string option list \<Rightarrow> nat \<Rightarrow> string \<Rightarrow> int res" where
  "compare_entry files i name =
     bindR (load files i) (\<lambda>entry.
     case entry of None \<Rightarrow> Inl Null_Pointer | Some f \<Rightarrow> Inr (strcmp f name))"

text \<open>The loop that looks for the place of a new name.\<close>

function find_place :: "string option list \<Rightarrow> nat \<Rightarrow> string \<Rightarrow> nat \<Rightarrow> nat res" where
  "find_place files nb name i =
     (if i < nb \<and> i < MAX_FILES_NUMBER then
        bindR (compare_entry files i name) (\<lambda>r.
        if r < 0 then find_place files nb name (i + 1) else Inr i)
      else Inr i)"
  by pat_completeness auto
termination
  by (relation "measure (\<lambda>(files, nb, name, i). nb - i)") auto

declare find_place.simps [simp del]

text \<open>The loop that moves the entries from \<open>i\<close> up by one, for \<open>j\<close> downwards.\<close>

fun move_up :: "string option list \<Rightarrow> nat \<Rightarrow> nat \<Rightarrow> string option list res" where
  "move_up files i 0 = Inr files"
| "move_up files i (Suc j) =
     (if Suc j > i then
        bindR (load files j) (\<lambda>f. bindR (store files (Suc j) f) (\<lambda>files. move_up files i j))
      else Inr files)"

definition add_debug_to :: "string \<Rightarrow> debug_data \<Rightarrow> debug_data res" where
  "add_debug_to name d =
     bindR (find_place (debugged_files d) (nb_debugged_files d) name 0) (\<lambda>i.
     if i \<ge> MAX_FILES_NUMBER then Inr d
     else
       bindR (move_up (debugged_files d) i (nb_debugged_files d)) (\<lambda>files.
       bindR (store files i (Some name)) (\<lambda>files.
       Inr (d\<lparr>debugged_files := files, nb_debugged_files := nb_debugged_files d + 1\<rparr>))))"

text \<open>The binary search between \<open>from\<close> and \<open>to\<close>, both included.\<close>

function search_debugged :: "string option list \<Rightarrow> string \<Rightarrow> int \<Rightarrow> int \<Rightarrow> int res" where
  "search_debugged files name lo hi =
     (if lo < hi then
        (let middle = (lo + hi) div 2 in
         bindR (compare_entry files (nat middle) name) (\<lambda>result.
         if result < 0 then search_debugged files name (middle + 1) hi
         else if result > 0 then search_debugged files name lo (middle - 1)
         else Inr 1))
      else if lo = hi then
        bindR (compare_entry files (nat lo) name) (\<lambda>result. Inr (if result = 0 then 1 else 0))
      else Inr 0)"
  by pat_completeness auto
termination
  by (relation "measure (\<lambda>(files, name, lo, hi). nat (hi - lo))") auto

declare search_debugged.simps [simp del]

definition is_debugged :: "string \<Rightarrow> debug_data \<Rightarrow> int res" where
  "is_debugged name d = search_debugged (debugged_files d) name 0 (int (nb_debugged_files d) - 1)"

text \<open>The characters printed for binary data, in the C locale; \<open>data\<close> is the array from the pointer on.\<close>

definition isprint :: "char \<Rightarrow> bool" where
  "isprint c \<longleftrightarrow> of_char c \<in> {32 .. 126 :: nat}"

fun debug_raw_binary :: "string \<Rightarrow> nat \<Rightarrow> string res" where
  "debug_raw_binary data 0 = Inr []"
| "debug_raw_binary data (Suc n) =
     bindR (load data 0) (\<lambda>c.
     bindR (debug_raw_binary (tl data) n) (\<lambda>rest.
     Inr ((if isprint c then c else CHR ''.'') # rest)))"

section \<open>The sorted list\<close>

definition names :: "debug_data \<Rightarrow> string list" where
  "names d = map the (take (nb_debugged_files d) (debugged_files d))"

definition wf_debug :: "debug_data \<Rightarrow> bool" where
  "wf_debug d \<longleftrightarrow> length (debugged_files d) = 64 \<and> nb_debugged_files d \<le> 64
     \<and> None \<notin> set (take (nb_debugged_files d) (debugged_files d)) \<and> sorted (names d)"

lemma names_nth:
  assumes "wf_debug d" "i < nb_debugged_files d"
  shows "debugged_files d ! i = Some (names d ! i)"
proof -
  have "debugged_files d ! i \<in> set (take (nb_debugged_files d) (debugged_files d))"
    using assms by (auto simp: in_set_conv_nth wf_debug_def)
  then have "debugged_files d ! i \<noteq> None" using assms(1) unfolding wf_debug_def by metis
  then show ?thesis using assms by (auto simp: names_def wf_debug_def)
qed

lemma length_names: "wf_debug d \<Longrightarrow> length (names d) = nb_debugged_files d"
  by (simp add: names_def wf_debug_def)

lemma compare_entry_name:
  "wf_debug d \<Longrightarrow> i < nb_debugged_files d \<Longrightarrow>
    compare_entry (debugged_files d) i name = Inr (strcmp (names d ! i) name)"
  using names_nth [of d i] by (simp add: compare_entry_def wf_debug_def)

lemma find_place_correct:
  assumes "wf_debug d" "i \<le> nb_debugged_files d" "\<forall>k < i. names d ! k < name"
  shows "\<exists>p. find_place (debugged_files d) (nb_debugged_files d) name i = Inr p
    \<and> p \<le> nb_debugged_files d \<and> (\<forall>k < p. names d ! k < name)
    \<and> (p < nb_debugged_files d \<longrightarrow> name \<le> names d ! p)"
  using assms(2,3)
proof (induction "debugged_files d" "nb_debugged_files d" name i rule: find_place.induct)
  case (1 name i)
  have le: "nb_debugged_files d \<le> 64" using assms(1) by (simp add: wf_debug_def)
  show ?case
  proof (cases "i < nb_debugged_files d")
    case False
    with "1.prems" show ?thesis
      by (subst find_place.simps) auto
  next
    case True
    then have c: "i < nb_debugged_files d \<and> i < MAX_FILES_NUMBER" using le by (simp add: MAX_FILES_NUMBER_def)
    have e: "find_place (debugged_files d) (nb_debugged_files d) name i =
      (if names d ! i < name then find_place (debugged_files d) (nb_debugged_files d) name (i + 1) else Inr i)"
      using c compare_entry_name [OF assms(1) True]
      by (subst find_place.simps) (simp add: strcmp_sign)
    show ?thesis
    proof (cases "names d ! i < name")
      case lt: True
      have "\<forall>k < i + 1. names d ! k < name" using lt "1.prems"(2) by (auto simp: less_Suc_eq)
      then show ?thesis
        using "1.hyps" [OF c compare_entry_name [OF assms(1) True, of name]]
          True lt e by (simp add: strcmp_sign)
    next
      case False
      with e True "1.prems" show ?thesis by auto
    qed
  qed
qed


lemma move_up_correct:
  assumes "j < length files" "i \<le> j"
  shows "\<exists>files'. move_up files i j = Inr files' \<and> length files' = length files
    \<and> (\<forall>k < length files. files' ! k = (if i < k \<and> k \<le> j then files ! (k - 1) else files ! k))"
  using assms
proof (induction j arbitrary: files)
  case (Suc j)
  show ?case
  proof (cases "Suc j > i")
    case True
    let ?f = "files[Suc j := files ! j]"
    obtain files' where "move_up ?f i j = Inr files'" "length files' = length files"
      "\<And>k. k < length files \<Longrightarrow> files' ! k = (if i < k \<and> k \<le> j then ?f ! (k - 1) else ?f ! k)"
      using Suc.IH [of ?f] Suc.prems True by auto
    with True Suc.prems show ?thesis by (auto simp: nth_list_update le_Suc_eq)
  qed (use Suc.prems in auto)
qed auto

lemma move_up_overrun:
  "length files = 64 \<Longrightarrow> i < 64 \<Longrightarrow> move_up files i 64 = Inl Out_Of_Bounds"
  by (simp add: eval_nat_numeral)

lemma add_debug_to_room:
  assumes "wf_debug d" "nb_debugged_files d < 64"
  shows "\<exists>d'. add_debug_to name d = Inr d' \<and> wf_debug d'
    \<and> nb_debugged_files d' = nb_debugged_files d + 1 \<and> names d' = insort name (names d)"
proof -
  let ?n = "nb_debugged_files d" and ?x = "names d" and ?f = "debugged_files d"
  have len: "length ?f = 64" and lx: "length ?x = ?n"
    using assms(1) by (simp_all add: wf_debug_def length_names)
  obtain p where p: "find_place ?f ?n name 0 = Inr p" "p \<le> ?n" "\<forall>k < p. ?x ! k < name"
    "p < ?n \<longrightarrow> name \<le> ?x ! p"
    using find_place_correct [OF assms(1), of 0 name] by auto
  obtain f where f: "move_up ?f p ?n = Inr f" "length f = 64"
    "\<And>k. k < 64 \<Longrightarrow> f ! k = (if p < k \<and> k \<le> ?n then ?f ! (k - 1) else ?f ! k)"
    using move_up_correct [of ?n ?f p] len assms(2) p(2) by auto
  let ?d = "d\<lparr>debugged_files := f[p := Some name], nb_debugged_files := ?n + 1\<rparr>"
  let ?y = "take p ?x @ name # drop p ?x"
  have entries: "take (?n + 1) (f[p := Some name]) = map Some ?y"
  proof (rule nth_equalityI)
    show "length (take (?n + 1) (f[p := Some name])) = length (map Some ?y)"
      using f(2) assms(2) p(2) lx by simp
    fix k assume "k < length (take (?n + 1) (f[p := Some name]))"
    then have "k < ?n + 1" "k < 64" using f(2) by auto
    then show "take (?n + 1) (f[p := Some name]) ! k = map Some ?y ! k"
      using p(2) f(2,3) lx names_nth [OF assms(1), of k] names_nth [OF assms(1), of "k - 1"] assms(2)
      by (auto simp: nth_append nth_Cons' nth_list_update)
  qed
  have "insort name ?x = ?y"
  proof -
    have srt: "sorted ?x" using assms(1) by (simp add: wf_debug_def)
    have "\<forall>z \<in> set (take p ?x). z < name" using p(3) lx p(2) by (auto simp: in_set_conv_nth)
    moreover have "drop p ?x = [] \<or> name \<le> hd (drop p ?x)"
      using p(4) lx by (cases "p < ?n") (simp_all add: hd_drop_conv_nth)
    ultimately have "insort name (take p ?x @ drop p ?x) = ?y"
    proof (induction "take p ?x")
      case Nil
      then show ?case by (cases "drop p ?x") auto
    next
      case (Cons a as)
      have "insort name (ys @ zs) = ys @ name # zs"
        if "\<forall>z \<in> set ys. z < name" "zs = [] \<or> name \<le> hd zs" for ys zs
        using that by (induction ys) (cases zs, auto)
      then show ?case using Cons.prems by blast
    qed
    then show ?thesis by simp
  qed
  moreover have "names ?d = map the (take (?n + 1) (f[p := Some name]))" by (simp add: names_def)
  then have nd: "names ?d = ?y" unfolding entries by (simp add: comp_def)
  moreover have "wf_debug ?d"
  proof -
    have "sorted (insort name ?x)" using assms(1) by (simp add: wf_debug_def sorted_insort)
    then have "sorted (names ?d)" using calculation by simp
    moreover have "None \<notin> set (take (?n + 1) (f[p := Some name]))" unfolding entries by auto
    ultimately show ?thesis using f(2) assms(2) by (simp add: wf_debug_def)
  qed
  moreover have "add_debug_to name d = Inr ?d"
    using p(1,2) f(1,2) assms(2) by (simp add: add_debug_to_def MAX_FILES_NUMBER_def)
  ultimately show ?thesis by (intro exI [of _ ?d]) simp
qed

lemma add_debug_to_full:
  assumes "wf_debug d" "nb_debugged_files d = 64"
  shows "add_debug_to name d = (if name \<le> last (names d) then Inl Out_Of_Bounds else Inr d)"
proof -
  let ?x = "names d"
  have lx: "length ?x = 64" using assms length_names by simp
  obtain p where p: "find_place (debugged_files d) 64 name 0 = Inr p" "p \<le> 64"
    "\<forall>k < p. ?x ! k < name" "p < 64 \<longrightarrow> name \<le> ?x ! p"
    using find_place_correct [OF assms(1), of 0 name] assms(2) by auto
  have last': "last ?x = ?x ! 63" using lx by (subst last_conv_nth) auto
  have "name \<le> last ?x \<longleftrightarrow> p < 64"
  proof
    show "p < 64" if "name \<le> last ?x"
    proof (rule ccontr)
      assume "\<not> p < 64"
      then have "?x ! 63 < name" using p(2,3) by simp
      with that last' show False by simp
    qed
    show "name \<le> last ?x" if "p < 64"
    proof -
      have "?x ! p \<le> ?x ! 63"
        using assms(1) lx that by (intro sorted_nth_mono) (simp_all add: wf_debug_def)
      with p(4) that last' show ?thesis by (metis order_trans)
    qed
  qed
  with p(1,2) move_up_overrun [of "debugged_files d" p] assms show ?thesis
    by (auto simp: add_debug_to_def MAX_FILES_NUMBER_def wf_debug_def)
qed

lemma search_debugged_correct:
  assumes "wf_debug d" "0 \<le> lo" "hi < int (nb_debugged_files d)"
    "\<forall>k. int k < lo \<longrightarrow> k < nb_debugged_files d \<longrightarrow> names d ! k < name"
    "\<forall>k. hi < int k \<longrightarrow> k < nb_debugged_files d \<longrightarrow> name < names d ! k"
  shows "search_debugged (debugged_files d) name lo hi = Inr (if name \<in> set (names d) then 1 else 0)"
  using assms(2-)
proof (induction "debugged_files d" name lo hi rule: search_debugged.induct)
  case (1 name lo hi)
  have lx: "length (names d) = nb_debugged_files d" using assms(1) by (rule length_names)
  have mem: "name \<in> set (names d)" if "names d ! k = name" "k < nb_debugged_files d" for k
    using that lx by (auto simp: in_set_conv_nth)
  show ?case
  proof (cases "lo < hi")
    case True
    define m where "m = (lo + hi) div 2"
    have m: "lo \<le> m" "m < hi" "nat m < nb_debugged_files d" "int (nat m) = m" "0 \<le> m"
      using True "1.prems"(1,2) by (auto simp: m_def)
    note ce = compare_entry_name [OF assms(1) m(3), of name]
    have srt: "names d ! i \<le> names d ! j" if "i \<le> j" "j < nb_debugged_files d" for i j
      using assms(1) that lx by (intro sorted_nth_mono) (auto simp: wf_debug_def)
    have e: "search_debugged (debugged_files d) name lo hi =
        (if names d ! nat m < name then search_debugged (debugged_files d) name (m + 1) hi
         else if name < names d ! nat m then search_debugged (debugged_files d) name lo (m - 1)
         else Inr 1)"
      using True ce by (subst search_debugged.simps) (simp add: Let_def strcmp_sign flip: m_def)
    consider "names d ! nat m < name" | "name < names d ! nat m" | "names d ! nat m = name" by force
    then show ?thesis
    proof cases
      case 1
      have "names d ! k < name" if "int k < m + 1" "k < nb_debugged_files d" for k
        using srt [of k "nat m"] 1 that m by (intro le_less_trans [OF _ 1]) auto
      with 1 show ?thesis
        using "1.hyps"(1) [OF True m_def ce] e m "1.prems" by (simp add: strcmp_sign)
    next
      case 2
      have "name < names d ! k" if "m - 1 < int k" "k < nb_debugged_files d" for k
        using srt [of "nat m" k] that m by (intro less_le_trans [OF 2]) auto
      moreover have "\<not> names d ! nat m < name" using 2 by (rule less_not_sym)
      ultimately show ?thesis
        using 2 "1.hyps"(2) [OF True m_def ce] e m "1.prems" by (simp add: strcmp_sign)
    next
      case 3
      with mem [OF 3 m(3)] e show ?thesis by simp
    qed
  next
    case False
    show ?thesis
    proof (cases "lo = hi")
      case True
      then have k: "nat lo < nb_debugged_files d" "int (nat lo) = lo" using "1.prems"(1,2) by auto
      have e: "search_debugged (debugged_files d) name lo hi = Inr (if names d ! nat lo = name then 1 else 0)"
        using True compare_entry_name [OF assms(1) k(1), of name]
        by (subst search_debugged.simps) (simp add: strcmp_sign)
      have "names d ! k \<noteq> name" if "names d ! nat lo \<noteq> name" "k < nb_debugged_files d" for k
      proof -
        consider "int k < lo" | "k = nat lo" | "hi < int k" using True by linarith
        then show ?thesis using that "1.prems"(3,4) by cases (auto dest: less_imp_neq)
      qed
      then have "name \<in> set (names d) \<longleftrightarrow> names d ! nat lo = name"
        using mem k lx by (auto simp: in_set_conv_nth)
      with e show ?thesis by simp
    next
      case neq: False
      with False have "names d ! k \<noteq> name" if "k < nb_debugged_files d" for k
      proof -
        consider "int k < lo" | "hi < int k" using neq False by linarith
        then show ?thesis using that "1.prems"(3,4) by cases (auto dest: less_imp_neq)
      qed
      then have "name \<notin> set (names d)" using lx by (auto simp: in_set_conv_nth)
      with neq False show ?thesis by (subst search_debugged.simps) simp
    qed
  qed
qed


text \<open>The options \<^verbatim>\<open>--debug\<close> of a command line, one after the other.\<close>

fun add_all :: "string list \<Rightarrow> debug_data \<Rightarrow> debug_data res" where
  "add_all [] d = Inr d"
| "add_all (n # ns) d = bindR (add_debug_to n d) (add_all ns)"

lemma wf_debug_initial: "wf_debug debug_initial" "names debug_initial = []" "nb_debugged_files debug_initial = 0"
  by (simp_all add: wf_debug_def debug_initial_def names_def)

lemma add_all_room:
  "wf_debug d \<Longrightarrow> nb_debugged_files d + length ns \<le> 64 \<Longrightarrow>
    \<exists>d'. add_all ns d = Inr d' \<and> wf_debug d' \<and> mset (names d') = mset (names d) + mset ns"
proof (induction ns arbitrary: d)
  case (Cons n ns)
  obtain d1 where d1: "add_debug_to n d = Inr d1" "wf_debug d1"
    "nb_debugged_files d1 = nb_debugged_files d + 1" "names d1 = insort n (names d)"
    using add_debug_to_room [OF Cons.prems(1), of n] Cons.prems(2) by auto
  then show ?case using Cons.IH [of d1] Cons.prems(2) by auto
qed simp

section \<open>Properties\<close>

text \<open>A file name is inserted at its place in the sorted table of 64 entries. With the table full a
  name greater than all is ignored, and any other is not: the entries are moved up past the end of
  the array.\<close>

theorem add_debug_to_outcome:
  assumes "wf_debug d"
  shows "if nb_debugged_files d < 64
    then \<exists>d'. add_debug_to name d = Inr d' \<and> wf_debug d' \<and> names d' = insort name (names d)
    else add_debug_to name d = (if name \<le> last (names d) then Inl Out_Of_Bounds else Inr d)"
  using add_debug_to_room [OF assms, of name] add_debug_to_full [OF assms, of name] assms
  by (auto simp: wf_debug_def)

text \<open>After up to 64 names have been added, in any order and with repetitions, the binary search
  answers exactly for the names that were added, and never dereferences a null pointer or reads
  outside the table.\<close>

theorem is_debugged_iff_added:
  assumes "length ns \<le> 64"
  shows "\<exists>d. add_all ns debug_initial = Inr d
    \<and> (\<forall>name. is_debugged name d = Inr (if name \<in> set ns then 1 else 0))"
proof -
  obtain d where d: "add_all ns debug_initial = Inr d" "wf_debug d" "mset (names d) = mset ns"
    using add_all_room [OF wf_debug_initial(1), of ns] assms by (auto simp: wf_debug_initial)
  have "set (names d) = set ns" using d(3) by (metis set_mset_mset)
  then have "is_debugged name d = Inr (if name \<in> set ns then 1 else 0)" for name
    using search_debugged_correct [OF d(2), of 0 "int (nb_debugged_files d) - 1" name]
    by (simp add: is_debugged_def)
  with d(1) show ?thesis by blast
qed

theorem add_debug_to_outcome_witness:
  "\<exists>d'. add_debug_to ''trace.c'' debug_initial = Inr d' \<and> wf_debug d' \<and> names d' = [''trace.c'']"
  using add_debug_to_outcome [OF wf_debug_initial(1), of "''trace.c''"] by (simp add: wf_debug_initial)

theorem is_debugged_iff_added_witness:
  "\<exists>d. add_all [''trace.c'', ''memory.c''] debug_initial = Inr d
    \<and> is_debugged ''memory.c'' d = Inr 1 \<and> is_debugged ''arm_core.c'' d = Inr 0"
  using is_debugged_iff_added [of "[''trace.c'', ''memory.c'']"] by auto

end
