(* ===== verification/Send_Irq.thy ===== *)
theory Send_Irq
  imports Arm_Exception
begin

text \<open>
  The command line client of \<^verbatim>\<open>send_irq.c\<close>, which sends the number of an exception to the
  simulator: the treatment of its arguments up to the byte it sends.
\<close>

section \<open>The client\<close>

text \<open>
  What the client does: it prints its usage and exits with 1, reports an unknown name and exits with
  2, or sends one byte to a port of a host. The name of the host is resolved by the system, and the
  sockets are those of the system.
\<close>

datatype client_action =
    Usage string
  | Unknown_Irq string
  | Send string u16 u8

text \<open>The loop over the exceptions that have a name, for the usage message.\<close>

function usage_names :: "nat \<Rightarrow> string res" where
  "usage_names irq =
     (if irq < 256 then
        bindR (arm_get_exception_name irq) (\<lambda>name.
        case name of
          None \<Rightarrow> Inr []
        | Some n \<Rightarrow>
            bindR (usage_names (irq + 1)) (\<lambda>rest.
            Inr (n @ (if irq = INTERRUPT then [CHR 0x09, CHR 0x09] @ ''(default)'' else [])
                 @ [CHR 0x0A] @ rest)))
      else Inr [])"
  by pat_completeness auto
termination
  by (relation "measure (\<lambda>irq. 256 - irq)") auto

declare usage_names.simps [simp del]

text \<open>The loop that looks for a name, from exception \<open>irq\<close> on: its number, \<open>None\<close> without one.\<close>

function find_irq :: "string \<Rightarrow> nat \<Rightarrow> nat option res" where
  "find_irq name irq =
     (if irq < 256 then
        bindR (arm_get_exception_name irq) (\<lambda>irq_name.
        case irq_name of
          None \<Rightarrow> Inr None
        | Some n \<Rightarrow> if n \<noteq> name then find_irq name (irq + 1) else Inr (Some irq))
      else Inr None)"
  by pat_completeness auto
termination
  by (relation "measure (\<lambda>(name, irq). 256 - irq)") auto

declare find_irq.simps [simp del]

definition usage_text :: "string \<Rightarrow> string" where
  "usage_text program =
     ''Usage :'' @ program @ '' host port [ IRQ name ]'' @ [CHR 0x0A, CHR 0x0A]
     @ ''Sends an IRQ signal to the ARM simulator executing on the given host using the given port.''
     @ [CHR 0x0A] @ ''The IRQ name is one of :'' @ [CHR 0x0A]"

definition send_irq :: "string list \<Rightarrow> client_action res" where
  "send_irq argv =
     (if length argv < 3 then
        bindR (usage_names RESET) (\<lambda>ns. Inr (Usage (usage_text (argv ! 0) @ ns)))
      else
        bindR (if length argv < 4 then Inr (Some INTERRUPT) else find_irq (argv ! 3) RESET) (\<lambda>irq.
        case irq of
          None \<Rightarrow> Inr (Unknown_Irq (''Unknown irq : '' @ argv ! 3 @ [CHR 0x0A]))
        | Some n \<Rightarrow>
            bindR (atoi (argv ! 2)) (\<lambda>port.
            Inr (Send (argv ! 1) (word_of_int port) (of_nat n)))))"

lemma exception_name_cases:
  "arm_get_exception_name irq = Inr (if irq < 8 then arm_exception_names ! irq else None)"
  by (simp add: arm_get_exception_name_def arm_exception_names_def)


lemma exception_names_some: "1 \<le> i \<Longrightarrow> i < 8 \<Longrightarrow> arm_exception_names ! i \<noteq> None"
proof -
  assume "1 \<le> i" "i < 8"
  then have "i \<in> {1, 2, 3, 4, 5, 6, 7}" by auto
  then show ?thesis by (auto simp: arm_exception_names_def)
qed

lemma find_irq_find:
  "1 \<le> irq \<Longrightarrow> irq \<le> 8 \<Longrightarrow>
    find_irq name irq = Inr (find (\<lambda>i. arm_exception_names ! i = Some name) [irq..<8])"
proof (induction "8 - irq" arbitrary: irq)
  case 0
  then show ?case by (subst find_irq.simps) (simp add: exception_name_cases)
next
  case (Suc n)
  then have irq: "irq < 8" "[irq..<8] = irq # [Suc irq..<8]" "n = 8 - Suc irq"
    by (simp_all add: upt_conv_Cons)
  obtain m where m: "arm_exception_names ! irq = Some m"
    using exception_names_some [OF Suc.prems(1) irq(1)] by blast
  then have "find_irq name irq = (if m \<noteq> name then find_irq name (Suc irq) else Inr (Some irq))"
    using irq(1) by (subst find_irq.simps) (simp add: exception_name_cases)
  then show ?case
    using Suc.hyps(1) [OF irq(3)] irq m by auto
qed

section \<open>Properties\<close>

text \<open>The client sends the number of the exception whose name it is given, for the first seven of the
  eight names, and reports the other strings, the name of the software interrupt among them. Of the
  seven numbers only those of the reset and of the interrupt have an effect on the processor.\<close>

theorem client_sends_number:
  assumes "atoi port = Inr n"
  shows "send_irq [program, host, port, name] = Inr
      (case find (\<lambda>i. arm_exception_names ! i = Some name) [1, 2, 3, 4, 5, 6, 7] of
         None \<Rightarrow> Unknown_Irq (''Unknown irq : '' @ name @ [CHR 0x0A])
       | Some i \<Rightarrow> Send host (word_of_int n) (of_nat i))
    \<and> (\<forall>irq \<in> {DATA_ABORT, FAST_INTERRUPT, IMPRECISE_ABORT, PREFETCH_ABORT, UNDEFINED_INSTRUCTION}.
        arm_exception irq p = Inr (int irq, p))"
proof
  have "[1..<8] = [1, 2, 3, 4, 5, 6, 7 :: nat]" by (simp add: upt_rec)
  then show "send_irq [program, host, port, name] = Inr
      (case find (\<lambda>i. arm_exception_names ! i = Some name) [1, 2, 3, 4, 5, 6, 7] of
         None \<Rightarrow> Unknown_Irq (''Unknown irq : '' @ name @ [CHR 0x0A])
       | Some i \<Rightarrow> Send host (word_of_int n) (of_nat i))"
    using find_irq_find [of 1 name] assms
    by (simp add: send_irq_def split: option.split)
qed (simp add: arm_exception_def Let_def)

theorem client_sends_number_witness:
  "send_irq [''send_irq'', ''localhost'', ''8099'', ''interrupt''] = Inr (Send ''localhost'' 8099 4)
    \<and> send_irq [''send_irq'', ''localhost'', ''8099'', ''software interrupt''] =
        Inr (Unknown_Irq (''Unknown irq : software interrupt'' @ [CHR 0x0A]))"
proof -
  have "atoi ''8099'' = Inr 8099" by code_simp
  from client_sends_number [OF this] show ?thesis by (simp add: arm_exception_names_def)
qed

end
