(* ===== verification/Simulator.thy ===== *)
theory Simulator
  imports Gdb_Invariant Debug_Messages Send_Irq
begin

text \<open>
  The process of \<^verbatim>\<open>arm_simulator.c\<close>: its options, its start, and the two threads that serve the
  debugger and the interrupts, as a step relation over the events they receive; the invariant of
  every reachable state.
\<close>

section \<open>Options\<close>

text \<open>
  The parsing of the command line is that of the C library: the options are the pairs of the option
  character and its argument, if it has one, in the order \<^verbatim>\<open>getopt_long\<close> returns them; \<open>opens\<close>
  says which trace files can be created. The process may exit with a code.
\<close>

record options =
  gdb_port :: u16
  irq_port :: u16
  trace_file :: "string option"
  tracing :: trace_data
  debugged :: debug_data

definition default_options :: options where
  "default_options =
     \<lparr>gdb_port = 0, irq_port = 0, trace_file = None, tracing = trace_initial, debugged = debug_initial\<rparr>"

datatype startup = Exits nat | Goes_On options

definition argument :: "string option \<Rightarrow> string res" where
  "argument optarg = (case optarg of None \<Rightarrow> Inl Null_Pointer | Some s \<Rightarrow> Inr s)"

definition process_option :: "(string \<Rightarrow> bool) \<Rightarrow> char \<Rightarrow> string option \<Rightarrow> options \<Rightarrow> startup res" where
  "process_option opens opt optarg opts =
     (if opt = CHR ''g'' then
        bindR (argument optarg) (\<lambda>s. bindR (atoi s) (\<lambda>n.
        Inr (Goes_On (opts\<lparr>gdb_port := word_of_int n\<rparr>))))
      else if opt = CHR ''i'' then
        bindR (argument optarg) (\<lambda>s. bindR (atoi s) (\<lambda>n.
        Inr (Goes_On (opts\<lparr>irq_port := word_of_int n\<rparr>))))
      else if opt = CHR ''h'' then Inr (Exits 0)
      else if opt = CHR ''t'' then
        bindR (argument optarg) (\<lambda>s.
        Inr (if opens s then Goes_On (opts\<lparr>trace_file := Some s\<rparr>) else Exits 1))
      else if opt = CHR ''r'' then Inr (Goes_On (opts\<lparr>tracing := trace_add REGISTERS (tracing opts)\<rparr>))
      else if opt = CHR ''m'' then Inr (Goes_On (opts\<lparr>tracing := trace_add MEMORY (tracing opts)\<rparr>))
      else if opt = CHR ''s'' then
        bindR (argument optarg) (\<lambda>s.
        Inr (Goes_On (opts\<lparr>tracing := trace_add (arm_get_mode_number s) (tracing opts)\<rparr>)))
      else if opt = CHR ''p'' then Inr (Goes_On (opts\<lparr>tracing := trace_add POSITION (tracing opts)\<rparr>))
      else if opt = CHR ''d'' then
        bindR (argument optarg) (\<lambda>s. bindR (add_debug_to s (debugged opts)) (\<lambda>d.
        Inr (Goes_On (opts\<lparr>debugged := d\<rparr>))))
      else Inr (Exits 1))"

fun process_options :: "(string \<Rightarrow> bool) \<Rightarrow> (char \<times> string option) list \<Rightarrow> options \<Rightarrow> startup res" where
  "process_options opens [] opts = Inr (Goes_On opts)"
| "process_options opens ((opt, optarg) # os) opts =
     bindR (process_option opens opt optarg opts) (\<lambda>s.
     case s of Exits n \<Rightarrow> Inr (Exits n) | Goes_On opts \<Rightarrow> process_options opens os opts)"

section \<open>The process\<close>

text \<open>
  The process waits for a debugger, serves one, or has exited. The two threads share the processor
  under a lock: the debugger thread holds it while a command is executed, the interrupt thread while
  an interrupt is delivered, so commands and interrupts are atomic steps (\<open>Locking\<close> proves it). What the debugger thread
  does without the lock (checking a packet, sending answers) touches only its own fields.
\<close>

datatype phase =
    Waiting sim trace_data
  | Connected gdb_protocol_data
  | Exited nat

definition simulator_main ::
    "host \<Rightarrow> string \<Rightarrow> bool \<Rightarrow> u8 list option \<Rightarrow> (string \<Rightarrow> bool) \<Rightarrow> (char \<times> string option) list
      \<Rightarrow> phase res" where
  "simulator_main h inp struct_ok block opens argv =
     bindR (process_options opens argv default_options) (\<lambda>s.
     case s of
       Exits n \<Rightarrow> Inr (Exited n)
     | Goes_On opts \<Rightarrow>
         bindR (arm_create True h inp registers_create (memory_create struct_ok block 0x8000)) (\<lambda>p.
         case p of
           None \<Rightarrow> Inl Null_Pointer
         | Some p \<Rightarrow> Inr (Waiting p (tracing opts))))"

datatype event = Connect | Packet string | Repeat | Garbage | Echo | Interrupt_Byte u8 | Disconnect

text \<open>
  One step: the connection of the debugger (whose structure is allocated with arbitrary contents of
  its arrays), a packet with its delimiter and its two digits (in the buffer of the scanner, where
  other characters follow its final null character), a request for the last packet, data that is no
  packet, a new line, which is echoed to the standard output, the end of the connection, after which
  the process exits, and a byte received by the interrupt thread.
\<close>

inductive simulator_step :: "phase \<Rightarrow> event \<Rightarrow> phase \<Rightarrow> bool" where
  connect: "gdb_init_data True pkt bps p t = Some g \<Longrightarrow> length pkt = MAX_PACKET_SIZE \<Longrightarrow>
    length bps = MAX_BREAKPOINTS_NUMBER \<Longrightarrow> simulator_step (Waiting p t) Connect (Connected g)"
| packet: "4 \<le> length s \<Longrightarrow> gdb_packet_analysis g (s @ NUL # rest) (length s) = Some (Inr g') \<Longrightarrow>
    simulator_step (Connected g) (Packet s) (Connected g')"
| repeat: "gdb_transmit_packet g = Inr g' \<Longrightarrow> simulator_step (Connected g) Repeat (Connected g')"
| garbage: "gdb_require_retransmission g = Inr g' \<Longrightarrow> simulator_step (Connected g) Garbage (Connected g')"
| echo: "simulator_step (Connected g) Echo
    (Connected (g\<lparr>arm := (arm g)\<lparr>stdout := stdout (arm g) @ [CHR 0x0A]\<rparr>\<rparr>))"
| disconnect: "simulator_step (Connected g) Disconnect (Exited 0)"
| irq_waiting: "arm_exception (unat b) p = Inr (rc, p') \<Longrightarrow>
    simulator_step (Waiting p t) (Interrupt_Byte b) (Waiting p' t)"
| irq_connected: "arm_exception (unat b) (arm g) = Inr (rc, p') \<Longrightarrow>
    simulator_step (Connected g) (Interrupt_Byte b) (Connected (g\<lparr>arm := p'\<rparr>))"

inductive runs :: "phase \<Rightarrow> event list \<Rightarrow> phase \<Rightarrow> bool" where
  none: "runs s [] s"
| more: "simulator_step s e s' \<Longrightarrow> runs s' es s'' \<Longrightarrow> runs s (e # es) s''"

inductive_cases exitedE: "simulator_step (Exited n) e s"
inductive_cases waitingE: "simulator_step (Waiting p t) e s"
inductive_cases connectedE: "simulator_step (Connected g) e s"
inductive_simps irq_waiting_iff: "simulator_step (Waiting p t) (Interrupt_Byte b) s"
inductive_simps runs_simps [simp]: "runs s [] s'" "runs s (e # es) s'"

lemma runs_append: "runs s es s' \<Longrightarrow> runs s' fs s'' \<Longrightarrow> runs s (es @ fs) s''"
  by (induction rule: runs.induct) auto

lemma runs_one: "simulator_step a e a' \<Longrightarrow> runs a [e] a'"
  by (rule runs.more [OF _ runs.none])

section \<open>The invariant of the process\<close>

fun phase_inv :: "nat set \<Rightarrow> host \<Rightarrow> memory \<Rightarrow> phase \<Rightarrow> bool" where
  "phase_inv M h m0 (Waiting p t) = (core_inv M h m0 p \<and> wf_trace t)"
| "phase_inv M h m0 (Connected g) = gdb_inv M h m0 [] g"
| "phase_inv M h m0 (Exited n) = True"

text \<open>The packet that writes all registers, the status register included.\<close>

fun writes_status :: "event \<Rightarrow> bool" where
  "writes_status (Packet s) = (take 1 (drop 1 s) = ''G'')"
| "writes_status e = False"

lemma core_inv_stdout: "core_inv M h m0 p \<Longrightarrow> core_inv M h m0 (p\<lparr>stdout := out\<rparr>)"
  by (simp add: core_inv_def modes_in_def wf_sim_def raw_def arm_read_cpsr_def)

lemma arm_exception_inv:
  assumes "step_modes M" "core_inv M h m0 p" "arm_exception n p = Inr (rc, p')"
  shows "core_inv M h m0 p'"
  using assms any_mode.arm_exception_outcome [of h m0 p n] not_fiq.arm_exception_outcome [of h m0 p n]
  unfolding step_modes_def by auto

lemma simulator_step_inv:
  assumes "simulator_step s e s'" "step_modes M" "M = UNIV \<or> \<not> writes_status e" "phase_inv M h m0 s"
  shows "phase_inv M h m0 s'"
  using assms
proof (induction rule: simulator_step.induct)
  case (connect pkt bps p t g)
  then show ?case
    by (auto simp: gdb_init_data_def gdb_inv_def wf_table_def active_def MAX_PACKET_SIZE_def)
next
  case (packet s g rest g')
  have "take 1 (drop 1 (s @ NUL # rest)) = take 1 (drop 1 s)"
    using packet(1) by (cases s; cases "List.tl s") auto
  then show ?case
    using gdb_packet_analysis_inv [OF packet(3) _ _ packet(2)] packet(4,5) by auto
next
  case (repeat g g')
  then show ?case using outcomeD [OF gdb_transmit_packet_inv repeat(1)] by simp
next
  case (garbage g g')
  then show ?case
    using outcomeD [OF Rio_writen_inv garbage(1) [unfolded gdb_require_retransmission_def]] by simp
next
  case (echo g)
  then show ?case using core_inv_stdout gdb_invD(2) gdb_inv_arm by simp
next
  case (irq_waiting b p rc p' t)
  then show ?case using arm_exception_inv [OF irq_waiting(2) _ irq_waiting(1)] by simp
next
  case (irq_connected b g rc p')
  then show ?case
    using arm_exception_inv [OF irq_connected(2) _ irq_connected(1)] gdb_invD(2) gdb_inv_arm by simp
qed simp


lemma runs_inv:
  assumes "runs s es s'" "step_modes M" "M = UNIV \<or> \<not> (\<exists>e \<in> set es. writes_status e)" "phase_inv M h m0 s"
  shows "phase_inv M h m0 s'"
  using assms by (induction rule: runs.induct) (auto dest: simulator_step_inv)

lemma process_option_trace:
  "process_option opens opt optarg opts = Inr (Goes_On opts') \<Longrightarrow> wf_trace (tracing opts) \<Longrightarrow>
    wf_trace (tracing opts')"
  by (auto simp: process_option_def bindR_eq_Inr wf_trace_def trace_add_def split: if_splits)

lemma process_options_trace:
  "process_options opens os opts = Inr (Goes_On opts') \<Longrightarrow> wf_trace (tracing opts) \<Longrightarrow>
    wf_trace (tracing opts')"
proof (induction opens os opts rule: process_options.induct)
  case (2 opens opt optarg os opts)
  obtain x where x: "process_option opens opt optarg opts = Inr x"
    "(case x of Exits n \<Rightarrow> Inr (Exits n) | Goes_On opts \<Rightarrow> process_options opens os opts) = Inr (Goes_On opts')"
    using "2.prems"(1) by (auto simp: bindR_eq_Inr)
  show ?case
  proof (cases x)
    case (Goes_On opts1)
    then have "wf_trace (tracing opts1)" using x(1) "2.prems"(2) process_option_trace by blast
    with "2.IH" Goes_On x show ?thesis by simp
  qed (use x(2) in simp)
qed simp

lemma read_registers_create:
  assumes "registers_read h registers_create i mode = Inr v"
  shows "v = 0"
proof -
  obtain k where k: "cell i mode = Inr k"
    "v = (if host_big_endian h then rdata (registers_create ! i) ! k
          else reverse_4 (rdata (registers_create ! i) ! k))"
    using assms by (auto simp: registers_read_cell [OF wf_registers_create] bindR_eq_Inr)
  have "k < length (rdata (register_create i))" "i < 18" using cell_in_range [OF k(1)] by simp_all
  then have "rdata (registers_create ! i) ! k = 0"
    by (auto simp: registers_create_def register_create_def split: if_splits)
  moreover have "reverse_4 0 = (0 :: u32)" by (simp add: reverse_4_def)
  ultimately show ?thesis using k(2) by simp
qed

lemma initial_core_inv:
  assumes "wf_memory m" "arm_create True h inp registers_create m = Inr (Some p)" "step_modes M"
  shows "core_inv M h m p"
proof -
  have p: "wf_sim p" "cur_mode p = SVC" "mem p = m" "sim_host p = h"
    "\<And>mode. raw p SPSR mode = registers_read h registers_create SPSR mode"
    using arm_create_effect [OF wf_registers_create assms(1), of h inp] assms(2) by auto
  have "mode_of v = 0" if v: "raw p SPSR mode = Inr v" for v mode
  proof -
    have "v = 0" using v p(5) read_registers_create by simp
    then show ?thesis by (simp add: mode_of_def get_bits_take_drop)
  qed
  then have "modes_in M p"
    using p(2) assms(3) by (auto simp: modes_in_def step_modes_def simp flip: cur_mode_def)
  with p show ?thesis by (simp add: core_inv_def)
qed


lemma simulator_main_inv:
  assumes "simulator_main h inp struct_ok block opens argv = Inr s" "step_modes M"
    "\<forall>bs. block = Some bs \<longrightarrow> length bs = 0x8000"
  shows "phase_inv M h (memory_create struct_ok block 0x8000) s"
proof -
  let ?m = "memory_create struct_ok block 0x8000"
  have wm: "wf_memory ?m" using assms(3) by (auto simp: memory_create_def wf_memory_def split: option.split)
  obtain x where x: "process_options opens argv default_options = Inr x"
    "(case x of Exits n \<Rightarrow> Inr (Exited n) | Goes_On opts \<Rightarrow>
         bindR (arm_create True h inp registers_create ?m) (\<lambda>p.
         case p of None \<Rightarrow> Inl Null_Pointer | Some p \<Rightarrow> Inr (Waiting p (tracing opts)))) = Inr s"
    using assms(1) by (auto simp: simulator_main_def bindR_eq_Inr)
  show ?thesis
  proof (cases x)
    case (Goes_On opts)
    then obtain p where p: "arm_create True h inp registers_create ?m = Inr (Some p)"
      "s = Waiting p (tracing opts)"
      using x(2) by (auto simp: bindR_eq_Inr split: option.splits)
    have "wf_trace (tracing default_options)" by (simp add: default_options_def wf_trace_initial)
    then have "wf_trace (tracing opts)" using x(1) Goes_On process_options_trace by simp
    with initial_core_inv [OF wm p(1) assms(2)] p(2) show ?thesis by simp
  qed (use x(2) in auto)
qed

section \<open>Properties\<close>

text \<open>C3: In every state the simulator can reach, from any command line and through any sequence of
  connections, packets, other data and interrupts, the invariant of the debugger and of the core
  holds, with the memory allocated at the start. As long as no packet writes all registers, the
  processor never is in FIQ mode and no saved status selects it, whatever the program does.\<close>

theorem reachable_invariant:
  assumes "simulator_main h inp struct_ok block opens argv = Inr start" "runs start es s"
    "\<forall>bs. block = Some bs \<longrightarrow> length bs = 0x8000"
  shows "phase_inv UNIV h (memory_create struct_ok block 0x8000) s
    \<and> ((\<forall>e \<in> set es. \<not> writes_status e) \<longrightarrow>
        phase_inv (- {FIQ}) h (memory_create struct_ok block 0x8000) s)"
proof -
  have "step_modes UNIV" "step_modes (- {FIQ})" by (simp_all add: step_modes_def)
  then show ?thesis
    using runs_inv [OF assms(2)] simulator_main_inv [OF assms(1) _ assms(3)] by blast
qed

lemma irq_masked:
  "bit (arm_read_cpsr p) 7 \<Longrightarrow> arm_exception INTERRUPT p = Inr (1, p)"
  by (simp add: arm_exception_def Let_def get_bit_eq_iff)

lemma irq_runs_masked:
  "bit (arm_read_cpsr p) 7 \<Longrightarrow> runs (Waiting p t) (replicate n (Interrupt_Byte 4)) s \<longleftrightarrow> s = Waiting p t"
  by (induction n arbitrary: s) (auto simp: irq_waiting_iff irq_masked)

text \<open>Interrupts do not nest: a burst of interrupts that arrives before the next instruction enters
  IRQ mode once, with the return address and the saved status of the interrupted program, and the
  others are lost.\<close>

theorem interrupt_burst:
  assumes "wf_sim p" "cur_mode p \<noteq> FIQ" "\<not> bit (arm_read_cpsr p) 7"
    "raw p PC (cur_mode p) = Inr pc" "raw p SP (cur_mode p) = Inr sp"
  shows "\<exists>p'. cur_mode p' = IRQ \<and> bit (arm_read_cpsr p') 7
    \<and> raw p' LR IRQ = Inr ((pc + 4) AND 0xFFFFFFFD) \<and> raw p' SPSR IRQ = Inr (arm_read_cpsr p)
    \<and> (\<forall>s. runs (Waiting p t) (replicate (Suc n) (Interrupt_Byte 4)) s \<longleftrightarrow> s = Waiting p' t)"
proof -
  obtain p' where p': "arm_exception INTERRUPT p = Inr (int INTERRUPT, p')" "cur_mode p' = IRQ"
    "\<forall>n < 32. bit (arm_read_cpsr p') n =
         (if n < 5 then n \<in> {1, 4} else if n = 5 then False else if n = 7 then True
          else bit (arm_read_cpsr p) n)"
    "raw p' LR IRQ = Inr ((pc + 4) AND 0xFFFFFFFD)" "raw p' SPSR IRQ = Inr (arm_read_cpsr p)"
    using irq_entry_effect [OF assms] by auto
  have b: "bit (arm_read_cpsr p') 7" using p'(3) by simp
  have "runs (Waiting p t) (replicate (Suc n) (Interrupt_Byte 4)) s \<longleftrightarrow> s = Waiting p' t" for s
    using p'(1) irq_runs_masked [OF b] by (auto simp: irq_waiting_iff)
  with p' b show ?thesis by blast
qed

theorem interrupt_burst_witness:
  "\<exists>p'. cur_mode p' = IRQ \<and> raw p' SPSR IRQ = Inr 0x153
    \<and> runs (Waiting (demo_sim []) trace_initial) (replicate 3 (Interrupt_Byte 4)) (Waiting p' trace_initial)"
proof -
  have r: "raw (demo_sim []) i SVC = Inr 0" if i: "i \<in> {SP, PC}" for i
  proof -
    obtain k where "cell i SVC = Inr k" using cell_low [of i SVC] i by auto
    then show ?thesis using i by (intro raw_demo_sim) auto
  qed
  have "\<not> bit (0x153 :: u32) 7" by simp
  then obtain p' where "cur_mode p' = IRQ" "raw p' SPSR IRQ = Inr 0x153"
    "runs (Waiting (demo_sim []) trace_initial) (replicate (Suc 2) (Interrupt_Byte 4)) (Waiting p' trace_initial)"
    using interrupt_burst [of "demo_sim []" 0 0 trace_initial 2] r [of PC] r [of SP] wf_demo_sim [of "[]"]
    unfolding demo_sim_simps by auto
  moreover have "Suc 2 = 3" by simp
  ultimately show ?thesis by metis
qed

theorem reachable_invariant_witness:
  "\<exists>p. simulator_main \<lparr>host_big_endian = False, host_masks_shifts = True\<rparr> [] True
      (Some (replicate 0x8000 0)) (\<lambda>f. True) [(CHR ''r'', None)] = Inr p
    \<and> phase_inv (- {FIQ}) \<lparr>host_big_endian = False, host_masks_shifts = True\<rparr>
        (memory_create True (Some (replicate 0x8000 0)) 0x8000) p"
proof -
  let ?h = "\<lparr>host_big_endian = False, host_masks_shifts = True\<rparr>"
  let ?m = "memory_create True (Some (replicate 0x8000 0)) 0x8000"
  have "wf_memory ?m" by (simp add: memory_create_def wf_memory_def)
  then obtain p where "arm_create True ?h [] registers_create ?m = Inr (Some p)"
    using arm_create_effect [OF wf_registers_create] by blast
  then have "simulator_main ?h [] True (Some (replicate 0x8000 0)) (\<lambda>f. True) [(CHR ''r'', None)]
      = Inr (Waiting p (trace_add REGISTERS trace_initial))"
    by (simp add: simulator_main_def process_option_def default_options_def)
  with reachable_invariant [OF this runs.none] show ?thesis by auto
qed

end
