(* ===== verification/Scanner.thy ===== *)
theory Scanner
  imports Gdb_Protocol
begin

text \<open>
  The scanner of the remote protocol: the rules of \<^verbatim>\<open>scanner.l\<close> with their actions, and the
  scanner \<^verbatim>\<open>flex\<close> has generated from them in \<^verbatim>\<open>scanner.c\<close>, with its tables, its input
  buffer and the places its main function jumps to. The buffer is the array up to its second
  end-of-buffer character; what lies behind is never read. Sizes are natural numbers: the growth of
  the buffer past \<open>2 ^ 30\<close> characters is not modelled, and allocations succeed. What other scanners
  may use (several buffers, start conditions, \<^verbatim>\<open>yyinput\<close>) is left out.
\<close>

section \<open>Tables\<close>

definition yy_accept :: "nat list" where
  "yy_accept = [0, 0, 0, 6, 4, 5, 4, 1, 2, 0, 0, 0, 3, 0]"

text \<open>The class of a character: 1 for most, 7 for the hexadecimal digits.\<close>

definition yy_ec :: "nat list" where
  "yy_ec =
     [0] @ replicate 9 1 @ [2] @ replicate 24 1 @ [3, 4] @ replicate 6 1 @ [5, 1, 6, 1, 1]
     @ replicate 10 7 @ replicate 7 1 @ replicate 6 7 @ replicate 26 1 @ replicate 6 7
     @ replicate 153 1"

definition yy_meta :: "nat list" where
  "yy_meta = [0, 1, 1, 1, 2, 1, 1, 1]"

definition yy_base :: "nat list" where
  "yy_base = [0, 0, 0, 13, 14, 14, 9, 14, 14, 8, 3, 2, 14, 14, 7]"

definition yy_def :: "nat list" where
  "yy_def = [0, 13, 1, 13, 13, 13, 14, 13, 13, 14, 13, 13, 13, 0, 13]"

definition yy_nxt :: "nat list" where
  "yy_nxt =
     [0, 4, 5, 4, 6, 7, 8, 4, 9, 12, 11, 10, 10, 13, 3, 13, 13, 13, 13, 13, 13, 13]"

definition yy_chk :: "nat list" where
  "yy_chk =
     [0, 1, 1, 1, 1, 1, 1, 1, 14, 11, 10, 9, 6, 3, 13, 13, 13, 13, 13, 13, 13, 13]"

section \<open>State\<close>

datatype buffer_status = YY_BUFFER_NEW | YY_BUFFER_NORMAL | YY_BUFFER_EOF_PENDING

text \<open>
  The scanner has one buffer, whose fields come first: its characters, its size, the position to
  start at, the number of characters it held when it was filled, whether it is filled from the input
  and its status. The last two fields are the input: what is not read yet, and the number of
  characters each read delivers.
\<close>

record yyguts =
  yy_ch_buf :: string
  yy_buf_size :: nat
  yy_buf_pos :: nat
  b_n_chars :: nat
  yy_fill_buffer :: bool
  yy_buffer_status :: buffer_status
  yy_n_chars :: nat
  yy_c_buf_p :: nat
  yy_hold_char :: char
  yytext_ptr :: nat
  yy_last_accepting_state :: nat
  yy_last_accepting_cpos :: nat
  unread :: string
  reads :: "nat list"

abbreviation YY_END_OF_BUFFER_CHAR :: char where "YY_END_OF_BUFFER_CHAR \<equiv> NUL"
abbreviation YY_END_OF_BUFFER :: nat where "YY_END_OF_BUFFER \<equiv> 6"
abbreviation YY_STATE_EOF :: nat where "YY_STATE_EOF \<equiv> 7"

definition YY_BUF_SIZE :: nat where "YY_BUF_SIZE = 16384"
definition YY_READ_BUF_SIZE :: nat where "YY_READ_BUF_SIZE = 8192"

text \<open>
  Results of computations that may fault or may not return: \<open>None\<close> is not returning.
\<close>

definition bindO :: "'a res option \<Rightarrow> ('a \<Rightarrow> 'b res option) \<Rightarrow> 'b res option" where
  "bindO m f = (case m of None \<Rightarrow> None | Some (Inl e) \<Rightarrow> Some (Inl e) | Some (Inr x) \<Rightarrow> f x)"

lemma bindO_simps [simp]:
  "bindO None f = None" "bindO (Some (Inl e)) f = Some (Inl e)" "bindO (Some (Inr x)) f = f x"
  by (simp_all add: bindO_def)

section \<open>Transitions\<close>

text \<open>The walk along the default states to an entry of the tables, and the transition of that entry.\<close>

partial_function (option) yy_next :: "nat \<Rightarrow> nat \<Rightarrow> nat res option" where
  "yy_next s c =
     (case bindR (load yy_base s) (\<lambda>b. bindR (load yy_chk (b + c)) (\<lambda>k. Inr (b, k))) of
        Inl e \<Rightarrow> Some (Inl e)
      | Inr (b, k) \<Rightarrow>
          if k = s then Some (load yy_nxt (b + c))
          else
            (case bindR (load yy_def s) (\<lambda>s.
                  if s \<ge> 14 then bindR (load yy_meta c) (\<lambda>c. Inr (s, c)) else Inr (s, c)) of
               Inl e \<Rightarrow> Some (Inl e)
             | Inr (s, c) \<Rightarrow> yy_next s c))"

text \<open>A state that accepts is remembered, with the position it was reached at.\<close>

definition remember :: "nat \<Rightarrow> nat \<Rightarrow> nat \<times> nat \<Rightarrow> (nat \<times> nat) res" where
  "remember s cp last' = bindR (load yy_accept s) (\<lambda>a. Inr (if a \<noteq> 0 then (s, cp) else last'))"

text \<open>The loop of \<^verbatim>\<open>yy_match\<close>, over the characters of the buffer from \<^verbatim>\<open>yy_cp\<close> on.\<close>

fun match_loop :: "string \<Rightarrow> nat \<Rightarrow> nat \<Rightarrow> nat \<times> nat \<Rightarrow> (nat \<times> nat \<times> nat \<times> nat) res option" where
  "match_loop [] s cp last' = Some (Inl Out_Of_Bounds)"
| "match_loop (ch # chs) s cp last' =
     bindO (Some (load yy_ec (of_char ch))) (\<lambda>c.
     bindO (Some (remember s cp last')) (\<lambda>last'.
     bindO (yy_next s c) (\<lambda>s.
     bindO (Some (load yy_base s)) (\<lambda>b.
     if b \<noteq> 14 then match_loop chs s (cp + 1) last'
     else Some (Inr (s, cp + 1, last'))))))"

text \<open>The loop of \<^verbatim>\<open>yy_get_previous_state\<close>, over the characters of the token so far.\<close>

fun previous_loop :: "string \<Rightarrow> nat \<Rightarrow> nat \<Rightarrow> nat \<times> nat \<Rightarrow> (nat \<times> nat \<times> nat) res option" where
  "previous_loop [] s cp last' = Some (Inr (s, last'))"
| "previous_loop (ch # chs) s cp last' =
     bindO (if ch \<noteq> NUL then Some (load yy_ec (of_char ch)) else Some (Inr 1)) (\<lambda>c.
     bindO (Some (remember s cp last')) (\<lambda>last'.
     bindO (yy_next s c) (\<lambda>s. previous_loop chs s (cp + 1) last')))"

definition yy_get_previous_state :: "yyguts \<Rightarrow> (nat \<times> yyguts) res option" where
  "yy_get_previous_state g =
     bindO (Some (if yy_c_buf_p g \<le> length (yy_ch_buf g) then Inr () else Inl Out_Of_Bounds)) (\<lambda>_.
     bindO (previous_loop (drop (yytext_ptr g) (take (yy_c_buf_p g) (yy_ch_buf g))) 1 (yytext_ptr g)
              (yy_last_accepting_state g, yy_last_accepting_cpos g)) (\<lambda>(s, ls, lc).
     Some (Inr (s, g\<lparr>yy_last_accepting_state := ls, yy_last_accepting_cpos := lc\<rparr>))))"

text \<open>The result of \<^verbatim>\<open>yy_try_NUL_trans\<close> is 0 for a jam.\<close>

definition yy_try_NUL_trans :: "nat \<Rightarrow> yyguts \<Rightarrow> (nat \<times> yyguts) res option" where
  "yy_try_NUL_trans s g =
     bindO (Some (remember s (yy_c_buf_p g) (yy_last_accepting_state g, yy_last_accepting_cpos g))) (\<lambda>(ls, lc).
     bindO (yy_next s 1) (\<lambda>s.
     Some (Inr (if s = 13 then 0 else s,
                g\<lparr>yy_last_accepting_state := ls, yy_last_accepting_cpos := lc\<rparr>))))"

section \<open>The input buffer\<close>

text \<open>
  A read delivers at least one character and at most as many as asked for, and none only at the end
  of the input: how many is the next element of \<open>reads\<close>, or all there are.
\<close>

definition read_input :: "nat \<Rightarrow> yyguts \<Rightarrow> string \<times> yyguts" where
  "read_input max_size g =
     (let n = (case reads g of [] \<Rightarrow> max_size | k # ks \<Rightarrow> min max_size (max 1 k))
      in (take n (unread g), g\<lparr>unread := drop n (unread g), reads := tl (reads g)\<rparr>))"

text \<open>The growth of the buffer until there is room after the characters that are kept.\<close>

function grow :: "nat \<Rightarrow> nat \<Rightarrow> nat" where
  "grow size' number_to_move =
     (if size' \<le> number_to_move + 1 \<and> 0 < size' then grow (size' * 2) number_to_move else size')"
  by pat_completeness auto
termination
  by (relation "measure (\<lambda>(s, n). n + 2 - s)") auto

declare grow.simps [simp del]

datatype eob_action = EOB_ACT_CONTINUE_SCAN | EOB_ACT_END_OF_FILE | EOB_ACT_LAST_MATCH

text \<open>The buffer is emptied; \<open>current\<close> says whether it is the one that is scanned.\<close>

definition yy_load_buffer_state :: "yyguts \<Rightarrow> yyguts" where
  "yy_load_buffer_state g =
     g\<lparr>yy_n_chars := b_n_chars g, yytext_ptr := yy_buf_pos g, yy_c_buf_p := yy_buf_pos g,
       yy_hold_char := yy_ch_buf g ! yy_buf_pos g\<rparr>"

definition yy_flush_buffer :: "bool \<Rightarrow> yyguts \<Rightarrow> yyguts" where
  "yy_flush_buffer current g =
     (let g = g\<lparr>b_n_chars := 0, yy_ch_buf := [YY_END_OF_BUFFER_CHAR, YY_END_OF_BUFFER_CHAR],
                yy_buf_pos := 0, yy_buffer_status := YY_BUFFER_NEW\<rparr>
      in if current then yy_load_buffer_state g else g)"

definition yy_init_buffer :: "bool \<Rightarrow> yyguts \<Rightarrow> yyguts" where
  "yy_init_buffer current g = (yy_flush_buffer current g)\<lparr>yy_fill_buffer := True\<rparr>"

definition yy_create_buffer :: "nat \<Rightarrow> yyguts \<Rightarrow> yyguts" where
  "yy_create_buffer size' g = yy_init_buffer False (g\<lparr>yy_buf_size := size'\<rparr>)"

definition yyrestart :: "yyguts \<Rightarrow> yyguts" where
  "yyrestart g = yy_load_buffer_state (yy_init_buffer True g)"

lemmas buffer_state_defs =
  yyrestart_def yy_create_buffer_def yy_init_buffer_def yy_flush_buffer_def yy_load_buffer_state_def

definition yy_get_next_buffer :: "yyguts \<Rightarrow> (eob_action \<times> yyguts) res" where
  "yy_get_next_buffer g =
     (if yy_c_buf_p g > yy_n_chars g + 1 then Inl Assertion_Failed
      else if \<not> yy_fill_buffer g then
        Inr (if yy_c_buf_p g - yytext_ptr g = 1 then EOB_ACT_END_OF_FILE else EOB_ACT_LAST_MATCH, g)
      else
        (let number_to_move = yy_c_buf_p g - yytext_ptr g - 1;
             moved = take number_to_move (drop (yytext_ptr g) (yy_ch_buf g));
             (chars, g) =
               (if yy_buffer_status g = YY_BUFFER_EOF_PENDING then ([], g)
                else
                  (let g = g\<lparr>yy_buf_size := grow (yy_buf_size g) number_to_move\<rparr>;
                       num_to_read = yy_buf_size g - number_to_move - 1
                   in read_input (min num_to_read YY_READ_BUF_SIZE) g));
             n = length chars;
             g = g\<lparr>b_n_chars := n, yy_n_chars := n\<rparr>;
             (ret_val, g) =
               (if n = 0 then
                  (if number_to_move = 0 then (EOB_ACT_END_OF_FILE, yyrestart g)
                   else (EOB_ACT_LAST_MATCH, g\<lparr>yy_buffer_status := YY_BUFFER_EOF_PENDING\<rparr>))
                else (EOB_ACT_CONTINUE_SCAN, g));
             g = (if n + number_to_move > yy_buf_size g
                  then g\<lparr>yy_buf_size := n + number_to_move + n div 2 - 2\<rparr> else g)
         in Inr (ret_val,
              g\<lparr>yy_n_chars := n + number_to_move,
                yy_ch_buf := moved @ chars @ [YY_END_OF_BUFFER_CHAR, YY_END_OF_BUFFER_CHAR],
                yytext_ptr := 0\<rparr>)))"

section \<open>One token\<close>

text \<open>
  The places of \<^verbatim>\<open>yylex\<close> a token's scan jumps to, with the local variables \<^verbatim>\<open>yy_bp\<close>,
  \<^verbatim>\<open>yy_current_state\<close> and \<^verbatim>\<open>yy_cp\<close>.
\<close>

datatype control = Match nat nat nat | Find_Action nat nat nat

text \<open>The result of a step: the next place, or the rule to execute with the length of its text.\<close>

datatype scanned = Jump control | Rule nat nat

definition end_of_buffer :: "nat \<Rightarrow> yyguts \<Rightarrow> (scanned \<times> yyguts) res option" where
  "end_of_buffer cp g =
     (let amount = cp - yytext_ptr g - 1;
          g = g\<lparr>yy_ch_buf := (yy_ch_buf g)[cp := yy_hold_char g]\<rparr>;
          g = (if yy_buffer_status g = YY_BUFFER_NEW
               then g\<lparr>yy_n_chars := b_n_chars g, yy_buffer_status := YY_BUFFER_NORMAL\<rparr> else g)
      in
      if yy_c_buf_p g \<le> yy_n_chars g then
        (let g = g\<lparr>yy_c_buf_p := yytext_ptr g + amount\<rparr> in
         bindO (yy_get_previous_state g) (\<lambda>(s, g).
         bindO (yy_try_NUL_trans s g) (\<lambda>(next_state, g).
         let bp = yytext_ptr g in
         if next_state \<noteq> 0 then
           (let g = g\<lparr>yy_c_buf_p := yy_c_buf_p g + 1\<rparr>
            in Some (Inr (Jump (Match bp next_state (yy_c_buf_p g)), g)))
         else Some (Inr (Jump (Find_Action bp s (yy_c_buf_p g)), g)))))
      else
        bindO (Some (yy_get_next_buffer g)) (\<lambda>(action, g).
        case action of
          EOB_ACT_END_OF_FILE \<Rightarrow>
            Some (Inr (Rule YY_STATE_EOF 0, g\<lparr>yy_c_buf_p := yytext_ptr g\<rparr>))
        | EOB_ACT_CONTINUE_SCAN \<Rightarrow>
            bindO (yy_get_previous_state (g\<lparr>yy_c_buf_p := yytext_ptr g + amount\<rparr>)) (\<lambda>(s, g).
            Some (Inr (Jump (Match (yytext_ptr g) s (yy_c_buf_p g)), g)))
        | EOB_ACT_LAST_MATCH \<Rightarrow>
            bindO (yy_get_previous_state (g\<lparr>yy_c_buf_p := yy_n_chars g\<rparr>)) (\<lambda>(s, g).
            Some (Inr (Jump (Find_Action (yytext_ptr g) s (yy_c_buf_p g)), g)))))"

text \<open>\<^verbatim>\<open>YY_DO_BEFORE_ACTION\<close>: the text of the token is ended by a null character.\<close>

definition do_before_action :: "nat \<Rightarrow> nat \<Rightarrow> yyguts \<Rightarrow> yyguts res" where
  "do_before_action bp cp g =
     bindR (load (yy_ch_buf g) cp) (\<lambda>hold.
     Inr (g\<lparr>yytext_ptr := bp, yy_hold_char := hold, yy_ch_buf := (yy_ch_buf g)[cp := NUL],
            yy_c_buf_p := cp\<rparr>))"

definition find_action :: "nat \<Rightarrow> nat \<Rightarrow> nat \<Rightarrow> yyguts \<Rightarrow> (scanned \<times> yyguts) res option" where
  "find_action bp s cp g =
     bindO (Some (load yy_accept s)) (\<lambda>a.
     let (s, cp) = (if a = 0 then (yy_last_accepting_state g, yy_last_accepting_cpos g) else (s, cp)) in
     bindO (Some (load yy_accept s)) (\<lambda>act.
     bindO (Some (do_before_action bp cp g)) (\<lambda>g.
     if act = 0 then
       Some (Inr (Jump (Find_Action bp (yy_last_accepting_state g) (yy_last_accepting_cpos g)),
                  g\<lparr>yy_ch_buf := (yy_ch_buf g)[cp := yy_hold_char g]\<rparr>))
     else if act = YY_END_OF_BUFFER then end_of_buffer cp g
     else Some (Inr (Rule act (cp - bp), g)))))"

fun scan_step :: "control \<Rightarrow> yyguts \<Rightarrow> (scanned \<times> yyguts) res option" where
  "scan_step (Match bp s cp) g =
     bindO (match_loop (drop cp (yy_ch_buf g)) s cp
              (yy_last_accepting_state g, yy_last_accepting_cpos g)) (\<lambda>(s, cp, ls, lc).
     Some (Inr (Jump (Find_Action bp s cp),
                g\<lparr>yy_last_accepting_state := ls, yy_last_accepting_cpos := lc\<rparr>)))"
| "scan_step (Find_Action bp s cp) g = find_action bp s cp g"

partial_function (option) scan_token :: "control \<Rightarrow> yyguts \<Rightarrow> (nat \<times> nat \<times> yyguts) res option" where
  "scan_token control g =
     (case scan_step control g of
        None \<Rightarrow> None
      | Some (Inl e) \<Rightarrow> Some (Inl e)
      | Some (Inr (Rule act n, g)) \<Rightarrow> Some (Inr (act, n, g))
      | Some (Inr (Jump control, g)) \<Rightarrow> scan_token control g)"

section \<open>The scanner\<close>

text \<open>
  \<open>action\<close> is what the rules do with the text of the token (the buffer from its first character
  on) and its length. The end of the input ends the loop.
\<close>

partial_function (option) yylex ::
    "(nat \<Rightarrow> string \<Rightarrow> nat \<Rightarrow> 'd \<Rightarrow> 'd res option) \<Rightarrow> yyguts \<Rightarrow> 'd \<Rightarrow> 'd res option" where
  "yylex action g d =
     (let cp = yy_c_buf_p g; g = g\<lparr>yy_ch_buf := (yy_ch_buf g)[cp := yy_hold_char g]\<rparr> in
      case scan_token (Match cp 1 cp) g of
        None \<Rightarrow> None
      | Some (Inl e) \<Rightarrow> Some (Inl e)
      | Some (Inr (act, n, g)) \<Rightarrow>
          (case action act (drop (yytext_ptr g) (yy_ch_buf g)) n d of
             None \<Rightarrow> None
           | Some (Inl e) \<Rightarrow> Some (Inl e)
           | Some (Inr d) \<Rightarrow> if act = YY_STATE_EOF then Some (Inr d) else yylex action g d))"

text \<open>A new scanner, and the buffer that is made when it is called first.\<close>

definition yy_init_globals :: "string \<Rightarrow> nat list \<Rightarrow> yyguts" where
  "yy_init_globals input sizes =
     \<lparr>yy_ch_buf = [], yy_buf_size = 0, yy_buf_pos = 0, b_n_chars = 0, yy_fill_buffer = False,
      yy_buffer_status = YY_BUFFER_NEW, yy_n_chars = 0, yy_c_buf_p = 0, yy_hold_char = NUL,
      yytext_ptr = 0, yy_last_accepting_state = 0, yy_last_accepting_cpos = 0, unread = input,
      reads = sizes\<rparr>"

definition yylex_init :: "string \<Rightarrow> nat list \<Rightarrow> yyguts" where
  "yylex_init input sizes =
     yy_load_buffer_state (yy_create_buffer YY_BUF_SIZE (yy_init_globals input sizes))"

section \<open>The rules\<close>

definition MAX_ERROR_SIZE :: nat where
  "MAX_ERROR_SIZE = 1024"

record parser_data =
  parser_gdb :: gdb_protocol_data
  error_buffer :: string
  error_len :: nat

definition handle_error :: "parser_data \<Rightarrow> parser_data res" where
  "handle_error data =
     (if error_len data \<noteq> 0 then
        bindR (store (error_buffer data) (error_len data) NUL) (\<lambda>buffer.
        bindR (gdb_require_retransmission (parser_gdb data)) (\<lambda>gdb.
        Inr (data\<lparr>error_buffer := buffer, parser_gdb := gdb, error_len := 0\<rparr>)))
      else Inr data)"

definition add_character_to_error :: "char \<Rightarrow> parser_data \<Rightarrow> parser_data res" where
  "add_character_to_error c data =
     bindR (if error_len data > MAX_ERROR_SIZE - 2 then handle_error data else Inr data) (\<lambda>data.
     bindR (store (error_buffer data) (error_len data) c) (\<lambda>buffer.
     Inr (data\<lparr>error_buffer := buffer, error_len := error_len data + 1\<rparr>)))"

text \<open>
  The actions of the rules: \<open>text\<close> is the buffer from the token on and \<open>n\<close> the length of the token.
  A new line is echoed to the standard output of the process.
\<close>

definition rule_action :: "nat \<Rightarrow> string \<Rightarrow> nat \<Rightarrow> parser_data \<Rightarrow> parser_data res option" where
  "rule_action act text n data =
     (if act = 1 then Some (handle_error data)
      else if act = 2 then
        Some (bindR (handle_error data) (\<lambda>data.
              bindR (gdb_transmit_packet (parser_gdb data)) (\<lambda>gdb.
              Inr (data\<lparr>parser_gdb := gdb\<rparr>))))
      else if act = 3 then
        bindO (Some (handle_error data)) (\<lambda>data.
        bindO (gdb_packet_analysis (parser_gdb data) text n) (\<lambda>gdb.
        Some (Inr (data\<lparr>parser_gdb := gdb\<rparr>))))
      else if act = 4 then
        Some (bindR (load text 0) (\<lambda>c. add_character_to_error c data))
      else if act = 5 then
        (let gdb = parser_gdb data; p = arm gdb in
         Some (Inr (data\<lparr>parser_gdb := gdb\<lparr>arm := p\<lparr>stdout := stdout p @ take n text\<rparr>\<rparr>\<rparr>)))
      else Some (handle_error data))"

text \<open>
  A session with the debugger, from the connection to the end of its input: the structure of the
  protocol is allocated, with arrays of any content, and the error buffer is not initialised either:
  \<open>buffer0\<close> is its content.
\<close>

definition gdb_scanner ::
    "string \<Rightarrow> u32 list \<Rightarrow> sim \<Rightarrow> trace_data \<Rightarrow> string \<Rightarrow> string \<Rightarrow> nat list \<Rightarrow> parser_data res option" where
  "gdb_scanner packet0 breakpoints0 p t buffer0 input sizes =
     (case gdb_init_data True packet0 breakpoints0 p t of
        None \<Rightarrow> Some (Inl Null_Pointer)
      | Some gdb \<Rightarrow>
          yylex rule_action (yylex_init input sizes)
            \<lparr>parser_gdb = gdb, error_buffer = buffer0, error_len = 0\<rparr>)"

end
