(* ===== verification/Scanner_Automaton.thy ===== *)
theory Scanner_Automaton
  imports Scanner
begin

text \<open>
  The automaton the tables of \<^verbatim>\<open>scanner.c\<close> stand for, and the tokens it finds: the
  compressed tables, walked along their default states, are the transition function \<open>delta\<close>, and
  the token at the head of an input is the one the patterns of \<^verbatim>\<open>scanner.l\<close> describe.
\<close>

section \<open>The automaton of the tables\<close>

text \<open>
  The transitions the tables stand for: 1 is the start, 6 and 9 are inside a packet, 10 and 11 in its
  two digits, 3 is the state after an end-of-buffer character and 13 the state without transitions.
\<close>

definition delta :: "nat \<Rightarrow> nat \<Rightarrow> nat" where
  "delta s c =
     (if c = 0 then (if s = 3 then 13 else 3)
      else if s = 1 then (if c = 2 then 5 else if c = 4 then 6 else if c = 5 then 7 else if c = 6 then 8 else 4)
      else if s = 6 \<or> s = 9 then (if c = 3 then 10 else if c = 4 then 13 else 9)
      else if s = 10 then (if c = 7 then 11 else 13)
      else if s = 11 then (if c = 7 then 12 else 13)
      else 13)"

definition states :: "nat set" where
  "states = {1, 3, 4, 5, 6, 7, 8, 9, 10, 11, 12, 13}"

lemma less_8_cases: "(c :: nat) < 8 \<Longrightarrow> c \<in> {0, 1, 2, 3, 4, 5, 6, 7}"
  by auto

lemma yy_next_delta:
  assumes "s \<in> states" "c < 8"
  shows "yy_next s c = Some (Inr (delta s c))"
proof -
  have "\<forall>s \<in> states. \<forall>c \<in> {0, 1, 2, 3, 4, 5, 6, 7}. yy_next s c = Some (Inr (delta s c))"
    by (simp add: states_def yy_next.simps yy_base_def yy_def_def yy_chk_def yy_nxt_def yy_meta_def
        load_def delta_def)
  with assms less_8_cases [OF assms(2)] show ?thesis by blast
qed

lemma delta_states: "s \<in> states \<Longrightarrow> delta s c \<in> states"
  by (auto simp: states_def delta_def)

definition stops :: "nat \<Rightarrow> bool" where
  "stops s \<longleftrightarrow> s \<in> {4, 5, 7, 8, 12, 13}"

lemma base_stops: "s \<in> states \<Longrightarrow> \<exists>b. load yy_base s = Inr b \<and> (b \<noteq> 14 \<longleftrightarrow> \<not> stops s)"
  by (auto simp: states_def stops_def yy_base_def load_def)

lemma accept_states: "s \<in> states \<Longrightarrow> load yy_accept s = Inr (yy_accept ! s)"
  by (auto simp: states_def yy_accept_def load_def)

section \<open>Characters\<close>

definition newline :: char where
  "newline = CHR 0x0A"

definition char_class :: "char \<Rightarrow> nat" where
  "char_class c =
     (if c = NUL then 0 else if c = newline then 2 else if c = CHR ''#'' then 3
      else if c = CHR ''$'' then 4 else if c = CHR ''+'' then 5 else if c = CHR ''-'' then 6
      else if is_hex c then 7 else 1)"

lemma yy_ec_nth:
  assumes "n < 256"
  shows "yy_ec ! n = (if n = 0 then 0 else if n = 10 then 2 else if n = 35 then 3 else if n = 36 then 4
    else if n = 43 then 5 else if n = 45 then 6
    else if 48 \<le> n \<and> n \<le> 57 \<or> 65 \<le> n \<and> n \<le> 70 \<or> 97 \<le> n \<and> n \<le> 102 then 7 else 1)"
proof -
  have "list_all (\<lambda>n. yy_ec ! n = (if n = 0 then 0 else if n = 10 then 2 else if n = 35 then 3
      else if n = 36 then 4 else if n = 43 then 5 else if n = 45 then 6
      else if 48 \<le> n \<and> n \<le> 57 \<or> 65 \<le> n \<and> n \<le> 70 \<or> 97 \<le> n \<and> n \<le> 102 then 7 else 1)) [0..<256]"
    by code_simp
  with assms show ?thesis by (auto simp: list_all_iff)
qed

lemma length_yy_ec: "length yy_ec = 256"
  by (simp add: yy_ec_def)

lemma load_yy_ec: "load yy_ec (of_char c) = Inr (char_class c)"
proof -
  have l: "(of_char c :: nat) < 256"
    using of_char_mod_256 [of c, where ?'a = nat] by (metis mod_less_divisor zero_less_numeral)
  have codes: "of_char NUL = (0 :: nat)" "of_char (CHR 0x0A) = (10 :: nat)" "of_char (CHR ''#'') = (35 :: nat)"
    "of_char (CHR ''$'') = (36 :: nat)" "of_char (CHR ''+'') = (43 :: nat)" "of_char (CHR ''-'') = (45 :: nat)"
    by simp_all
  have eq: "c = d \<longleftrightarrow> (of_char c :: nat) = of_char d" for d
    by (metis of_char_eq_iff)
  have "yy_ec ! of_char c = char_class c"
    unfolding yy_ec_nth [OF l] char_class_def newline_def is_hex_def eq codes
    by (simp only: Un_iff atLeastAtMost_iff disj_assoc)
  with l show ?thesis by (simp add: load_def length_yy_ec)
qed

lemma char_class_less: "char_class c < 8"
  by (simp add: char_class_def)

text \<open>The transition on a character of the input; a null character counts as any other.\<close>

definition rdelta :: "nat \<Rightarrow> char \<Rightarrow> nat" where
  "rdelta s c = delta s (if c = NUL then 1 else char_class c)"

lemma rdelta_states: "s \<in> states \<Longrightarrow> rdelta s c \<in> states"
  by (simp add: rdelta_def delta_states)

lemma char_class_0: "char_class c = 0 \<longleftrightarrow> c = NUL"
  by (simp add: char_class_def)

section \<open>Tokens\<close>

text \<open>The state the automaton stops in, or reaches at the end, and the number of characters read.\<close>

fun walk :: "nat \<Rightarrow> string \<Rightarrow> nat \<times> nat" where
  "walk s [] = (s, 0)"
| "walk s (x # xs) =
     (let s' = rdelta s x in
      if stops s' then (s', 1) else (let (t, k) = walk s' xs in (t, Suc k)))"

lemma walk_le: "snd (walk s xs) \<le> length xs"
  by (induction s xs rule: walk.induct) (auto simp: Let_def split_beta)

lemma walk_append_stop: "stops (fst (walk s w)) \<Longrightarrow> w \<noteq> [] \<Longrightarrow> walk s (w @ v) = walk s w"
proof (induction s w rule: walk.induct)
  case (2 s x xs)
  show ?case
  proof (cases "xs = [] \<or> stops (rdelta s x)")
    case True
    with 2(2) show ?thesis by (auto simp: Let_def)
  next
    case False
    with 2 show ?thesis by (auto simp: Let_def split_beta)
  qed
qed simp

lemma walk_snoc:
  "\<not> stops (fst (walk s t)) \<Longrightarrow> \<not> stops s \<Longrightarrow>
    walk s (t @ [x]) = (rdelta (fst (walk s t)) x, Suc (length t))"
  by (induction s t rule: walk.induct) (auto simp: Let_def split_beta split: if_splits)

lemma walk_nonstop: "\<not> stops (fst (walk s t)) \<Longrightarrow> snd (walk s t) = length t"
  by (induction s t rule: walk.induct) (auto simp: Let_def split_beta split: if_splits)

definition next_token :: "string \<Rightarrow> nat \<times> nat" where
  "next_token xs =
     (if xs = [] then (YY_STATE_EOF, 0)
      else (let (s, k) = walk 1 xs in if s \<in> {4, 5, 7, 8, 12} then (yy_accept ! s, k) else (4, 1)))"

text \<open>
  The tokens as the rules of \<^verbatim>\<open>scanner.l\<close> describe them: an acknowledgement, a request for
  retransmission, a packet with its two digits, a new line, or any other character.
\<close>

fun packet_length :: "string \<Rightarrow> nat option" where
  "packet_length xs =
     (let n = length (takeWhile (\<lambda>c. c \<noteq> CHR ''$'' \<and> c \<noteq> CHR ''#'') xs);
          rest = drop n xs
      in if 3 \<le> length rest \<and> rest ! 0 = CHR ''#'' \<and> is_hex (rest ! 1) \<and> is_hex (rest ! 2)
         then Some (n + 4) else None)"

declare packet_length.simps [simp del]

definition rule_token :: "string \<Rightarrow> nat \<times> nat" where
  "rule_token xs =
     (case xs of
        [] \<Rightarrow> (YY_STATE_EOF, 0)
      | x # rest \<Rightarrow>
          if x = CHR ''+'' then (1, 1)
          else if x = CHR ''-'' then (2, 1)
          else if x = newline then (5, 1)
          else if x = CHR ''$'' then (case packet_length rest of Some n \<Rightarrow> (3, n) | None \<Rightarrow> (4, 1))
          else (4, 1))"

lemma is_hex_plain: "is_hex c \<Longrightarrow> c \<notin> {NUL, newline, CHR ''#'', CHR ''$'', CHR ''+'', CHR ''-''}"
  by (auto simp: is_hex_def newline_def)

lemma char_class_iff:
  "char_class c = 3 \<longleftrightarrow> c = CHR ''#''" "char_class c = 4 \<longleftrightarrow> c = CHR ''$''" "char_class c = 7 \<longleftrightarrow> is_hex c"
  using is_hex_plain [of c] by (auto simp: char_class_def newline_def)

lemma rdelta_body:
  assumes "s = 6 \<or> s = 9"
  shows "rdelta s c = (if c = CHR ''#'' then 10 else if c = CHR ''$'' then 13 else 9)"
proof (cases "c = NUL")
  case True
  with assms show ?thesis by (auto simp: rdelta_def delta_def)
next
  case False
  with assms show ?thesis
    by (elim disjE) (simp_all add: rdelta_def delta_def char_class_iff char_class_0)
qed

lemma rdelta_digit: "q = 10 \<or> q = 11 \<Longrightarrow> rdelta q c = (if is_hex c then (if q = 10 then 11 else 12) else 13)"
  using is_hex_plain [of c]
  by (elim disjE) (simp_all add: rdelta_def delta_def char_class_iff char_class_0)

lemma walk_body:
  assumes "s = 6 \<or> s = 9" "\<forall>c \<in> set body. c \<noteq> CHR ''$'' \<and> c \<noteq> CHR ''#''"
  shows "walk s (body @ rest) =
    (let (t, k) = walk (if body = [] then s else 9) rest in (t, length body + k))"
  using assms
proof (induction body arbitrary: s)
  case (Cons x body)
  then have "rdelta s x = 9" using rdelta_body [of s x] by simp
  moreover have "\<not> stops 9" by (simp add: stops_def)
  ultimately show ?case using Cons.IH [of 9] Cons.prems(2) by (simp add: Let_def split_beta)
qed simp

lemma stops_iff [simp]:
  "\<not> stops 1" "\<not> stops 6" "\<not> stops 9" "\<not> stops 10" "\<not> stops 11" "stops 4" "stops 5" "stops 7" "stops 8"
  "stops 12" "stops 13" "\<not> stops 3"
  by (simp_all add: stops_def)

lemma walk_packet:
  assumes "s = 6 \<or> s = 9"
  shows "fst (walk s xs) \<in> {6, 9, 10, 11, 12, 13} \<and>
    (fst (walk s xs) = 12 \<longleftrightarrow> packet_length xs \<noteq> None) \<and>
    (\<forall>n. packet_length xs = Some n \<longrightarrow> snd (walk s xs) + 1 = n)"
proof -
  let ?body = "takeWhile (\<lambda>c. c \<noteq> CHR ''$'' \<and> c \<noteq> CHR ''#'') xs"
  let ?rest = "dropWhile (\<lambda>c. c \<noteq> CHR ''$'' \<and> c \<noteq> CHR ''#'') xs"
  let ?s = "if ?body = [] then s else 9"
  have s: "?s = 6 \<or> ?s = 9" using assms by auto
  have w: "walk s xs = (let (t, k) = walk ?s ?rest in (t, length ?body + k))"
    using walk_body [OF assms, of ?body ?rest] set_takeWhileD [of _ _ xs] by fastforce
  have d: "drop (length ?body) xs = ?rest" by (simp add: dropWhile_eq_drop)
  have pl: "packet_length xs =
      (if 3 \<le> length ?rest \<and> ?rest ! 0 = CHR ''#'' \<and> is_hex (?rest ! 1) \<and> is_hex (?rest ! 2)
       then Some (length ?body + 4) else None)"
    by (simp only: packet_length.simps Let_def d)
  have first: "?rest = [] \<or> hd ?rest = CHR ''$'' \<or> hd ?rest = CHR ''#''"
    using hd_dropWhile [of "\<lambda>c. c \<noteq> CHR ''$'' \<and> c \<noteq> CHR ''#''" xs] by auto
  have cl: "rdelta ?s (CHR ''$'') = 13" "rdelta ?s (CHR ''#'') = 10"
    using rdelta_body [OF s] by simp_all
  note digit = rdelta_digit
  show ?thesis
  proof (cases ?rest)
    case Nil
    have "fst (walk s xs) = ?s" unfolding w Nil by simp
    moreover have "packet_length xs = None" unfolding pl Nil by simp
    ultimately show ?thesis using s by auto
  next
    case (Cons a r1)
    then consider "a = CHR ''$''" | "a = CHR ''#''" using first by auto
    then show ?thesis
    proof cases
      case 1
      then show ?thesis using Cons w cl by (simp add: pl)
    next
      case 2
      have ww: "walk s xs = (let (t, k) = walk 10 r1 in (t, length ?body + Suc k))"
        using w Cons 2 cl by (simp add: Let_def split_beta)
      show ?thesis
      proof (cases r1)
        case Nil
        then show ?thesis using ww Cons 2 by (simp add: pl)
      next
        case r1: (Cons b r2)
        show ?thesis
        proof (cases r2)
          case Nil
          then show ?thesis using ww Cons 2 r1 digit [of 10 b] by (simp add: pl)
        next
          case (Cons c r3)
          then show ?thesis
            using ww \<open>?rest = a # r1\<close> 2 r1 digit [of 10 b] digit [of 11 c]
            by (simp add: pl)
        qed
      qed
    qed
  qed
qed

lemma next_token_rules: "next_token xs = rule_token xs"
proof (cases xs)
  case (Cons x rest)
  have c: "x = CHR ''$'' \<Longrightarrow> rdelta 1 x = 6" by (simp add: rdelta_def delta_def char_class_def newline_def)
  show ?thesis
  proof (cases "x = CHR ''$''")
    case True
    then show ?thesis
      using Cons c walk_packet [of 6 rest]
      by (cases "packet_length rest") (auto simp: next_token_def rule_token_def newline_def yy_accept_def split_beta Let_def)
  next
    case False
    then have "rdelta 1 x = (if x = CHR ''+'' then 7 else if x = CHR ''-'' then 8 else if x = newline then 5 else 4)"
      using is_hex_plain [of x] by (auto simp: rdelta_def delta_def char_class_def newline_def)
    then show ?thesis
      using False Cons by (auto simp: next_token_def rule_token_def yy_accept_def Let_def newline_def)
  qed
qed (simp add: next_token_def rule_token_def)

end
