(* ===== verification/Scanner_Loops.thy ===== *)
theory Scanner_Loops
  imports Scanner_Automaton
begin

text \<open>
  The two loops of the generated scanner, over the characters of the buffer and again over those of
  a token that is continued, on tokens that are not complete yet.
\<close>

section \<open>Tokens that are not complete\<close>

text \<open>
  \<open>pending t s\<close>: the scanner has read \<open>t\<close>, is in state \<open>s\<close> and reads on. After a null character of the
  input it does so although the token is complete.
\<close>

definition pending :: "string \<Rightarrow> nat \<Rightarrow> bool" where
  "pending t s \<longleftrightarrow> t = [NUL] \<and> s = 4 \<or> walk 1 t = (s, length t) \<and> \<not> stops s"

definition last_ok :: "nat \<Rightarrow> string \<Rightarrow> nat \<times> nat \<Rightarrow> bool" where
  "last_ok bp t last' \<longleftrightarrow> (2 \<le> length t \<longrightarrow> last' = (6, bp + 1))"

lemma stops_Suc_0 [simp]: "\<not> stops (Suc 0)"
  by (simp add: stops_def)

lemma char_class_pos: "0 < char_class c \<longleftrightarrow> c \<noteq> NUL"
  by (metis char_class_0 neq0_conv)

lemma pending_Nil [simp]: "pending [] s \<longleftrightarrow> s = 1"
  by (auto simp: pending_def)

lemma last_ok_short [simp]: "last_ok bp [] l" "last_ok bp [x] l"
  by (simp_all add: last_ok_def)

lemma rdelta_1: "rdelta 1 x \<in> {4, 5, 6, 7, 8}"
  by (simp add: rdelta_def delta_def char_class_def)

lemma rdelta_1_NUL: "rdelta 1 NUL = 4" "rdelta (Suc 0) NUL = 4"
  by (simp_all add: rdelta_def delta_def)

lemma rdelta_4: "rdelta 4 x = 13"
  by (simp add: rdelta_def delta_def char_class_pos)

lemma walk_1_single: "walk 1 [x] = (rdelta 1 x, 1)"
  by (simp add: Let_def)

lemma walk_prefix: "\<not> stops (fst (walk 1 (t @ u))) \<Longrightarrow> \<not> stops (fst (walk 1 t))"
  using walk_append_stop [of 1 t u] by (cases "t = []") auto

lemma walk_extend:
  "\<not> stops (fst (walk 1 t)) \<Longrightarrow> walk 1 (t @ [x]) = (rdelta (fst (walk 1 t)) x, Suc (length t))"
  by (rule walk_snoc) simp_all

lemma pending_states:
  assumes "pending t s"
  shows "s \<in> states" and "t = [] \<Longrightarrow> s = 1" and "length t = 1 \<Longrightarrow> s \<in> {4, 6}"
    and "2 \<le> length t \<Longrightarrow> s \<in> {9, 10, 11}"
proof -
  have walked: "(t = [] \<longrightarrow> s = 1) \<and> (length t = 1 \<longrightarrow> s = 6) \<and> (2 \<le> length t \<longrightarrow> s \<in> {9, 10, 11})"
    if "walk 1 t = (s, length t)" "\<not> stops s" for s
    using that
  proof (induction t arbitrary: s rule: rev_induct)
    case (snoc x t)
    obtain s0 where s0: "walk 1 t = (s0, length t)" "\<not> stops s0"
      using walk_prefix [of t "[x]"] walk_nonstop [of 1 t] snoc.prems
      by (cases "walk 1 t") auto
    have s: "s = rdelta s0 x"
      using walk_extend [of t x] s0 snoc.prems by simp
    note IH = snoc.IH [OF s0]
    show ?case
    proof (cases "t = []")
      case True
      then show ?thesis using IH s rdelta_1 [of x] snoc.prems(2) by auto
    next
      case False
      then consider "length t = 1" | "2 \<le> length t" by (cases t; cases "tl t") auto
      then have "s0 \<in> {6, 9, 10, 11}" using IH by cases auto
      then have "rdelta s0 x \<in> {9, 10, 11, 12, 13}"
        using rdelta_body [of s0 x] rdelta_digit [of s0 x] by (auto split: if_splits)
      then show ?thesis using s snoc.prems(2) False by auto
    qed
  qed simp
  have cases: "t = [NUL] \<and> s = 4 \<or>
      ((t = [] \<longrightarrow> s = 1) \<and> (length t = 1 \<longrightarrow> s = 6) \<and> (2 \<le> length t \<longrightarrow> s \<in> {9, 10, 11}))"
    using assms walked unfolding pending_def by blast
  then show "t = [] \<Longrightarrow> s = 1" "length t = 1 \<Longrightarrow> s \<in> {4, 6}" "2 \<le> length t \<Longrightarrow> s \<in> {9, 10, 11}"
    by auto
  with cases show "s \<in> states"
    by (cases t; cases "tl t") (auto simp: states_def)
qed

lemma accept_values:
  "yy_accept ! 1 = 0" "yy_accept ! Suc 0 = 0" "yy_accept ! 3 = 6" "yy_accept ! 4 = 4" "yy_accept ! 5 = 5" "yy_accept ! 6 = 4"
  "yy_accept ! 7 = 1" "yy_accept ! 8 = 2" "yy_accept ! 9 = 0" "yy_accept ! 10 = 0"
  "yy_accept ! 11 = 0" "yy_accept ! 12 = 3" "yy_accept ! 13 = 0"
  by (simp_all add: yy_accept_def)

lemma remember_pending:
  assumes "pending t s" "last_ok bp t l"
  shows "\<exists>l'. remember s (bp + length t) l = Inr l' \<and>
    (t \<noteq> [] \<longrightarrow> l' = (if s = 4 then 4 else 6, bp + 1))"
proof -
  note st = pending_states [OF assms(1)]
  consider "t = []" | "length t = 1" | "2 \<le> length t" by (cases t; cases "tl t") auto
  then show ?thesis
  proof cases
    case 1
    then show ?thesis using st(1) by (simp add: remember_def accept_states)
  next
    case 2
    then show ?thesis using st(1) st(3) by (auto simp: remember_def accept_states accept_values)
  next
    case 3
    then show ?thesis using st(1) st(4) assms(2)
      by (auto simp: remember_def accept_states accept_values last_ok_def)
  qed
qed

lemma pending_token:
  assumes "pending t s" "t \<noteq> []"
  shows "next_token t = (4, 1)"
proof -
  consider "t = [NUL]" | "walk 1 t = (s, length t)" "\<not> stops s" using assms(1) by (auto simp: pending_def)
  then show ?thesis
    by cases (use assms(2) in \<open>auto simp: next_token_def rdelta_1_NUL accept_values\<close>)
qed

lemma pending_hd:
  assumes "pending (t @ x # u) s1" "pending t s"
  shows "pending (t @ [x]) (rdelta s x)"
proof (cases "t @ x # u = [NUL]")
  case True
  then have "t = []" "x = NUL" by (cases t; simp)+
  then show ?thesis using pending_states(2) [OF assms(2)] rdelta_1_NUL by (simp add: pending_def)
next
  case False
  then have ns: "\<not> stops (fst (walk 1 (t @ [x])))"
    using assms(1) walk_prefix [of "t @ [x]" u] by (auto simp: pending_def)
  then have nt: "\<not> stops (fst (walk 1 t))" by (rule walk_prefix)
  have "t \<noteq> [NUL]" using nt by (auto simp: rdelta_1_NUL)
  then have s: "fst (walk 1 t) = s" using assms(2) by (auto simp: pending_def)
  have "walk 1 (t @ [x]) = (rdelta s x, length (t @ [x]))"
    using walk_extend [OF nt, of x] s by simp
  with ns show ?thesis unfolding pending_def by simp
qed

section \<open>The loops\<close>

lemma match_loop_step:
  assumes "s \<in> states" "remember s cp l = Inr l'"
  shows "match_loop (ch # chs) s cp l =
    (let s' = delta s (char_class ch) in
     if stops s' then Some (Inr (s', cp + 1, l')) else match_loop chs s' (cp + 1) l')"
proof -
  have s': "delta s (char_class ch) \<in> states" using assms(1) by (rule delta_states)
  obtain b where b: "load yy_base (delta s (char_class ch)) = Inr b"
    "b \<noteq> 14 \<longleftrightarrow> \<not> stops (delta s (char_class ch))"
    using base_stops [OF s'] by blast
  show ?thesis
    using b assms(2) yy_next_delta [OF assms(1) char_class_less [of ch]]
    by (simp add: load_yy_ec Let_def)
qed

text \<open>An end-of-buffer character, or a null character of the input, ends the loop.\<close>

lemma match_loop_NUL:
  assumes "s \<in> states" "s \<noteq> 3" "remember s cp l = Inr l'"
  shows "match_loop (NUL # z # zs) s cp l = Some (Inr (13, cp + 2, (3, cp + 1)))"
proof -
  have "delta s (char_class NUL) = 3" using assms(2) by (simp add: delta_def char_class_def)
  moreover have "delta 3 (char_class z) = 13" by (simp add: delta_def)
  moreover have "3 \<in> states" by (simp add: states_def)
  moreover have "remember 3 (cp + 1) l' = Inr (3, cp + 1)"
    using \<open>3 \<in> states\<close> by (simp add: remember_def accept_states accept_values)
  ultimately show ?thesis
    using match_loop_step [OF assms(1,3), of NUL "z # zs"] match_loop_step [of 3 "cp + 1" l' "(3, cp + 1)" z zs]
    by simp
qed

text \<open>What \<^verbatim>\<open>yy_find_action\<close> makes of the result of the loop.\<close>

definition chosen :: "nat \<Rightarrow> nat \<times> nat \<times> nat \<times> nat \<Rightarrow> nat \<times> nat \<Rightarrow> bool" where
  "chosen bp r token \<longleftrightarrow>
     (case r of (s, cp, ls, lc) \<Rightarrow>
        s \<in> states \<and>
        (let (s, cp) = (if yy_accept ! s = 0 then (ls, lc) else (s, cp)) in
         s \<in> states \<and> yy_accept ! s \<noteq> 6 \<and> cp = bp + snd token \<and> yy_accept ! s = fst token))"

lemma next_token_stop:
  assumes "walk 1 t = (s, length t)" "stops s" "t \<noteq> []"
  shows "next_token (t @ ys) = (if s = 13 then (4, 1) else (yy_accept ! s, length t))"
proof -
  have "walk 1 (t @ ys) = (s, length t)" using walk_append_stop [of 1 t ys] assms by simp
  then show ?thesis using assms(2,3) by (auto simp: next_token_def stops_def)
qed

lemma match_loop_pending:
  assumes "pending t s" "last_ok bp t l" "NUL \<notin> set u"
  shows "(\<exists>r. match_loop (u @ NUL # z # zs) s (bp + length t) l = Some (Inr r) \<and>
            (\<forall>ys. chosen bp r (next_token (t @ u @ ys)))) \<or>
         (\<exists>s1. match_loop (u @ NUL # z # zs) s (bp + length t) l =
            Some (Inr (13, bp + length (t @ u) + 2, (3, bp + length (t @ u) + 1))) \<and> pending (t @ u) s1)"
  using assms
proof (induction u arbitrary: t s l)
  case Nil
  then obtain l' where "remember s (bp + length t) l = Inr l'" using remember_pending by blast
  moreover have "s \<noteq> 3" using pending_states [OF Nil.prems(1)] by (cases t; cases "tl t") auto
  ultimately show ?case
    using match_loop_NUL [OF pending_states(1) [OF Nil.prems(1)]] Nil.prems(1) by fastforce
next
  case (Cons x u)
  note st = pending_states [OF Cons.prems(1)]
  obtain l' where l': "remember s (bp + length t) l = Inr l'"
      "t \<noteq> [] \<longrightarrow> l' = (if s = 4 then 4 else 6, bp + 1)"
    using remember_pending [OF Cons.prems(1,2)] by blast
  have x: "delta s (char_class x) = rdelta s x" using Cons.prems(3) by (auto simp: rdelta_def)
  note step = match_loop_step [OF st(1) l'(1), of x "u @ NUL # z # zs", unfolded x]
  show ?case
  proof (cases "stops (rdelta s x)")
    case True
    have "chosen bp (rdelta s x, bp + length t + 1, l') (next_token (t @ (x # u) @ ys))" for ys
    proof (cases "t = [NUL] \<and> s = 4")
      case True
      then show ?thesis
        using l' next_token_stop [of t 4 "x # u @ ys"]
        by (simp add: chosen_def rdelta_4 accept_values states_def rdelta_1_NUL)
    next
      case False
      then have w: "walk 1 t = (s, length t)" "\<not> stops s" using Cons.prems(1) by (auto simp: pending_def)
      have "next_token (t @ (x # u) @ ys) =
          (if rdelta s x = 13 then (4, 1) else (yy_accept ! rdelta s x, length t + 1))"
        using next_token_stop [of "t @ [x]" "rdelta s x" "u @ ys"] walk_extend [of t x] w True by simp
      moreover have "t \<noteq> []" if "rdelta s x = 13"
        using that st(2) rdelta_1 [of x] by auto
      moreover have "s \<noteq> 4" using w(2) by auto
      moreover have "rdelta s x \<noteq> 13 \<Longrightarrow> yy_accept ! rdelta s x \<notin> {0, 6}"
        using True by (auto simp: stops_def accept_values)
      ultimately show ?thesis
        using l' rdelta_states [OF st(1), of x]
        by (cases "rdelta s x = 13") (simp_all add: chosen_def accept_values states_def split_beta)
    qed
    with step True show ?thesis by auto
  next
    case False
    have w: "walk 1 t = (s, length t)" "\<not> stops s"
      using Cons.prems(1) False by (auto simp: pending_def rdelta_4)
    have p: "pending (t @ [x]) (rdelta s x)"
      using walk_extend [of t x] w False by (simp add: pending_def)
    have "last_ok bp (t @ [x]) l'" using l'(2) w by (cases t) (auto simp: last_ok_def)
    from Cons.IH [OF p this] Cons.prems(3) show ?thesis
      using step False by (simp add: Let_def)
  qed
qed

lemma previous_loop_pending:
  assumes "pending (t @ u) s1" "pending t s" "last_ok bp t l"
  shows "\<exists>l'. previous_loop u s (bp + length t) l = Some (Inr (s1, l')) \<and> last_ok bp (t @ u) l'"
  using assms
proof (induction u arbitrary: t s l)
  case Nil
  then have "s1 = s" by (auto simp: pending_def rdelta_1_NUL)
  with Nil show ?case by simp
next
  case (Cons x u)
  obtain l' where l': "remember s (bp + length t) l = Inr l'"
      "t \<noteq> [] \<longrightarrow> l' = (if s = 4 then 4 else 6, bp + 1)"
    using remember_pending [OF Cons.prems(2,3)] by blast
  have p: "pending (t @ [x]) (rdelta s x)" by (rule pending_hd [OF Cons.prems(1,2)])
  have "s \<noteq> 4" if "t \<noteq> []"
    using pending_states(3-4) [OF p] that rdelta_4 [of x] by (cases t; cases "tl t") auto
  then have lo: "last_ok bp (t @ [x]) l'" using l'(2) by (cases t) (auto simp: last_ok_def)
  have st: "s \<in> states" by (rule pending_states(1) [OF Cons.prems(2)])
  have "yy_next s (if x = NUL then 1 else char_class x) = Some (Inr (rdelta s x))"
    using yy_next_delta [OF st, of "if x = NUL then 1 else char_class x"] char_class_less [of x]
    by (simp add: rdelta_def)
  then show ?case
    using Cons.IH [OF _ p lo] Cons.prems(1) l'(1) by (auto simp: load_yy_ec split: if_splits)
qed

end
