(* ===== verification/Scanner_Input.thy ===== *)
theory Scanner_Input
  imports Scanner_Loops
begin

text \<open>
  The scanner and its input buffer. A token may be torn apart by the reads: the scanner then meets
  the end of its buffer, moves what it has of the token to the front, reads more and goes on from the
  state it was in. A null character of the input looks like the end of the buffer and is told apart
  by its position. The facts below follow a token through these steps; the result is that the tokens
  do not depend on how the input arrives.
\<close>

section \<open>The buffer\<close>

text \<open>
  \<open>window g bp w\<close>: from \<open>bp\<close> on the buffer holds \<open>w\<close> and the two end-of-buffer characters, and it can
  be filled again if there is more input. The stream is then \<open>w @ unread g\<close>.
\<close>

definition window :: "yyguts \<Rightarrow> nat \<Rightarrow> string \<Rightarrow> bool" where
  "window g bp w \<longleftrightarrow>
     (\<exists>pre. yy_ch_buf g = pre @ w @ [NUL, NUL] \<and> length pre = bp) \<and> yy_n_chars g = bp + length w \<and>
     (if yy_buffer_status g = YY_BUFFER_EOF_PENDING then unread g = [] else 0 < yy_buf_size g) \<and>
     (yy_buffer_status g = YY_BUFFER_NEW \<longrightarrow> b_n_chars g = yy_n_chars g) \<and> yy_fill_buffer g"

lemma windowE:
  assumes "window g bp w"
  obtains pre where "yy_ch_buf g = pre @ w @ [NUL, NUL]" "length pre = bp" "yy_n_chars g = bp + length w"
  using assms unfolding window_def by blast

lemma window_last [simp]:
  "window (g\<lparr>yy_last_accepting_state := ls, yy_last_accepting_cpos := lc\<rparr>) bp w = window g bp w"
  "window (g\<lparr>yy_c_buf_p := n\<rparr>) bp w = window g bp w"
  "window (g\<lparr>yytext_ptr := n\<rparr>) bp w = window g bp w"
  "window (g\<lparr>yy_hold_char := c\<rparr>) bp w = window g bp w"
  by (simp_all add: window_def)

lemma window_shift: "window g bp (a @ w) \<Longrightarrow> window g (bp + length a) w"
  unfolding window_def by (auto intro: exI [of _ "_ @ a"])

text \<open>The state between two tokens: the character the last one has ended at is still to be restored.\<close>

definition restored :: "yyguts \<Rightarrow> yyguts" where
  "restored g = g\<lparr>yy_ch_buf := (yy_ch_buf g)[yy_c_buf_p g := yy_hold_char g]\<rparr>"

definition at_token :: "string \<Rightarrow> yyguts \<Rightarrow> bool" where
  "at_token xs g \<longleftrightarrow> (\<exists>w. window (restored g) (yy_c_buf_p g) w \<and> xs = w @ unread g)"

lemma unread_restored [simp]: "unread (restored g) = unread g"
  by (simp add: restored_def)

lemma do_before_action_restored:
  assumes "cp < length (yy_ch_buf g)"
  shows "\<exists>g'. do_before_action bp cp g = Inr g' \<and> restored g' = g\<lparr>yytext_ptr := bp, yy_hold_char := yy_ch_buf g ! cp, yy_c_buf_p := cp\<rparr> \<and>
    yy_ch_buf g' = (yy_ch_buf g)[cp := NUL] \<and> yytext_ptr g' = bp \<and> yy_c_buf_p g' = cp \<and>
    unread g' = unread g \<and> yy_hold_char g' = yy_ch_buf g ! cp"
  using assms by (simp add: do_before_action_def load_def restored_def)

text \<open>The end of a token of \<open>n\<close> characters.\<close>

lemma do_before_action_token:
  assumes "window g bp w" "n \<le> length w"
  shows "\<exists>g' rest. do_before_action bp (bp + n) g = Inr g' \<and> at_token (drop n (w @ unread g)) g' \<and>
    drop (yytext_ptr g') (yy_ch_buf g') = take n (w @ unread g) @ NUL # rest"
proof -
  obtain pre where pre: "yy_ch_buf g = pre @ w @ [NUL, NUL]" "length pre = bp"
    by (rule windowE [OF assms(1)]) blast
  have "bp + n < length (yy_ch_buf g)" using pre assms(2) by simp
  then obtain g' where g': "do_before_action bp (bp + n) g = Inr g'"
    "restored g' = g\<lparr>yytext_ptr := bp, yy_hold_char := yy_ch_buf g ! (bp + n), yy_c_buf_p := bp + n\<rparr>"
    "yy_ch_buf g' = (yy_ch_buf g)[bp + n := NUL]" "yytext_ptr g' = bp" "yy_c_buf_p g' = bp + n"
    "unread g' = unread g"
    using do_before_action_restored by blast
  have "window (restored g') (yy_c_buf_p g') (drop n w)"
    using window_shift [of g bp "take n w" "drop n w"] assms g'(2,5) by simp
  moreover have "drop n (w @ unread g) = drop n w @ unread g'" using assms(2) g'(6) by simp
  ultimately have "at_token (drop n (w @ unread g)) g'" unfolding at_token_def by metis
  moreover have "drop (yytext_ptr g') (yy_ch_buf g') = (w @ [NUL, NUL])[n := NUL]"
    using g'(3,4) pre by (simp add: list_update_append)
  then have "drop (yytext_ptr g') (yy_ch_buf g') = take n (w @ unread g) @ NUL # drop (Suc n) (w @ [NUL, NUL])"
    using assms(2) by (simp add: upd_conv_take_nth_drop)
  ultimately show ?thesis using g'(1) by blast
qed

text \<open>The result of the scan of a token from the stream \<open>xs\<close>.\<close>

definition scanned_ok :: "string \<Rightarrow> nat \<times> nat \<times> yyguts \<Rightarrow> bool" where
  "scanned_ok xs r \<longleftrightarrow>
     (case r of (act, n, g) \<Rightarrow>
        (act, n) = next_token xs \<and> (\<exists>rest. drop (yytext_ptr g) (yy_ch_buf g) = take n xs @ NUL # rest) \<and>
        (act \<noteq> YY_STATE_EOF \<longrightarrow> at_token (drop n xs) g))"

lemma next_token_le: "snd (next_token xs) \<le> length xs"
  using walk_le [of 1 xs] by (cases xs) (auto simp: next_token_def split_beta Let_def)

lemma next_token_act: "fst (next_token xs) \<noteq> 0"
  by (cases "walk 1 xs") (auto simp: next_token_def accept_values)

lemma find_action_chosen:
  assumes "chosen bp (s, cp, yy_last_accepting_state g, yy_last_accepting_cpos g) (next_token (w @ unread g))"
    and "window g bp w" "snd (next_token (w @ unread g)) \<le> length w"
  shows "\<exists>act n g'. find_action bp s cp g = Some (Inr (Rule act n, g')) \<and> scanned_ok (w @ unread g) (act, n, g')"
proof -
  let ?t = "next_token (w @ unread g)"
  obtain g' rest where g': "do_before_action bp (bp + snd ?t) g = Inr g'"
    "at_token (drop (snd ?t) (w @ unread g)) g'"
    "drop (yytext_ptr g') (yy_ch_buf g') = take (snd ?t) (w @ unread g) @ NUL # rest"
    using do_before_action_token [OF assms(2,3)] by blast
  have "find_action bp s cp g = Some (Inr (Rule (fst ?t) (snd ?t), g'))"
    using assms(1) g'(1) next_token_act [of "w @ unread g"]
    by (auto simp: find_action_def chosen_def accept_states Let_def split: if_splits)
  moreover have "scanned_ok (w @ unread g) (fst ?t, snd ?t, g')"
    using g'(2,3) by (auto simp: scanned_ok_def)
  ultimately show ?thesis by blast
qed

lemma pending_chosen:
  assumes "pending t s" "t \<noteq> []" "last_ok bp t l \<or> l = (6, bp + 1)"
  shows "chosen bp (s, bp + length t, l) (4, 1)"
proof -
  note st = pending_states [OF assms(1)]
  consider "length t = 1" | "2 \<le> length t" using assms(2) by (cases t; cases "tl t") auto
  then show ?thesis
  proof cases
    case 1
    then show ?thesis using st(1,3) by (auto simp: chosen_def accept_values)
  next
    case 2
    then have "s \<in> {9, 10, 11}" "l = (6, bp + 1)" using st(4) assms(3) by (auto simp: last_ok_def)
    then show ?thesis using st(1) by (auto simp: chosen_def accept_values states_def)
  qed
qed

section \<open>The end of the buffer\<close>

definition lasts :: "yyguts \<Rightarrow> nat \<times> nat" where
  "lasts g = (yy_last_accepting_state g, yy_last_accepting_cpos g)"

lemma get_previous_state_pending:
  assumes "window g (yytext_ptr g) (y @ v)" "yy_c_buf_p g = yytext_ptr g + length y" "pending y s1"
  shows "\<exists>ls lc. yy_get_previous_state g =
      Some (Inr (s1, g\<lparr>yy_last_accepting_state := ls, yy_last_accepting_cpos := lc\<rparr>)) \<and>
    last_ok (yytext_ptr g) y (ls, lc)"
proof -
  obtain pre where pre: "yy_ch_buf g = pre @ (y @ v) @ [NUL, NUL]" "length pre = yytext_ptr g"
    by (rule windowE [OF assms(1)]) blast
  have "drop (yytext_ptr g) (take (yy_c_buf_p g) (yy_ch_buf g)) = y"
    using pre assms(2) by simp
  moreover have "yy_c_buf_p g \<le> length (yy_ch_buf g)" using pre assms(2) by simp
  moreover obtain ls lc where "previous_loop y 1 (yytext_ptr g) (lasts g) = Some (Inr (s1, ls, lc))"
    "last_ok (yytext_ptr g) y (ls, lc)"
    using previous_loop_pending [of "[]" y s1 1 "yytext_ptr g" "lasts g"] assms(3) by auto
  ultimately show ?thesis by (auto simp: yy_get_previous_state_def lasts_def)
qed

lemma try_NUL_trans_pending:
  assumes "pending y s1" "last_ok bp y (lasts g)" "yy_c_buf_p g = bp + length y"
  shows "\<exists>ls lc. yy_try_NUL_trans s1 g =
      Some (Inr (if rdelta s1 NUL = 13 then 0 else rdelta s1 NUL,
                 g\<lparr>yy_last_accepting_state := ls, yy_last_accepting_cpos := lc\<rparr>)) \<and>
    (y \<noteq> [] \<longrightarrow> (ls, lc) = (if s1 = 4 then 4 else 6, bp + 1))"
proof -
  obtain ls lc where "remember s1 (bp + length y) (lasts g) = Inr (ls, lc)"
    "y \<noteq> [] \<longrightarrow> (ls, lc) = (if s1 = 4 then 4 else 6, bp + 1)"
    using remember_pending [OF assms(1,2)] by (metis surj_pair)
  then show ?thesis
    using yy_next_delta [OF pending_states(1) [OF assms(1)], of 1] assms(3)
    by (intro exI [of _ ls] exI [of _ lc]) (simp add: yy_try_NUL_trans_def lasts_def rdelta_def)
qed

text \<open>
  The states of the scan of a token from the stream \<open>xs\<close>: reading on after \<open>t\<close>, or at the action of
  the token.
\<close>

definition matching :: "string \<Rightarrow> string \<Rightarrow> control \<Rightarrow> yyguts \<Rightarrow> bool" where
  "matching xs t c g \<longleftrightarrow>
     (\<exists>bp s v. c = Match bp s (bp + length t) \<and> window g bp (t @ v) \<and> xs = t @ v @ unread g \<and>
        pending t s \<and> last_ok bp t (lasts g))"

definition deciding :: "string \<Rightarrow> control \<Rightarrow> yyguts \<Rightarrow> bool" where
  "deciding xs c g \<longleftrightarrow>
     (\<exists>bp s cp w. c = Find_Action bp s cp \<and> window g bp w \<and> xs = w @ unread g \<and>
        chosen bp (s, cp, lasts g) (next_token xs) \<and> snd (next_token xs) \<le> length w)"

fun advanced :: "string \<Rightarrow> nat \<Rightarrow> scanned \<times> yyguts \<Rightarrow> bool" where
  "advanced xs k (Rule act n, g) \<longleftrightarrow> scanned_ok xs (act, n, g)"
| "advanced xs k (Jump c, g) \<longleftrightarrow>
     deciding xs c g \<or> (\<exists>t. matching xs t c g \<and> length xs - length t + length (unread g) < k)"

lemma next_token_jam:
  assumes "pending y s1" "rdelta s1 NUL = 13"
  shows "next_token (y @ NUL # v) = (4, 1)" and "y \<noteq> []"
proof -
  show y: "y \<noteq> []" using assms pending_states(2) [OF assms(1)] by (auto simp: rdelta_1_NUL)
  consider "y = [NUL]" | "walk 1 y = (s1, length y)" "\<not> stops s1" using assms(1) by (auto simp: pending_def)
  then show "next_token (y @ NUL # v) = (4, 1)"
  proof cases
    case 1
    then show ?thesis using next_token_stop [of "[NUL]" 4 "NUL # v"] by (simp add: rdelta_1_NUL accept_values)
  next
    case 2
    then show ?thesis using walk_extend [of y NUL] next_token_stop [of "y @ [NUL]" 13 v] assms(2) by simp
  qed
qed

lemma pending_NUL:
  assumes "pending y s1" "rdelta s1 NUL \<noteq> 13"
  shows "pending (y @ [NUL]) (rdelta s1 NUL)"
proof (cases "y = []")
  case True
  then show ?thesis using pending_states(2) [OF assms(1)] rdelta_1_NUL by (simp add: pending_def)
next
  case False
  have s1: "walk 1 y = (s1, length y)" "\<not> stops s1"
    using assms by (auto simp: pending_def rdelta_4)
  have "s1 \<in> {6, 9, 10, 11}"
    using pending_states [OF assms(1)] False s1(2) by (cases y; cases "tl y") auto
  then have "rdelta s1 NUL = 9" using assms(2) by (auto simp: rdelta_def delta_def)
  then show ?thesis using walk_extend [of y NUL] s1 by (simp add: pending_def)
qed

text \<open>A null character of the input.\<close>

lemma end_of_buffer_NUL:
  assumes "window g bp (y @ NUL # v)" "pending y s1" "yytext_ptr g = bp" "yy_c_buf_p g = bp + length y + 1"
    and "xs = y @ NUL # v @ unread g"
  defines "g0 \<equiv> g\<lparr>yy_c_buf_p := bp + length y\<rparr>"
  shows "\<exists>r. (bindO (yy_get_previous_state g0) (\<lambda>(s, g).
         bindO (yy_try_NUL_trans s g) (\<lambda>(next_state, g).
         let bp = yytext_ptr g in
         if next_state \<noteq> 0 then
           (let g = g\<lparr>yy_c_buf_p := yy_c_buf_p g + 1\<rparr>
            in Some (Inr (Jump (Match bp next_state (yy_c_buf_p g)), g)))
         else Some (Inr (Jump (Find_Action bp s (yy_c_buf_p g)), g))))) = Some (Inr r) \<and>
    advanced xs (length xs - length y + length (unread g)) r"
proof -
  have "window g0 (yytext_ptr g0) (y @ NUL # v)" "yy_c_buf_p g0 = yytext_ptr g0 + length y" "yytext_ptr g0 = bp"
    using assms by simp_all
  then obtain ls lc where p: "yy_get_previous_state g0 =
      Some (Inr (s1, g0\<lparr>yy_last_accepting_state := ls, yy_last_accepting_cpos := lc\<rparr>))" "last_ok bp y (ls, lc)"
    using get_previous_state_pending [OF _ _ assms(2)] by metis
  let ?g1 = "g0\<lparr>yy_last_accepting_state := ls, yy_last_accepting_cpos := lc\<rparr>"
  obtain ls2 lc2 where t: "yy_try_NUL_trans s1 ?g1 =
      Some (Inr (if rdelta s1 NUL = 13 then 0 else rdelta s1 NUL,
                 ?g1\<lparr>yy_last_accepting_state := ls2, yy_last_accepting_cpos := lc2\<rparr>))"
      "y \<noteq> [] \<longrightarrow> (ls2, lc2) = (if s1 = 4 then 4 else 6, bp + 1)"
    using try_NUL_trans_pending [OF assms(2), of bp ?g1] p(2) by (auto simp: lasts_def g0_def)
  let ?g2 = "?g1\<lparr>yy_last_accepting_state := ls2, yy_last_accepting_cpos := lc2\<rparr>"
  have w: "window ?g2 bp (y @ NUL # v)" using assms(1) by (simp add: g0_def)
  show ?thesis
  proof (cases "rdelta s1 NUL = 13")
    case True
    note jam = next_token_jam [OF assms(2) True]
    have "s1 = 4 \<Longrightarrow> length y = 1" using assms(2) by (auto simp: pending_def)
    then have "chosen bp (s1, bp + length y, lasts ?g2) (4, 1)"
      using pending_chosen [OF assms(2) jam(2), of bp "lasts ?g2"] t(2) jam(2)
      by (cases "s1 = 4") (auto simp: lasts_def chosen_def accept_values states_def pending_def)
    then have "deciding xs (Find_Action bp s1 (bp + length y)) ?g2"
      unfolding deciding_def using w jam(1) [of "v @ unread g"] assms(5)
      by (intro exI [of _ bp] exI [of _ s1] exI [of _ "bp + length y"] exI [of _ "y @ NUL # v"]) (simp add: g0_def)
    then show ?thesis using p(1) t(1) True assms(3) by (simp add: g0_def)
  next
    case False
    let ?g3 = "?g2\<lparr>yy_c_buf_p := bp + length y + 1\<rparr>"
    have "pending (y @ [NUL]) (rdelta s1 NUL)" by (rule pending_NUL [OF assms(2) False])
    moreover have "last_ok bp (y @ [NUL]) (lasts ?g3)"
      using t(2) False rdelta_4 by (cases y) (auto simp: last_ok_def lasts_def)
    ultimately have "matching xs (y @ [NUL]) (Match bp (rdelta s1 NUL) (bp + length y + 1)) ?g3"
      unfolding matching_def using w assms(5)
      by (intro exI [of _ bp] exI [of _ "rdelta s1 NUL"] exI [of _ v]) (simp add: g0_def)
    moreover have "rdelta s1 NUL \<noteq> 0"
      using rdelta_states [OF pending_states(1) [OF assms(2)], of NUL] by (auto simp: states_def)
    moreover have "length xs - length (y @ [NUL]) + length (unread ?g3) < length xs - length y + length (unread g)"
      using assms(5) by (simp add: g0_def)
    ultimately show ?thesis using p(1) t(1) False assms(3) by (auto simp: g0_def)
  qed
qed

lemma grow_gt: "0 < size' \<Longrightarrow> n + 1 < grow size' n"
proof (induction size' n rule: grow.induct)
  case (1 size' n)
  then show ?case by (subst grow.simps) auto
qed

text \<open>A read asks for at least one character, and finds none only at the end of the input.\<close>

lemma read_input_parts:
  assumes "read_input m g = (chars, g')" "0 < m"
  shows "unread g = chars @ unread g'" and "chars = [] \<Longrightarrow> unread g = []"
    and "\<exists>u r. g' = g\<lparr>unread := u, reads := r\<rparr>"
  using assms by (auto simp: read_input_def Let_def split: list.splits)

text \<open>
  The refill of the buffer keeps the characters of the token that is being scanned: the window
  starts with it and the stream is the same.
\<close>

lemma get_next_buffer_window:
  assumes "window g bp y" "yytext_ptr g = bp" "yy_c_buf_p g = bp + length y + 1"
    "yy_buffer_status g \<noteq> YY_BUFFER_NEW"
  shows "\<exists>action g' chars. yy_get_next_buffer g = Inr (action, g') \<and> yytext_ptr g' = 0 \<and>
    unread g = chars @ unread g' \<and> yy_ch_buf g' = y @ chars @ [NUL, NUL] \<and>
    (action = EOB_ACT_CONTINUE_SCAN \<longrightarrow> chars \<noteq> [] \<and> window g' 0 (y @ chars)) \<and>
    (action = EOB_ACT_LAST_MATCH \<longrightarrow> unread g = [] \<and> y \<noteq> [] \<and> window g' 0 y \<and> yy_n_chars g' = length y) \<and>
    (action = EOB_ACT_END_OF_FILE \<longrightarrow> unread g = [] \<and> y = [])"
proof -
  obtain pre where pre: "yy_ch_buf g = pre @ y @ [NUL, NUL]" "length pre = bp" "yy_n_chars g = bp + length y"
    by (rule windowE [OF assms(1)])
  have moved: "take (length y) (drop bp (yy_ch_buf g)) = y" using pre by simp
  have fill: "yy_fill_buffer g" using assms(1) by (simp add: window_def)
  show ?thesis
  proof (cases "yy_buffer_status g = YY_BUFFER_EOF_PENDING")
    case True
    then have "unread g = []" using assms(1) by (simp add: window_def)
    with True moved fill assms(2,3) pre(3) show ?thesis
      by (cases "y = []") (simp_all add: yy_get_next_buffer_def buffer_state_defs window_def Let_def)
  next
    case False
    let ?g = "g\<lparr>yy_buf_size := grow (yy_buf_size g) (length y)\<rparr>"
    let ?m = "min (yy_buf_size ?g - length y - 1) YY_READ_BUF_SIZE"
    obtain chars g1 where r: "read_input ?m ?g = (chars, g1)" by fastforce
    have size': "length y + 1 < yy_buf_size ?g" using False assms(1) grow_gt by (simp add: window_def)
    then have "0 < ?m" by (simp add: YY_READ_BUF_SIZE_def)
    note parts = read_input_parts [OF r this]
    have "length chars \<le> ?m" using r by (auto simp: read_input_def Let_def split: list.splits)
    then have no_resize: "\<not> length chars + length y > yy_buf_size g1"
      using parts(3) size' by auto
    obtain u k where g1: "g1 = ?g\<lparr>unread := u, reads := k\<rparr>" using parts(3) by blast
    show ?thesis
      using False moved fill assms(2-4) pre(3) r parts(1,2) no_resize g1 size'
      by (cases "y = []"; cases "chars = []")
        (simp_all add: yy_get_next_buffer_def buffer_state_defs window_def Let_def)
  qed
qed

text \<open>The end of the buffer inside a token: more input, or the end of it.\<close>

lemma end_of_buffer_refill:
  assumes "window g bp y" "pending y s1" "yytext_ptr g = bp" "yy_c_buf_p g = bp + length y + 1"
    and "xs = y @ unread g" "yy_buffer_status g \<noteq> YY_BUFFER_NEW"
  shows "\<exists>r. bindO (Some (yy_get_next_buffer g)) (\<lambda>(action, g).
        case action of
          EOB_ACT_END_OF_FILE \<Rightarrow>
            Some (Inr (Rule YY_STATE_EOF 0, g\<lparr>yy_c_buf_p := yytext_ptr g\<rparr>))
        | EOB_ACT_CONTINUE_SCAN \<Rightarrow>
            bindO (yy_get_previous_state (g\<lparr>yy_c_buf_p := yytext_ptr g + length y\<rparr>)) (\<lambda>(s, g).
            Some (Inr (Jump (Match (yytext_ptr g) s (yy_c_buf_p g)), g)))
        | EOB_ACT_LAST_MATCH \<Rightarrow>
            bindO (yy_get_previous_state (g\<lparr>yy_c_buf_p := yy_n_chars g\<rparr>)) (\<lambda>(s, g).
            Some (Inr (Jump (Find_Action (yytext_ptr g) s (yy_c_buf_p g)), g)))) = Some (Inr r) \<and>
    advanced xs (length xs - length y + length (unread g)) r"
proof -
  obtain action g1 chars where g1: "yy_get_next_buffer g = Inr (action, g1)" "yytext_ptr g1 = 0"
    "unread g = chars @ unread g1" "yy_ch_buf g1 = y @ chars @ [NUL, NUL]"
    and cont: "action = EOB_ACT_CONTINUE_SCAN \<Longrightarrow> chars \<noteq> [] \<and> window g1 0 (y @ chars)"
    and last: "action = EOB_ACT_LAST_MATCH \<Longrightarrow>
        unread g = [] \<and> y \<noteq> [] \<and> window g1 0 y \<and> yy_n_chars g1 = length y"
    and eof: "action = EOB_ACT_END_OF_FILE \<Longrightarrow> unread g = [] \<and> y = []"
    using get_next_buffer_window [OF assms(1,3,4,6)] by blast
  let ?g2 = "g1\<lparr>yy_c_buf_p := length y\<rparr>"
  have prev: "\<exists>ls lc. yy_get_previous_state ?g2 =
      Some (Inr (s1, ?g2\<lparr>yy_last_accepting_state := ls, yy_last_accepting_cpos := lc\<rparr>)) \<and> last_ok 0 y (ls, lc)"
    if "window g1 0 (y @ v)" for v
    using get_previous_state_pending [of ?g2 y v s1] that g1(2) assms(2) by simp
  show ?thesis
  proof (cases action)
    case EOB_ACT_CONTINUE_SCAN
    then have c: "chars \<noteq> []" "window g1 0 (y @ chars)" using cont by auto
    obtain ls lc where l: "yy_get_previous_state ?g2 =
      Some (Inr (s1, ?g2\<lparr>yy_last_accepting_state := ls, yy_last_accepting_cpos := lc\<rparr>))" "last_ok 0 y (ls, lc)"
      using prev [OF c(2)] by blast
    let ?g3 = "?g2\<lparr>yy_last_accepting_state := ls, yy_last_accepting_cpos := lc\<rparr>"
    have "matching xs y (Match 0 s1 (length y)) ?g3"
      unfolding matching_def using c l(2) assms(2,5) g1(3)
      by (intro exI [of _ 0] exI [of _ s1] exI [of _ chars]) (simp add: lasts_def)
    then have "advanced xs (length xs - length y + length (unread g)) (Jump (Match 0 s1 (length y)), ?g3)"
      using c(1) g1(3) by (auto simp: neq_Nil_conv)
    then show ?thesis using EOB_ACT_CONTINUE_SCAN g1(1,2) l(1) by simp
  next
    case EOB_ACT_END_OF_FILE
    then show ?thesis
      using eof g1 assms(5) by (simp add: scanned_ok_def next_token_def)
  next
    case EOB_ACT_LAST_MATCH
    then have c: "unread g = []" "y \<noteq> []" "window g1 0 y" "yy_n_chars g1 = length y" using last by auto
    obtain ls lc where l: "yy_get_previous_state ?g2 =
      Some (Inr (s1, ?g2\<lparr>yy_last_accepting_state := ls, yy_last_accepting_cpos := lc\<rparr>))" "last_ok 0 y (ls, lc)"
      using prev [of "[]"] c(3) by auto
    let ?g3 = "?g2\<lparr>yy_last_accepting_state := ls, yy_last_accepting_cpos := lc\<rparr>"
    have "next_token xs = (4, 1)" using pending_token [OF assms(2) c(2)] assms(5) c(1) by simp
    moreover have "chosen 0 (s1, length y, lasts ?g3) (4, 1)"
      using pending_chosen [OF assms(2) c(2), of 0 "lasts ?g3"] l(2) by (simp add: lasts_def)
    ultimately have "deciding xs (Find_Action 0 s1 (length y)) ?g3"
      unfolding deciding_def using c assms(5) g1(3)
      by (intro exI [of _ 0] exI [of _ s1] exI [of _ "length y"] exI [of _ y]) (simp add: Suc_leI)
    then show ?thesis using EOB_ACT_LAST_MATCH g1(1,2) l(1) c(4) by simp
  qed
qed

lemma end_of_buffer_advanced:
  assumes "window g bp (y @ v)" "v = [] \<or> hd v = NUL" "pending y s1" "xs = y @ v @ unread g"
    and "lasts g = (3, bp + length y + 1)"
  shows "\<exists>r. find_action bp 13 cp g = Some (Inr r) \<and>
    advanced xs (length xs - length y + length (unread g)) r"
proof -
  let ?cp = "bp + length y + 1"
  obtain pre where pre: "yy_ch_buf g = pre @ (y @ v) @ [NUL, NUL]" "length pre = bp"
    "yy_n_chars g = bp + length (y @ v)"
    by (rule windowE [OF assms(1)])
  then have "?cp < length (yy_ch_buf g)" by simp
  then obtain g1 where g1: "do_before_action bp ?cp g = Inr g1"
    "restored g1 = g\<lparr>yytext_ptr := bp, yy_hold_char := yy_ch_buf g ! ?cp, yy_c_buf_p := ?cp\<rparr>"
    "yytext_ptr g1 = bp" "yy_c_buf_p g1 = ?cp"
    using do_before_action_restored by blast
  have st: "13 \<in> states" "3 \<in> states" by (simp_all add: states_def)
  have find: "find_action bp 13 cp g = end_of_buffer ?cp g1"
    using g1(1) assms(5) st by (simp add: find_action_def accept_states accept_values lasts_def)
  define g2 where "g2 = (if yy_buffer_status (restored g1) = YY_BUFFER_NEW
      then (restored g1)\<lparr>yy_n_chars := b_n_chars (restored g1), yy_buffer_status := YY_BUFFER_NORMAL\<rparr>
      else restored g1)"
  have w2: "window g2 bp (y @ v)"
    using assms(1) unfolding g2_def g1(2) window_def by (auto split: if_splits)
  have f2: "yytext_ptr g2 = bp" "yy_c_buf_p g2 = ?cp" "unread g2 = unread g" "yy_n_chars g2 = yy_n_chars g"
    "yy_buffer_status g2 \<noteq> YY_BUFFER_NEW"
    using assms(1) unfolding g2_def g1(2) window_def by (auto split: if_splits)
  have restore: "g1\<lparr>yy_ch_buf := (yy_ch_buf g1)[?cp := yy_hold_char g1]\<rparr> = restored g1"
    using g1(4) unfolding restored_def by simp
  have amount: "?cp - yytext_ptr g1 - 1 = length y" using g1(3) by simp
  show ?thesis
  proof (cases v)
    case Nil
    then show ?thesis
      using end_of_buffer_refill [of g2 bp y s1 xs] w2 f2 assms(3,4) pre(3)
      unfolding find end_of_buffer_def Let_def restore amount g2_def [symmetric] by simp
  next
    case (Cons c v')
    then have "c = NUL" using assms(2) by simp
    then show ?thesis
      using end_of_buffer_NUL [of g2 bp y v' s1 xs] w2 f2 assms(3,4) pre(3) Cons
      unfolding find end_of_buffer_def Let_def restore amount g2_def [symmetric] by simp
  qed
qed

section \<open>A token, and all of them\<close>

lemma scan_token_step: "scan_step c g = Some (Inr (Jump c', g')) \<Longrightarrow> scan_token c g = scan_token c' g'"
  by (subst scan_token.simps) simp

lemma scan_token_rule: "scan_step c g = Some (Inr (Rule act n, g')) \<Longrightarrow> scan_token c g = Some (Inr (act, n, g'))"
  by (subst scan_token.simps) simp

lemma scan_token_deciding:
  assumes "deciding xs c g"
  shows "\<exists>r. scan_token c g = Some (Inr r) \<and> scanned_ok xs r"
proof -
  obtain bp s cp w where c: "c = Find_Action bp s cp" "window g bp w" "xs = w @ unread g"
    "chosen bp (s, cp, lasts g) (next_token xs)" "snd (next_token xs) \<le> length w"
    using assms unfolding deciding_def by blast
  then obtain act n g' where "find_action bp s cp g = Some (Inr (Rule act n, g'))" "scanned_ok xs (act, n, g')"
    using find_action_chosen [of bp s cp g w] by (auto simp: lasts_def)
  then show ?thesis using scan_token_rule [of c g act n g'] c(1) by auto
qed

lemma deciding_chosen:
  assumes "window g bp (t @ u @ v)" "xs = t @ u @ v @ unread g"
    "\<forall>ys. chosen bp (s, cp, lasts g) (next_token (t @ u @ ys))"
  shows "deciding xs (Find_Action bp s cp) g"
proof -
  have ch: "chosen bp (s, cp, lasts g) (next_token xs)" "chosen bp (s, cp, lasts g) (next_token (t @ u))"
    using assms(2) assms(3) [rule_format, of "v @ unread g"] assms(3) [rule_format, of "[]"] by simp_all
  then have "snd (next_token xs) = snd (next_token (t @ u))"
    by (auto simp: chosen_def lasts_def split_beta Let_def split: if_splits)
  then have "snd (next_token xs) \<le> length (t @ u @ v)" using next_token_le [of "t @ u"] by simp
  with ch(1) assms(1,2) show ?thesis
    unfolding deciding_def
    by (intro exI [of _ bp] exI [of _ s] exI [of _ cp] exI [of _ "t @ u @ v"]) simp
qed

lemma split_at_NUL: "\<exists>u v'. v = u @ v' \<and> NUL \<notin> set u \<and> (v' = [] \<or> hd v' = NUL)"
proof (intro exI conjI)
  show "v = takeWhile (\<lambda>c. c \<noteq> NUL) v @ dropWhile (\<lambda>c. c \<noteq> NUL) v" by simp
  show "NUL \<notin> set (takeWhile (\<lambda>c. c \<noteq> NUL) v)" using set_takeWhileD by fastforce
  show "dropWhile (\<lambda>c. c \<noteq> NUL) v = [] \<or> hd (dropWhile (\<lambda>c. c \<noteq> NUL) v) = NUL"
    using hd_dropWhile [of "\<lambda>c. c \<noteq> NUL" v] by blast
qed

text \<open>From \<^verbatim>\<open>yy_match\<close> the scan decides, or reads on with fewer characters left.\<close>

lemma matching_advances:
  assumes "matching xs t c g"
  shows "\<exists>c' g'. scan_step c g = Some (Inr (Jump c', g')) \<and>
    (deciding xs c' g' \<or>
     (\<exists>r. scan_step c' g' = Some (Inr r) \<and> advanced xs (length xs - length t + length (unread g)) r))"
proof -
  obtain bp s v where c: "c = Match bp s (bp + length t)" "window g bp (t @ v)" "xs = t @ v @ unread g"
    "pending t s" "last_ok bp t (lasts g)"
    using assms unfolding matching_def by blast
  obtain u v' where v: "v = u @ v'" "NUL \<notin> set u" "v' = [] \<or> hd v' = NUL" using split_at_NUL by blast
  obtain pre where pre: "yy_ch_buf g = pre @ (t @ v) @ [NUL, NUL]" "length pre = bp"
    by (rule windowE [OF c(2)]) blast
  obtain z zs where tail: "drop (bp + length t) (yy_ch_buf g) = u @ NUL # z # zs"
    using v(1,3) pre by (cases v'; cases "tl v'") auto
  let ?g = "\<lambda>ls lc. g\<lparr>yy_last_accepting_state := ls, yy_last_accepting_cpos := lc\<rparr>"
  have step: "scan_step c g = Some (Inr (Jump (Find_Action bp s' cp'), ?g ls lc))"
    if "match_loop (u @ NUL # z # zs) s (bp + length t) (lasts g) = Some (Inr (s', cp', ls, lc))" for s' cp' ls lc
    using that c(1) tail by (simp add: lasts_def)
  from match_loop_pending [OF c(4,5) v(2), of z zs] show ?thesis
  proof (elim disjE exE conjE)
    fix r
    assume m: "match_loop (u @ NUL # z # zs) s (bp + length t) (lasts g) = Some (Inr r)"
      and ch: "\<forall>ys. chosen bp r (next_token (t @ u @ ys))"
    obtain s' cp' ls lc where r: "r = (s', cp', ls, lc)" by (metis surj_pair)
    have "deciding xs (Find_Action bp s' cp') (?g ls lc)"
      using c(2,3) v(1) ch r by (intro deciding_chosen [of _ bp t u v']) (simp_all add: lasts_def)
    with step [OF m [unfolded r]] show ?thesis by blast
  next
    fix s1
    let ?g1 = "?g 3 (bp + length (t @ u) + 1)"
    assume m: "match_loop (u @ NUL # z # zs) s (bp + length t) (lasts g) =
        Some (Inr (13, bp + length (t @ u) + 2, 3, bp + length (t @ u) + 1))" and p: "pending (t @ u) s1"
    have "window ?g1 bp ((t @ u) @ v')" "xs = (t @ u) @ v' @ unread ?g1"
      "lasts ?g1 = (3, bp + length (t @ u) + 1)"
      using c(2,3) v(1) by (simp_all add: lasts_def)
    from end_of_buffer_advanced [OF this(1) v(3) p this(2,3), of "bp + length (t @ u) + 2"]
    obtain r where r: "scan_step (Find_Action bp 13 (bp + length (t @ u) + 2)) ?g1 = Some (Inr r)"
      "advanced xs (length xs - length (t @ u) + length (unread ?g1)) r"
      by auto
    have "advanced xs (length xs - length t + length (unread g)) r"
    proof -
      have "length xs - length (t @ u) + length (unread ?g1) \<le> length xs - length t + length (unread g)" by simp
      then show ?thesis using r(2) by (cases r; cases "fst r") (fastforce intro: less_le_trans)+
    qed
    with r(1) step [OF m] show ?thesis by blast
  qed
qed

lemma scan_token_matching:
  "matching xs t c g \<Longrightarrow> \<exists>r. scan_token c g = Some (Inr r) \<and> scanned_ok xs r"
proof (induction "length xs - length t + length (unread g)" arbitrary: t c g rule: less_induct)
  case less
  obtain c1 g1 where c1: "scan_step c g = Some (Inr (Jump c1, g1))"
    "deciding xs c1 g1 \<or>
     (\<exists>r. scan_step c1 g1 = Some (Inr r) \<and> advanced xs (length xs - length t + length (unread g)) r)"
    using matching_advances [OF less.prems] by blast
  note s1 = scan_token_step [OF c1(1)]
  from c1(2) show ?case
  proof (elim disjE exE conjE)
    assume "deciding xs c1 g1"
    then show ?thesis using scan_token_deciding s1 by simp
  next
    fix r assume r: "scan_step c1 g1 = Some (Inr r)" "advanced xs (length xs - length t + length (unread g)) r"
    obtain sc g2 where sc: "r = (sc, g2)" by fastforce
    show ?thesis
    proof (cases sc)
      case (Rule act n)
      then show ?thesis using r sc scan_token_rule [of c1 g1 act n g2] s1 by auto
    next
      case (Jump c2)
      note s2 = scan_token_step [OF r(1) [unfolded sc Jump]]
      from r(2) have "deciding xs c2 g2 \<or> (\<exists>t'. matching xs t' c2 g2 \<and>
          length xs - length t' + length (unread g2) < length xs - length t + length (unread g))"
        by (simp add: sc Jump)
      then show ?thesis
        using scan_token_deciding less.hyps s1 s2 by metis
    qed
  qed
qed

text \<open>The tokens of an input, each with its rule and its text.\<close>

function tokens :: "string \<Rightarrow> (nat \<times> string) list" where
  "tokens xs =
     (let (act, n) = rule_token xs in
      (act, take n xs) # (if act = YY_STATE_EOF \<or> n = 0 then [] else tokens (drop n xs)))"
  by pat_completeness auto
termination
  by (relation "measure length") (auto simp: rule_token_def split: list.splits)

declare tokens.simps [simp del]

lemma rule_token_parts:
  "fst (rule_token xs) = YY_STATE_EOF \<longleftrightarrow> xs = []" "xs \<noteq> [] \<Longrightarrow> 0 < snd (rule_token xs)"
  by (auto simp: rule_token_def packet_length.simps Let_def split: list.splits option.splits if_splits)

text \<open>One turn of the scanner: the first token of the stream goes to its action, ended by a null character.\<close>

lemma yylex_token:
  assumes "at_token xs g"
  obtains act n rest g' where "rule_token xs = (act, n)" "n \<le> length xs"
    "tokens xs = (act, take n xs) # (if act = YY_STATE_EOF then [] else tokens (drop n xs))"
    "yylex action g d = bindO (action act (take n xs @ NUL # rest) n d)
       (\<lambda>d. if act = YY_STATE_EOF then Some (Inr d) else yylex action g' d)"
    "act \<noteq> YY_STATE_EOF \<Longrightarrow> at_token (drop n xs) g' \<and> length (drop n xs) < length xs"
proof -
  assume obtained: "\<And>act n rest g'. rule_token xs = (act, n) \<Longrightarrow> n \<le> length xs \<Longrightarrow>
    tokens xs = (act, take n xs) # (if act = YY_STATE_EOF then [] else tokens (drop n xs)) \<Longrightarrow>
    yylex action g d = bindO (action act (take n xs @ NUL # rest) n d)
       (\<lambda>d. if act = YY_STATE_EOF then Some (Inr d) else yylex action g' d) \<Longrightarrow>
    (act \<noteq> YY_STATE_EOF \<Longrightarrow> at_token (drop n xs) g' \<and> length (drop n xs) < length xs) \<Longrightarrow> thesis"
  obtain w where w: "window (restored g) (yy_c_buf_p g) w" "xs = w @ unread g"
    using assms unfolding at_token_def by blast
  have "matching xs [] (Match (yy_c_buf_p g) 1 (yy_c_buf_p g)) (restored g)"
    unfolding matching_def using w by (intro exI [of _ "yy_c_buf_p g"] exI [of _ 1] exI [of _ w]) simp
  then obtain act n g' where s: "scan_token (Match (yy_c_buf_p g) 1 (yy_c_buf_p g)) (restored g) = Some (Inr (act, n, g'))"
    "scanned_ok xs (act, n, g')"
    using scan_token_matching by (metis surj_pair)
  obtain rest where t: "rule_token xs = (act, n)"
    "drop (yytext_ptr g') (yy_ch_buf g') = take n xs @ NUL # rest"
    and tk: "act \<noteq> YY_STATE_EOF \<Longrightarrow> at_token (drop n xs) g'"
    using s(2) by (auto simp: scanned_ok_def next_token_rules)
  show thesis
  proof (rule obtained)
    show "rule_token xs = (act, n)" by (rule t(1))
    show "n \<le> length xs" using next_token_le [of xs] t(1) by (simp add: next_token_rules)
    show "tokens xs = (act, take n xs) # (if act = YY_STATE_EOF then [] else tokens (drop n xs))"
      using rule_token_parts [of xs] t(1) by (subst tokens.simps) auto
    show "yylex action g d = bindO (action act (take n xs @ NUL # rest) n d)
       (\<lambda>d. if act = YY_STATE_EOF then Some (Inr d) else yylex action g' d)"
      using s(1) t(2) by (subst yylex.simps) (simp add: restored_def Let_def bindO_def)
    show "at_token (drop n xs) g' \<and> length (drop n xs) < length xs" if "act \<noteq> YY_STATE_EOF"
      using tk [OF that] that rule_token_parts [of xs] t(1) by simp
  qed
qed

text \<open>The actions of a session: each has the text of its token, ended by a null character.\<close>

fun acted :: "(nat \<Rightarrow> string \<Rightarrow> nat \<Rightarrow> 'd \<Rightarrow> 'd res option) \<Rightarrow> (nat \<times> string) list \<Rightarrow> 'd \<Rightarrow> 'd \<Rightarrow> bool" where
  "acted action [] d d' \<longleftrightarrow> d' = d"
| "acted action ((act, s) # ts) d d' \<longleftrightarrow>
     (\<exists>rest d1. action act (s @ NUL # rest) (length s) d = Some (Inr d1) \<and> acted action ts d1 d')"

lemma bindO_eq_Inr:
  "bindO m f = Some (Inr y) \<longleftrightarrow> (\<exists>x. m = Some (Inr x) \<and> f x = Some (Inr y))"
  by (auto simp: bindO_def split: option.splits sum.splits)

lemma yylex_acted:
  "at_token xs g \<Longrightarrow> yylex action g d = Some (Inr d') \<Longrightarrow> acted action (tokens xs) d d'"
proof (induction "length xs" arbitrary: xs g d rule: less_induct)
  case less
  from less.prems(1) show ?case
  proof (rule yylex_token [of xs g action d])
    fix act n rest g'
    assume n: "n \<le> length xs"
      and t: "tokens xs = (act, take n xs) # (if act = YY_STATE_EOF then [] else tokens (drop n xs))"
      and y: "yylex action g d = bindO (action act (take n xs @ NUL # rest) n d)
         (\<lambda>d. if act = YY_STATE_EOF then Some (Inr d) else yylex action g' d)"
      and go: "act \<noteq> YY_STATE_EOF \<Longrightarrow> at_token (drop n xs) g' \<and> length (drop n xs) < length xs"
    obtain d1 where d1: "action act (take n xs @ NUL # rest) n d = Some (Inr d1)"
      "(if act = YY_STATE_EOF then Some (Inr d1) else yylex action g' d1) = Some (Inr d')"
      using less.prems(2) unfolding y bindO_eq_Inr by blast
    have "acted action (if act = YY_STATE_EOF then [] else tokens (drop n xs)) d1 d'"
      using d1(2) go less.hyps by auto
    moreover have "length (take n xs) = n" using n by simp
    ultimately show ?thesis using d1(1) unfolding t acted.simps by metis
  qed
qed

text \<open>Actions that depend on the text of the token only have one result for each input.\<close>

fun run_actions :: "(nat \<Rightarrow> string \<Rightarrow> nat \<Rightarrow> 'd \<Rightarrow> 'd res option) \<Rightarrow> (nat \<times> string) list \<Rightarrow> 'd \<Rightarrow> 'd res option" where
  "run_actions action [] d = Some (Inr d)"
| "run_actions action ((act, s) # ts) d = bindO (action act (s @ [NUL]) (length s) d) (run_actions action ts)"

definition text_only :: "(nat \<Rightarrow> string \<Rightarrow> nat \<Rightarrow> 'd \<Rightarrow> 'd res option) \<Rightarrow> nat \<times> string \<Rightarrow> bool" where
  "text_only action t \<longleftrightarrow> (case t of (act, s) \<Rightarrow>
     \<forall>rest d. action act (s @ NUL # rest) (length s) d = action act (s @ [NUL]) (length s) d)"

lemma bindO_cong: "(\<And>x. f x = g x) \<Longrightarrow> bindO m f = bindO m g"
  by (auto simp: bindO_def split: option.splits sum.splits)

lemma yylex_run_actions:
  "at_token xs g \<Longrightarrow> \<forall>t \<in> set (tokens xs). text_only action t \<Longrightarrow>
    yylex action g d = run_actions action (tokens xs) d"
proof (induction "length xs" arbitrary: xs g d rule: less_induct)
  case less
  from less.prems(1) show ?case
  proof (rule yylex_token [of xs g action d])
    fix act n rest g'
    assume n: "n \<le> length xs"
      and t: "tokens xs = (act, take n xs) # (if act = YY_STATE_EOF then [] else tokens (drop n xs))"
      and y: "yylex action g d = bindO (action act (take n xs @ NUL # rest) n d)
         (\<lambda>d. if act = YY_STATE_EOF then Some (Inr d) else yylex action g' d)"
      and go: "act \<noteq> YY_STATE_EOF \<Longrightarrow> at_token (drop n xs) g' \<and> length (drop n xs) < length xs"
    have "length (take n xs) = n" using n by simp
    then have a: "action act (take n xs @ NUL # rest) n d = action act (take n xs @ [NUL]) (length (take n xs)) d"
      using less.prems(2) t by (simp add: text_only_def)
    have b: "(if act = YY_STATE_EOF then Some (Inr d) else yylex action g' d) =
        run_actions action (if act = YY_STATE_EOF then [] else tokens (drop n xs)) d" for d
      using go less.hyps [of "drop n xs" g' d] less.prems(2) t by auto
    show ?thesis unfolding y t run_actions.simps a by (rule bindO_cong) (rule b)
  qed
qed

text \<open>An action that records the tokens.\<close>

definition recording ::
    "nat \<Rightarrow> string \<Rightarrow> nat \<Rightarrow> (nat \<times> string) list \<Rightarrow> (nat \<times> string) list res option" where
  "recording act text n ts = Some (Inr (ts @ [(act, take n text)]))"

lemma run_recording: "run_actions recording us ts = Some (Inr (ts @ us))"
  by (induction us arbitrary: ts) (auto simp: recording_def)

lemma yylex_recording: "at_token xs g \<Longrightarrow> yylex recording g ts = Some (Inr (ts @ tokens xs))"
proof -
  assume "at_token xs g"
  then have "yylex recording g ts = run_actions recording (tokens xs) ts"
    by (rule yylex_run_actions) (simp add: text_only_def recording_def split_beta)
  also have "\<dots> = Some (Inr (ts @ tokens xs))"
    by (rule run_recording)
  finally show ?thesis .
qed

lemma at_token_init: "at_token input (yylex_init input sizes)"
  by (simp add: at_token_def window_def restored_def yylex_init_def yy_init_globals_def YY_BUF_SIZE_def
      buffer_state_defs)

section \<open>Properties\<close>

text \<open>C5: The generated scanner splits every input into the tokens its rules describe, and ends: whatever
  the pieces in which the input arrives, also when a packet is torn apart by them, is longer than the
  buffer or holds null characters, the tokens and their texts are those of the whole input, none is
  lost and no access is outside the buffer or the tables.\<close>

theorem scanner_tokens: "yylex recording (yylex_init input sizes) [] = Some (Inr (tokens input))"
  using yylex_recording [OF at_token_init, of input sizes "[]"] by simp

end
