(* ===== verification/Session.thy ===== *)
theory Session
  imports Simulator Scanner_Input
begin

text \<open>
  A session with the debugger: the actions of the rules on the tokens of the input, and the events of
  the simulator they amount to.
\<close>

section \<open>The error buffer\<close>

definition error_ok :: "parser_data \<Rightarrow> bool" where
  "error_ok d \<longleftrightarrow> length (error_buffer d) = MAX_ERROR_SIZE \<and> error_len d < MAX_ERROR_SIZE"

lemma handle_error_eq:
  assumes "error_ok d"
  shows "handle_error d =
    (if error_len d = 0 then Inr d
     else bindR (gdb_require_retransmission (parser_gdb d)) (\<lambda>gdb.
          Inr (d\<lparr>error_buffer := (error_buffer d)[error_len d := NUL], parser_gdb := gdb, error_len := 0\<rparr>)))"
  using assms by (auto simp: handle_error_def error_ok_def store_def bindR_def split: sum.splits)

lemma handle_error_Inr:
  assumes "error_ok d" "handle_error d = Inr d'"
  shows "error_ok d' \<and> error_len d' = 0 \<and>
    (if error_len d = 0 then parser_gdb d' = parser_gdb d
     else gdb_require_retransmission (parser_gdb d) = Inr (parser_gdb d'))"
  using assms by (auto simp: handle_error_eq error_ok_def bindR_eq_Inr)

lemma add_character_Inr:
  assumes "error_ok d" "add_character_to_error c d = Inr d'"
  shows "error_ok d' \<and>
    (if error_len d = 1023 then error_len d' = 1 \<and> gdb_require_retransmission (parser_gdb d) = Inr (parser_gdb d')
     else error_len d' = error_len d + 1 \<and> parser_gdb d' = parser_gdb d)"
proof -
  obtain d1 where d1: "(if error_len d > 1022 then handle_error d else Inr d) = Inr d1"
    "store (error_buffer d1) (error_len d1) c = Inr (error_buffer d')"
    "d' = d1\<lparr>error_buffer := error_buffer d', error_len := error_len d1 + 1\<rparr>"
    using assms(2) by (auto simp: add_character_to_error_def MAX_ERROR_SIZE_def bindR_eq_Inr)
  have l: "error_len d < 1024" using assms(1) by (simp add: error_ok_def MAX_ERROR_SIZE_def)
  have len': "length (error_buffer d') = length (error_buffer d1)"
    using d1(2) by (auto simp: store_def split: if_splits dest: arg_cong [of _ _ length])
  have f: "error_len d' = error_len d1 + 1" "parser_gdb d' = parser_gdb d1" by (subst d1(3), simp)+
  show ?thesis
  proof (cases "error_len d = 1023")
    case True
    then have "handle_error d = Inr d1" using d1(1) by simp
    from handle_error_Inr [OF assms(1) this] True f len' show ?thesis
      by (simp add: error_ok_def MAX_ERROR_SIZE_def)
  next
    case False
    then have "d1 = d" using d1(1) l by simp
    with False f len' assms(1) show ?thesis by (simp add: error_ok_def MAX_ERROR_SIZE_def)
  qed
qed

text \<open>
  What the actions do when the connection is open: they never leave the error buffer.
\<close>

lemma add_character_open:
  assumes "error_ok d" "\<not> shut_down (parser_gdb d)"
  shows "\<exists>d'. add_character_to_error c d = Inr d' \<and> error_ok d' \<and> \<not> shut_down (parser_gdb d') \<and>
    error_len d' = (if error_len d = 1023 then 1 else error_len d + 1) \<and>
    sent (parser_gdb d') = sent (parser_gdb d) @ (if error_len d = 1023 then ''-'' else [])"
  using assms
  by (auto simp: add_character_to_error_def handle_error_eq gdb_require_retransmission_def Rio_writen_def
      error_ok_def MAX_ERROR_SIZE_def store_def)

section \<open>The events of a session\<close>

text \<open>
  The events the tokens of an input stand for, when \<open>k\<close> characters are in the error buffer: the
  characters that are no token are answered at the next token, or when the buffer is full.
\<close>

fun events :: "nat \<Rightarrow> (nat \<times> string) list \<Rightarrow> event list" where
  "events k [] = []"
| "events k ((act, text) # ts) =
     (if act = 4 then (if k = 1023 then Garbage # events 1 ts else events (k + 1) ts)
      else if act = 5 then Echo # events k ts
      else (if k \<noteq> 0 then [Garbage] else []) @
           (if act = 2 then [Repeat] else if act = 3 then [Packet text] else []) @ events 0 ts)"

lemma runs_garbage:
  assumes "error_ok d" "handle_error d = Inr d1" "runs (Connected (parser_gdb d1)) es s"
  shows "runs (Connected (parser_gdb d)) ((if error_len d \<noteq> 0 then [Garbage] else []) @ es) s"
  using handle_error_Inr [OF assms(1,2)] assms(3) simulator_step.garbage [of "parser_gdb d" "parser_gdb d1"]
  by auto

definition token_ok :: "nat \<times> string \<Rightarrow> bool" where
  "token_ok t \<longleftrightarrow> (fst t = 3 \<longrightarrow> 4 \<le> length (snd t)) \<and> (fst t = 5 \<longrightarrow> snd t = [CHR 0x0A]) \<and>
     (fst t = 4 \<longrightarrow> length (snd t) = 1)"

lemma tokens_ok: "\<forall>t \<in> set (tokens xs). token_ok t"
proof (induction xs rule: tokens.induct)
  case (1 xs)
  obtain act n where an: "rule_token xs = (act, n)" by fastforce
  have "token_ok (act, take n xs)"
    using an by (auto simp: token_ok_def rule_token_def newline_def packet_length.simps Let_def
        split: list.splits option.splits if_splits)
  then show ?case using 1 [OF an [symmetric] refl] an by (subst tokens.simps) auto
qed

lemma acted_runs:
  "acted rule_action ts d d' \<Longrightarrow> error_ok d \<Longrightarrow> \<forall>t \<in> set ts. token_ok t \<Longrightarrow>
    error_ok d' \<and> runs (Connected (parser_gdb d)) (events (error_len d) ts) (Connected (parser_gdb d'))"
proof (induction ts arbitrary: d)
  case (Cons t ts)
  obtain act s where t: "t = (act, s)" by fastforce
  then obtain rest d1 where d1: "rule_action act (s @ NUL # rest) (length s) d = Some (Inr d1)"
    "acted rule_action ts d1 d'" using Cons.prems(1) by auto
  have ok: "token_ok (act, s)" using Cons.prems(3) t by simp
  note IH = Cons.IH [OF d1(2) _ ]
  have rest: "\<forall>t \<in> set ts. token_ok t" using Cons.prems(3) by simp
  consider "act = 4" | "act = 5" | "act = 3" | "act = 2" | "act \<notin> {2, 3, 4, 5}" by auto
  then show ?case
  proof cases
    case 1
    have a: "add_character_to_error (hd s) d = Inr d1"
      using d1(1) 1 ok by (cases s) (auto simp: rule_action_def token_ok_def)
    from add_character_Inr [OF Cons.prems(2) a] IH rest 1 t show ?thesis
      by (cases "error_len d = 1023") (auto intro: simulator_step.garbage)
  next
    case 2
    have "d1 = d\<lparr>parser_gdb := (parser_gdb d)\<lparr>arm := (arm (parser_gdb d))\<lparr>stdout := stdout (arm (parser_gdb d)) @ [CHR 0x0A]\<rparr>\<rparr>\<rparr>"
      using d1(1) 2 ok by (simp add: rule_action_def token_ok_def Let_def)
    then show ?thesis using IH rest 2 t Cons.prems(2) simulator_step.echo [of "parser_gdb d"]
      by (auto simp: error_ok_def)
  next
    case 3
    then obtain d0 g where d0: "handle_error d = Inr d0"
      "gdb_packet_analysis (parser_gdb d0) (s @ NUL # rest) (length s) = Some (Inr g)" "d1 = d0\<lparr>parser_gdb := g\<rparr>"
      using d1(1) by (auto simp: rule_action_def bindO_eq_Inr)
    have p: "simulator_step (Connected (parser_gdb d0)) (Packet s) (Connected g)"
      using d0(2) ok 3 by (auto simp: token_ok_def intro: simulator_step.packet)
    have "error_ok d' \<and> runs (Connected g) (events 0 ts) (Connected (parser_gdb d'))"
      using handle_error_Inr [OF Cons.prems(2) d0(1)] IH rest d0(3) by (simp add: error_ok_def)
    then show ?thesis
      using 3 t runs_garbage [OF Cons.prems(2) d0(1) runs.more [OF p]] by simp
  next
    case 4
    then obtain d0 g where d0: "handle_error d = Inr d0"
      "gdb_transmit_packet (parser_gdb d0) = Inr g" "d1 = d0\<lparr>parser_gdb := g\<rparr>"
      using d1(1) by (auto simp: rule_action_def bindR_eq_Inr)
    have "error_ok d' \<and> runs (Connected g) (events 0 ts) (Connected (parser_gdb d'))"
      using handle_error_Inr [OF Cons.prems(2) d0(1)] IH rest d0(3) by (simp add: error_ok_def)
    then show ?thesis
      using 4 t runs_garbage [OF Cons.prems(2) d0(1) runs.more [OF simulator_step.repeat [OF d0(2)]]] by simp
  next
    case 5
    then have "handle_error d = Inr d1" using d1(1) by (auto simp: rule_action_def split: if_splits)
    then show ?thesis
      using handle_error_Inr [OF Cons.prems(2)] IH rest 5 t
        runs_garbage [OF Cons.prems(2), of d1 "events 0 ts" "Connected (parser_gdb d')"]
      by auto
  qed
qed simp

section \<open>Properties\<close>

text \<open>C4: A whole session implements the events of the simulator: whatever bytes a debugger sends and in
  whatever pieces they are read, a session that returns has done, in this order, what the tokens of
  the input ask for, and nothing else: each packet is analysed once, each request repeats the last
  packet, and data that is no packet is answered by one request for retransmission before the next
  token. The state it ends in has the invariant of the debugger and of the core.\<close>

theorem session_runs_events:
  assumes "gdb_scanner packet0 breakpoints0 p t buffer0 input sizes = Some (Inr d)"
    and "length packet0 = MAX_PACKET_SIZE" "length breakpoints0 = MAX_BREAKPOINTS_NUMBER"
      "length buffer0 = MAX_ERROR_SIZE"
    and "core_inv UNIV h m0 p" "wf_trace t"
  shows "runs (Waiting p t) (Connect # events 0 (tokens input)) (Connected (parser_gdb d))
    \<and> gdb_inv UNIV h m0 [] (parser_gdb d)"
proof -
  obtain gdb where gdb: "gdb_init_data True packet0 breakpoints0 p t = Some gdb"
    by (simp add: gdb_init_data_def)
  let ?d = "\<lparr>parser_gdb = gdb, error_buffer = buffer0, error_len = 0\<rparr>"
  have "acted rule_action (tokens input) ?d d"
    using assms(1) gdb yylex_acted [OF at_token_init] by (simp add: gdb_scanner_def)
  moreover have "error_ok ?d" using assms(4) by (simp add: error_ok_def MAX_ERROR_SIZE_def)
  ultimately have "runs (Connected gdb) (events 0 (tokens input)) (Connected (parser_gdb d))"
    using acted_runs [of "tokens input" ?d d] tokens_ok by simp
  with simulator_step.connect [OF gdb assms(2,3)]
  have r: "runs (Waiting p t) (Connect # events 0 (tokens input)) (Connected (parser_gdb d))"
    by (rule runs.more)
  then show ?thesis
    using runs_inv [OF r, of UNIV h m0] assms(5,6) by (simp add: step_modes_def)
qed

lemma div_mod_Suc:
  "Suc k div 1023 = (if k mod 1023 = 1022 then Suc (k div 1023) else k div 1023)"
  "Suc k mod 1023 = (if k mod 1023 = 1022 then 0 else Suc (k mod 1023))"
  by (auto simp: div_Suc mod_Suc)

lemma garbage_fold:
  assumes "error_ok d" "error_len d = 0" "\<not> shut_down (parser_gdb d)"
  shows "\<exists>d'. fold (\<lambda>c r. bindR r (add_character_to_error c)) cs (Inr d) = Inr d'
    \<and> error_ok d' \<and> \<not> shut_down (parser_gdb d') \<and> error_len d' = (if cs = [] then 0 else (length cs - 1) mod 1023 + 1)
    \<and> sent (parser_gdb d') = sent (parser_gdb d) @ replicate ((length cs - 1) div 1023) (CHR ''-'')"
proof (induction cs rule: rev_induct)
  case Nil
  then show ?case using assms by simp
next
  case (snoc c cs)
  then obtain d1 where d1: "fold (\<lambda>c r. bindR r (add_character_to_error c)) cs (Inr d) = Inr d1"
    "error_ok d1" "\<not> shut_down (parser_gdb d1)" "error_len d1 = (if cs = [] then 0 else (length cs - 1) mod 1023 + 1)"
    "sent (parser_gdb d1) = sent (parser_gdb d) @ replicate ((length cs - 1) div 1023) (CHR ''-'')"
    by blast
  obtain d2 where d2: "add_character_to_error c d1 = Inr d2" "error_ok d2" "\<not> shut_down (parser_gdb d2)"
    "error_len d2 = (if error_len d1 = 1023 then 1 else error_len d1 + 1)"
    "sent (parser_gdb d2) = sent (parser_gdb d1) @ (if error_len d1 = 1023 then ''-'' else [])"
    using add_character_open [OF d1(2,3)] by blast
  show ?case
  proof (cases "length cs")
    case 0
    then show ?thesis using d1 d2 by simp
  next
    case (Suc k)
    then have "cs \<noteq> []" by auto
    with Suc d1 d2 show ?thesis by (auto simp: div_mod_Suc replicate_append_same)
  qed
qed

text \<open>The error buffer is never left: after any number of characters that are no token the buffer
  holds fewer than its 1024 characters, and each 1023 of them are answered by one request.\<close>

theorem error_buffer_bounds:
  assumes "length (error_buffer d) = MAX_ERROR_SIZE" "error_len d = 0" "\<not> shut_down (parser_gdb d)"
  shows "\<exists>d'. fold (\<lambda>c r. bindR r (add_character_to_error c)) cs (Inr d) = Inr d'
    \<and> length (error_buffer d') = MAX_ERROR_SIZE \<and> error_len d' < MAX_ERROR_SIZE
    \<and> sent (parser_gdb d') = sent (parser_gdb d) @ replicate ((length cs - 1) div 1023) (CHR ''-'')"
  using garbage_fold [of d cs] assms by (auto simp: error_ok_def MAX_ERROR_SIZE_def)

theorem error_buffer_bounds_witness:
  "\<exists>d'. fold (\<lambda>c r. bindR r (add_character_to_error c)) (replicate 3000 (CHR ''A''))
      (Inr \<lparr>parser_gdb = demo_gdb [], error_buffer = replicate 1024 NUL, error_len = 0\<rparr>) = Inr d'
    \<and> sent (parser_gdb d') = ''--''"
proof -
  let ?d = "\<lparr>parser_gdb = demo_gdb [], error_buffer = replicate 1024 NUL, error_len = 0\<rparr>"
  have "length (error_buffer ?d) = MAX_ERROR_SIZE" "\<not> shut_down (demo_gdb [])"
    by (simp_all add: MAX_ERROR_SIZE_def demo_gdb_def)
  moreover have "(length (replicate 3000 (CHR ''A'')) - 1) div 1023 = 2" by simp
  ultimately show ?thesis
    using error_buffer_bounds [of ?d "replicate 3000 (CHR ''A'')"] by (auto simp: demo_gdb_simps numeral_2_eq_2)
qed

theorem session_runs_events_witness:
  "\<exists>d. gdb_scanner (replicate 4096 NUL) (replicate 1024 0) (demo_sim []) trace_initial
        (replicate 1024 NUL) ''+A-'' [1, 2] = Some (Inr d)
    \<and> runs (Waiting (demo_sim []) trace_initial) [Connect, Garbage, Repeat] (Connected (parser_gdb d))"
proof -
  let ?d = "\<lparr>parser_gdb = demo_gdb [], error_buffer = replicate 1024 NUL, error_len = 0\<rparr>"
  let ?s = "gdb_scanner (replicate 4096 NUL) (replicate 1024 0) (demo_sim []) trace_initial
        (replicate 1024 NUL) ''+A-'' [1, 2]"
  have t: "tokens ''+A-'' = [(1, ''+''), (4, ''A''), (2, ''-''), (7, [])]"
    by (simp add: tokens.simps rule_token_def newline_def)
  have "\<forall>t \<in> set (tokens ''+A-''). text_only rule_action t"
    by (simp add: t text_only_def rule_action_def)
  then have "yylex rule_action (yylex_init ''+A-'' [1, 2]) ?d = run_actions rule_action (tokens ''+A-'') ?d"
    by (intro yylex_run_actions at_token_init)
  then have "?s = run_actions rule_action (tokens ''+A-'') ?d"
    by (simp add: gdb_scanner_def gdb_init_data_def demo_gdb_def)
  also have "\<exists>d. \<dots> = Some (Inr d)"
    by (simp add: t rule_action_def handle_error_def add_character_to_error_def MAX_ERROR_SIZE_def store_def
        gdb_require_retransmission_def gdb_transmit_packet_def Rio_writen_def demo_gdb_def)
  finally obtain d where d: "?s = Some (Inr d)" by blast
  have sizes: "length (replicate 4096 NUL) = MAX_PACKET_SIZE"
    "length (replicate 1024 (0 :: u32)) = MAX_BREAKPOINTS_NUMBER" "length (replicate 1024 NUL) = MAX_ERROR_SIZE"
    by (simp_all add: MAX_ERROR_SIZE_def MAX_PACKET_SIZE_def MAX_BREAKPOINTS_NUMBER_def)
  have "core_inv UNIV (sim_host (demo_sim [])) (mem (demo_sim [])) (demo_sim [])"
    using gdb_invD(2) [OF demo_gdb_inv [of "[]" UNIV]] by (simp add: demo_gdb_simps)
  from session_runs_events [OF d sizes this wf_trace_initial] d show ?thesis by (auto simp: t)
qed

end
