(* ===== verification/Guest_Run.thy ===== *)
theory Guest_Run
  imports Gdb_Execution
begin

text \<open>
  Programs on the simulated machine: the instructions of a run one after the other, the routines of
  \<^verbatim>\<open>my_syscalls.s\<close> the guest programs are linked with, interrupts from their entry to their return, and a
  run from the continue command of the debugger to its report.
\<close>

section \<open>Instructions one by one\<close>

text \<open>
  \<open>advances p p' regs pc n out\<close>: from \<open>p\<close> to \<open>p'\<close> the registers in \<open>regs\<close> get their values, PC gets
  \<open>pc\<close>, the cycle counter grows by \<open>n\<close> and \<open>out\<close> is printed; other registers of the mode, the mode,
  the memory and the input stay.
\<close>

definition advances :: "sim \<Rightarrow> sim \<Rightarrow> (nat \<rightharpoonup> u32) \<Rightarrow> u32 \<Rightarrow> u32 \<Rightarrow> string \<Rightarrow> bool" where
  "advances p p' regs pc n out \<longleftrightarrow> wf_sim p' \<and> cur_mode p' = cur_mode p \<and> mem p' = mem p
     \<and> cycle_count p' = cycle_count p + n \<and> stdout p' = stdout p @ out \<and> stdin p' = stdin p
     \<and> (\<forall>j < 16. raw p' j (cur_mode p) =
          (if j = PC then Inr pc else case regs j of Some v \<Rightarrow> Inr v | None \<Rightarrow> raw p j (cur_mode p)))"

lemma advancesD:
  assumes "advances p p' regs pc n out"
  shows "wf_sim p'" "cur_mode p' = cur_mode p" "mem p' = mem p" "raw p' PC (cur_mode p) = Inr pc"
    "stdout p' = stdout p @ out" "cycle_count p' = cycle_count p + n" "stdin p' = stdin p"
  using assms by (simp_all add: advances_def)

lemma advances_register:
  "advances p p' regs pc n out \<Longrightarrow> j < 15 \<Longrightarrow>
    raw p' j (cur_mode p) = (case regs j of Some v \<Rightarrow> Inr v | None \<Rightarrow> raw p j (cur_mode p))"
  by (simp add: advances_def)

lemma advances_trans:
  assumes "advances p p' regs pc n out" "advances p' p'' regs' pc' n' out'"
  shows "advances p p'' (regs ++ regs') pc' (n + n') (out @ out')"
  using assms by (auto simp: advances_def map_add_def split: option.splits)

text \<open>An instruction word at an address the processor stands at.\<close>

definition about_to :: "u32 \<Rightarrow> u32 \<Rightarrow> sim \<Rightarrow> bool" where
  "about_to a inst p \<longleftrightarrow> wf_sim p \<and> cur_mode p \<noteq> FIQ \<and> raw p PC (cur_mode p) = Inr a
     \<and> inside (mem p) a 4 \<and> arm_read_word a p = Inr (Some inst)
     \<and> flag_cond (get_bits inst 31 28) (arm_read_cpsr p)"

lemma step_executes:
  assumes "about_to a inst p"
  obtains p1 where "arm_fetch p = Inr (Some inst, p1)" "advances p p1 Map.empty (a + 4) 1 []"
    "arm_read_cpsr p1 = arm_read_cpsr p" "cur_mode p1 = cur_mode p" "cur_mode p1 \<noteq> FIQ"
    "\<And>j mode. raw p1 j mode = (if j = PC then Inr (a + 4) else raw p j mode)"
    "\<And>p'. arm_fetch_code_inst inst (arm_read_cpsr p) p1 = Inr (0, p') \<Longrightarrow> arm_step p = Inr (0, p')"
proof -
  note h = assms [unfolded about_to_def]
  obtain p1 where p1: "arm_fetch p = Inr (Some inst, p1)" "wf_sim p1" "arm_read_cpsr p1 = arm_read_cpsr p"
    "mem p1 = mem p" "cycle_count p1 = cycle_count p + 1" "stdout p1 = stdout p" "stdin p1 = stdin p"
    "\<And>j mode. raw p1 j mode = (if j = PC then Inr (a + 4) else raw p j mode)"
    using fetch_inside [of p a inst] h by blast
  then have m: "cur_mode p1 = cur_mode p" by (simp add: cur_mode_def)
  have s: "arm_step p = Inr (0, p')" if "arm_fetch_code_inst inst (arm_read_cpsr p) p1 = Inr (0, p')" for p'
    using p1(1,3) h that by (simp add: arm_step_def arm_execute_instruction_def Let_def)
  show thesis
    by (rule that [OF p1(1) _ p1(3) m _ p1(8) s]) (use p1 m h in \<open>auto simp: advances_def\<close>)
qed

lemma operator_advances:
  assumes "advances p p1 Map.empty (a + 4) 1 []" "cur_mode p1 \<noteq> FIQ" "Rd = unat (get_bits ins 15 12)"
    "Rd < 15" "arm_read_register (unat (get_bits ins 19 16)) p1 = Inr rn"
    "\<not> comparison (get_bits ins 24 21)"
    "res = operator_reference (unat (get_bits ins 24 21)) rn so (bit (arm_read_cpsr p1) C_bit)"
  shows "\<exists>p'. apply_operator ins so carry S (arm_read_cpsr p1) p1 = Inr (0, p')
    \<and> advances p p' [Rd \<mapsto> res] (a + 4) 1 []
    \<and> arm_read_cpsr p' = (if S \<noteq> 0 then update_flags (flag_kind (get_bits ins 24 21)) (ucast res) rn so carry
         (get_bits ins 24 21) (arm_read_cpsr p1) else arm_read_cpsr p1)"
proof -
  note d = advancesD [OF assms(1)]
  let ?c = "arm_read_cpsr p1"
  have c: "(if S \<noteq> 0 \<and> unat (get_bits ins 15 12) = PC \<and> registers_mode_has_spsr (cur_mode p1)
    \<and> \<not> comparison (get_bits ins 24 21) then raw p1 SPSR (cur_mode p1) else Inr ?c) = Inr ?c"
    using assms(3,4) by auto
  obtain p' where p': "apply_operator ins so carry S ?c p1 = Inr (0, p')" "wf_sim p'" "mem p' = mem p1"
    "cycle_count p' = cycle_count p1" "stdout p' = stdout p1" "stdin p' = stdin p1"
    "\<And>j mode. j < 18 \<Longrightarrow> j \<noteq> CPSR \<Longrightarrow> raw p' j mode =
       (if j = Rd \<and> cell j mode = cell Rd (cur_mode p1) then Inr res else raw p1 j mode)"
    "arm_read_cpsr p' = (if S \<noteq> 0 then update_flags (flag_kind (get_bits ins 24 21)) (ucast res) rn so carry
         (get_bits ins 24 21) ?c else ?c)"
    using apply_operator_runs [OF d(1) assms(2,5) c, of so carry] assms(6)
    unfolding Let_def assms(3) [symmetric] assms(7) [symmetric] by auto
  have "cur_mode p' = cur_mode p1"
    using p'(8) by (auto simp: cur_mode_def)
  then have "advances p p' [Rd \<mapsto> res] (a + 4) 1 []"
    using p' assms(1,4) d by (auto simp: advances_def)
  with p'(1,8) show ?thesis by blast
qed

lemma step_add_r1_r0:
  assumes "about_to a 0xE0811000 p" "raw p 0 (cur_mode p) = Inr v0" "raw p 1 (cur_mode p) = Inr v1"
  shows "\<exists>p'. arm_step p = Inr (0, p') \<and> advances p p' [1 \<mapsto> v1 + v0] (a + 4) 1 []"
proof -
  obtain p1 where "arm_fetch p = Inr (Some 0xE0811000, p1)" and p1: "advances p p1 Map.empty (a + 4) 1 []"
    "arm_read_cpsr p1 = arm_read_cpsr p" "cur_mode p1 = cur_mode p" "cur_mode p1 \<noteq> FIQ"
    "\<And>j mode. raw p1 j mode = (if j = PC then Inr (a + 4) else raw p j mode)"
    "\<And>p'. arm_fetch_code_inst 0xE0811000 (arm_read_cpsr p) p1 = Inr (0, p') \<Longrightarrow> arm_step p = Inr (0, p')"
    by (rule step_executes [OF assms(1)], rule that)
  have f: "unat (get_bits 0xE0811000 15 12) = 1" "unat (get_bits 0xE0811000 19 16) = 1"
    "unat (get_bits 0xE0811000 24 21) = 4" "\<not> comparison (get_bits 0xE0811000 24 21)"
    "get_bits (0xE0811000 :: u32) 27 25 = 0" "get_bit (0xE0811000 :: u32) 4 = 0"
    "get_bits (0xE0811000 :: u32) 24 23 = 1" "get_bits (0xE0811000 :: u32) 11 7 = 0" "get_bits (0xE0811000 :: u32) 6 5 = 0"
    "get_bits (0xE0811000 :: u32) 3 0 = 0" "get_bit (0xE0811000 :: u32) 20 = 0" by code_simp+
  have r: "arm_read_register 0 p1 = Inr v0" "arm_read_register 1 p1 = Inr v1"
    using p1(3,5) assms(2,3) by (simp_all add: arm_read_register_raw)
  have "operator_reference 4 v1 v0 c = v1 + v0" for c
    by (simp add: operator_reference_def add_with_carry_plus)
  then obtain p' where "apply_operator 0xE0811000 v0 (ucast (get_bit (arm_read_cpsr p) C_bit))
      (get_bit 0xE0811000 20) (arm_read_cpsr p) p1 = Inr (0, p')"
    "advances p p' [1 \<mapsto> v1 + v0] (a + 4) 1 []"
    using operator_advances [OF p1(1,4), of 1 "0xE0811000" v1 "v1 + v0" v0
        "ucast (get_bit (arm_read_cpsr p) C_bit)" "get_bit 0xE0811000 20"] r p1(2) f(4)
    unfolding f(1-3) by auto
  moreover from this(1) have "arm_fetch_code_inst 0xE0811000 (arm_read_cpsr p) p1 = Inr (0, p')"
    using f(5-10) r by (simp add: arm_fetch_code_inst_def arm_data_processing_immediate_shift_def
      get_shifter_operand_immediate_shift_def Let_def)
  ultimately show ?thesis using p1(6) by blast
qed

lemma step_subs_r0:
  assumes "about_to a 0xE2500001 p" "raw p 0 (cur_mode p) = Inr v0"
  shows "\<exists>p'. arm_step p = Inr (0, p') \<and> advances p p' [0 \<mapsto> v0 - 1] (a + 4) 1 []
    \<and> (bit (arm_read_cpsr p') Z_bit \<longleftrightarrow> v0 = 1)"
proof -
  obtain p1 where "arm_fetch p = Inr (Some 0xE2500001, p1)" and p1: "advances p p1 Map.empty (a + 4) 1 []"
    "arm_read_cpsr p1 = arm_read_cpsr p" "cur_mode p1 = cur_mode p" "cur_mode p1 \<noteq> FIQ"
    "\<And>j mode. raw p1 j mode = (if j = PC then Inr (a + 4) else raw p j mode)"
    "\<And>p'. arm_fetch_code_inst 0xE2500001 (arm_read_cpsr p) p1 = Inr (0, p') \<Longrightarrow> arm_step p = Inr (0, p')"
    by (rule step_executes [OF assms(1)], rule that)
  have f: "unat (get_bits 0xE2500001 15 12) = 0" "unat (get_bits 0xE2500001 19 16) = 0"
    "unat (get_bits 0xE2500001 24 21) = 2" "\<not> comparison (get_bits 0xE2500001 24 21)"
    "get_bits (0xE2500001 :: u32) 27 25 = 1" "get_bits (0xE2500001 :: u32) 24 23 = 0"
    "get_bit (0xE2500001 :: u32) 20 \<noteq> 0" "get_bits (0xE2500001 :: u32) 7 0 = 1" "get_bits (0xE2500001 :: u32) 11 8 = 0"
    "flag_kind 2 = 2" "get_bits (0xE2500001 :: u32) 24 21 = 2" by code_simp+
  have r: "arm_read_register 0 p1 = Inr v0"
    using p1(3,5) assms(2) by (simp add: arm_read_register_raw)
  have "word_rotr 0 (1 :: u32) = 1" by code_simp
  then have ror: "ror h 1 0 = 1" for h by (simp add: ror_word_rotr)
  have "operator_reference 2 v0 1 c = v0 - 1" for c
    by (simp add: operator_reference_def add_with_carry_plus)
  then obtain p' where p': "apply_operator 0xE2500001 1 (ucast (get_bit (arm_read_cpsr p) C_bit))
      (get_bit 0xE2500001 20) (arm_read_cpsr p) p1 = Inr (0, p')"
    "advances p p' [0 \<mapsto> v0 - 1] (a + 4) 1 []"
    "arm_read_cpsr p' = update_flags 2 (ucast (v0 - 1)) v0 1 (ucast (get_bit (arm_read_cpsr p) C_bit)) 2 (arm_read_cpsr p)"
    using operator_advances [OF p1(1,4), of 0 "0xE2500001" v0 "v0 - 1" 1 "ucast (get_bit (arm_read_cpsr p) C_bit)" "get_bit 0xE2500001 20"] r p1(2) f(4,7)
    unfolding f(1-3,10,11) by auto
  moreover from this(1) have "arm_fetch_code_inst 0xE2500001 (arm_read_cpsr p) p1 = Inr (0, p')"
    using f by (simp add: arm_fetch_code_inst_def arm_data_processing_immediate_def ror Let_def)
  moreover have "bit (arm_read_cpsr p') Z_bit \<longleftrightarrow> v0 = 1"
    unfolding p'(3) by (simp add: update_flags_def overflowFrom_def Let_def bit_overflow_flag bit_borrowFrom bit_set_zn widened)
  ultimately show ?thesis using p1(6) by blast
qed

text \<open>A branch, with or without link.\<close>

lemma step_branches:
  assumes "about_to a inst p" "get_bits inst 27 25 = 5" "4 dvd unat a" "unat a + 8 < 2 ^ 32"
  shows "\<exists>p'. arm_step p = Inr (0, p') \<and> arm_read_cpsr p' = arm_read_cpsr p
    \<and> advances p p' (if bit inst 24 then [LR \<mapsto> a + 4] else Map.empty) (a + 8 + branch_offset inst) 1 []"
proof -
  obtain p1 where "arm_fetch p = Inr (Some inst, p1)" and p1: "advances p p1 Map.empty (a + 4) 1 []"
    "arm_read_cpsr p1 = arm_read_cpsr p" "cur_mode p1 = cur_mode p" "cur_mode p1 \<noteq> FIQ"
    "\<And>j mode. raw p1 j mode = (if j = PC then Inr (a + 4) else raw p j mode)"
    "\<And>p'. arm_fetch_code_inst inst (arm_read_cpsr p) p1 = Inr (0, p') \<Longrightarrow> arm_step p = Inr (0, p')"
    by (rule step_executes [OF assms(1)], rule that)
  have pc: "(a + 4 + 4) AND 0xFFFFFFFD = a + 8" using pc_plus_8 [OF assms(3,4)] by (simp add: add.assoc)
  obtain p' where p': "arm_branch inst p1 = Inr (0, p')" "wf_sim p'" "arm_read_cpsr p' = arm_read_cpsr p1"
    "mem p' = mem p1" "cycle_count p' = cycle_count p1" "stdout p' = stdout p1" "stdin p' = stdin p1"
    "\<forall>j < 18. raw p' j (cur_mode p1) = (if j = PC then Inr (a + 8 + branch_offset inst)
       else if j = LR \<and> bit inst 24 then Inr (a + 8 - 4) else raw p1 j (cur_mode p1))"
    using arm_branch_effect [of p1 "a + 4" inst] advancesD(1) [OF p1(1)] p1(4,5) unfolding pc by auto
  have "a + 8 - 4 = a + 4" by simp
  then have "advances p p' (if bit inst 24 then [LR \<mapsto> a + 4] else Map.empty) (a + 8 + branch_offset inst) 1 []"
    using p' p1(1,3,5) by (auto simp: advances_def cur_mode_def)
  moreover have "arm_step p = Inr (0, p')"
    using p1(6) p'(1) assms(2) by (simp add: arm_fetch_code_inst_def Let_def)
  ultimately show ?thesis using p'(3) p1(2) by metis
qed

lemma step_bne_loops:
  assumes "wf_sim p" "cur_mode p \<noteq> FIQ" "raw p PC (cur_mode p) = Inr a" "inside (mem p) a 4"
    "arm_read_word a p = Inr (Some 0x1AFFFFFC)" "4 dvd unat a" "unat a + 8 < 2 ^ 32"
  shows "\<exists>p'. arm_step p = Inr (0, p')
    \<and> advances p p' Map.empty (if bit (arm_read_cpsr p) Z_bit then a + 4 else a - 8) 1 []"
proof -
  have ne: "get_bits (0x1AFFFFFC :: u32) 31 28 = NE" "get_bits (0x1AFFFFFC :: u32) 27 25 = 5" 
    "branch_offset 0x1AFFFFFC = - 16" "\<not> bit (0x1AFFFFFC :: u32) 24" by code_simp+
  have cond: "flag_cond NE c \<longleftrightarrow> \<not> bit c Z_bit" for c
    by (simp add: flag_cond_def Let_def get_bit_if)
  show ?thesis
  proof (cases "bit (arm_read_cpsr p) Z_bit")
    case True
    then have n: "\<not> flag_cond (get_bits 0x1AFFFFFC 31 28) (arm_read_cpsr p)" by (simp add: ne cond)
    obtain p1 where "arm_fetch p = Inr (Some 0x1AFFFFFC, p1)" "wf_sim p1" "arm_read_cpsr p1 = arm_read_cpsr p"
      "mem p1 = mem p" "cycle_count p1 = cycle_count p + 1" "stdout p1 = stdout p" "stdin p1 = stdin p"
      "\<And>j mode. raw p1 j mode = (if j = PC then Inr (a + 4) else raw p j mode)"
      using fetch_inside [OF assms(1,3,4,5)] by blast
    then show ?thesis using n True
      by (intro exI [of _ p1]) (simp add: arm_step_def arm_execute_instruction_def advances_def cur_mode_def)
  next
    case False
    then have "about_to a 0x1AFFFFFC p" using assms by (simp add: about_to_def ne cond)
    then show ?thesis
      using step_branches [of a "0x1AFFFFFC" p] assms(6,7) False by (auto simp: ne)
  qed
qed

section \<open>Runs under the debugger\<close>

text \<open>Steps without exception that end off the addresses \<open>B\<close>.\<close>

definition quiet :: "u32 set \<Rightarrow> sim \<Rightarrow> sim \<Rightarrow> bool" where
  "quiet B p p' \<longleftrightarrow> arm_step p = Inr (0, p') \<and> (\<exists>pc. raw p' PC (cur_mode p') = Inr pc \<and> pc \<notin> B)"

lemma quiet_advances:
  "arm_step p = Inr (0, p') \<Longrightarrow> advances p p' regs pc n out \<Longrightarrow> pc \<notin> B \<Longrightarrow> quiet B p p'"
  using advancesD by (fastforce simp: quiet_def)

definition states_traced :: "gdb_protocol_data \<Rightarrow> bool" where
  "states_traced g \<longleftrightarrow> enabled (trace g) \<and> trace_flags (trace g) AND STATE \<noteq> 0"

lemma single_step_untraced:
  assumes "arm_step (arm g) = Inr (rc, p')" "\<not> states_traced g"
  shows "single_step g = Inr (g\<lparr>arm := p', target_exception := rc\<rparr>)"
proof -
  have "trace_arm_state h r (trace g) = Inr (trace g)" for h r
    using assms(2) by (auto simp: trace_arm_state_def states_traced_def)
  then show ?thesis by (simp add: single_step_def assms(1))
qed

lemma cont_stop_at:
  assumes "wf_table g" "raw (arm g) PC (cur_mode (arm g)) = Inr pc"
  shows "cont_stop g = Inr (pc \<in> breakpoint_set g \<or> target_exception g \<noteq> 0)"
proof -
  have r: "registers_read (sim_host (arm g)) (reg (arm g)) 15 (registers_get_mode (reg (arm g))) = Inr pc"
    using assms(2) by (simp add: raw_def registers_get_mode_cur)
  show ?thesis
    using gdb_find_breakpoint_correct [OF assms(1), of pc]
    by cases (simp_all add: cont_stop_def r)
qed

lemma with_arm [simp]:
  "wf_table (g\<lparr>arm := p, target_exception := e\<rparr>) = wf_table g"
  "breakpoint_set (g\<lparr>arm := p, target_exception := e\<rparr>) = breakpoint_set g"
  "states_traced (g\<lparr>arm := p, target_exception := e\<rparr>) = states_traced g"
  by (simp_all add: wf_table_def active_def breakpoint_set_def states_traced_def)

lemma quiet_continues:
  assumes "quiet (breakpoint_set g) (arm g) p'" "wf_table g" "\<not> states_traced g"
  shows "continues g (g\<lparr>arm := p', target_exception := 0\<rparr>)"
proof -
  obtain pc where pc: "arm_step (arm g) = Inr (0, p')" "raw p' PC (cur_mode p') = Inr pc"
    "pc \<notin> breakpoint_set g"
    using assms(1) by (auto simp: quiet_def)
  show ?thesis
    using single_step_untraced [OF pc(1) assms(3)]
      cont_stop_at [of "g\<lparr>arm := p', target_exception := 0\<rparr>" pc] pc(2,3) assms(2)
    by (auto simp: continues_iff)
qed

lemma quiet_runs:
  assumes "(quiet (breakpoint_set g))\<^sup>*\<^sup>* (arm g) p'" "wf_table g" "\<not> states_traced g"
  shows "\<exists>e. continues\<^sup>*\<^sup>* g (g\<lparr>arm := p', target_exception := e\<rparr>)"
  using assms(1)
proof (induction rule: rtranclp_induct)
  case base
  show ?case by (intro exI [of _ "target_exception g"]) simp
next
  case (step p p')
  then obtain e where "continues\<^sup>*\<^sup>* g (g\<lparr>arm := p, target_exception := e\<rparr>)" by blast
  moreover have "continues (g\<lparr>arm := p, target_exception := e\<rparr>) (g\<lparr>arm := p', target_exception := 0\<rparr>)"
    using quiet_continues [of "g\<lparr>arm := p, target_exception := e\<rparr>" p'] step.hyps(2) assms(2,3) by simp
  ultimately show ?case by (metis rtranclp.rtrancl_into_rtrancl)
qed

lemma cont_until_exception:
  assumes "(quiet (breakpoint_set g))\<^sup>*\<^sup>* (arm g) p" "arm_step p = Inr (rc, p')" "rc \<noteq> 0"
    "raw p' PC (cur_mode p') = Inr pc" "wf_table g" "\<not> states_traced g"
  shows "cont g data = Some (gdb_send_stop_reason (g\<lparr>arm := p', target_exception := rc\<rparr>))"
proof -
  obtain e where e: "continues\<^sup>*\<^sup>* g (g\<lparr>arm := p, target_exception := e\<rparr>)"
    using quiet_runs [OF assms(1,5,6)] by blast
  let ?g = "g\<lparr>arm := p', target_exception := rc\<rparr>"
  have "halts (g\<lparr>arm := p, target_exception := e\<rparr>) (Inr ?g)"
    using single_step_untraced [of "g\<lparr>arm := p, target_exception := e\<rparr>" rc p'] assms(2-6)
      cont_stop_at [of ?g pc]
    by (intro halts.stop) simp_all
  then have "cont_loop g = Some (Inr ?g)"
    using cont_loop_run [OF e] cont_loop_halts by simp
  then show ?thesis by (simp add: cont_def)
qed

section \<open>A program with a loop\<close>

text \<open>
  \<^verbatim>\<open>add r1, r1, r0; subs r0, r0, #1; bne .-8; swi 0x123456\<close>: the numbers from \<^verbatim>\<open>r0\<close> down to 1 are
  added to \<^verbatim>\<open>r1\<close>, then the simulation ends.
\<close>

definition summing :: "u32 list" where
  "summing = [0xE0811000, 0xE2500001, 0x1AFFFFFC, 0xEF123456]"

definition loaded :: "u32 \<Rightarrow> u32 list \<Rightarrow> sim \<Rightarrow> bool" where
  "loaded a code p \<longleftrightarrow> (\<forall>i < length code. inside (mem p) (a + of_nat (4 * i)) 4
     \<and> arm_read_word (a + of_nat (4 * i)) p = Inr (Some (code ! i)))"

lemma loaded_nth:
  "loaded a code p \<Longrightarrow> i < length code \<Longrightarrow> k = of_nat (4 * i) \<Longrightarrow> inside (mem p) (a + k) 4
    \<and> arm_read_word (a + k) p = Inr (Some (code ! i))"
  by (simp add: loaded_def)

lemma loaded_mem: "loaded a code p \<Longrightarrow> mem p' = mem p \<Longrightarrow> loaded a code p'"
  by (simp add: loaded_def arm_read_word_def)

lemma summing_pass:
  assumes "loaded a summing p" "wf_sim p" "cur_mode p \<noteq> FIQ" "raw p PC (cur_mode p) = Inr a"
    "raw p 0 (cur_mode p) = Inr v0" "raw p 1 (cur_mode p) = Inr v1"
    "4 dvd unat a" "unat a + 16 < 2 ^ 32" "{a, a + 4, a + 8, a + 12} \<inter> B = {}"
  shows "\<exists>p'. (quiet B)\<^sup>*\<^sup>* p p'
    \<and> advances p p' [1 \<mapsto> v1 + v0, 0 \<mapsto> v0 - 1] (if v0 = 1 then a + 12 else a) 3 []"
proof -
  have code: "inside (mem p) a 4 \<and> arm_read_word a p = Inr (Some 0xE0811000)"
    "inside (mem p) (a + 4) 4 \<and> arm_read_word (a + 4) p = Inr (Some 0xE2500001)"
    "inside (mem p) (a + 8) 4 \<and> arm_read_word (a + 8) p = Inr (Some 0x1AFFFFFC)"
    using loaded_nth [OF assms(1), of 0 0] loaded_nth [OF assms(1), of 1 4]
      loaded_nth [OF assms(1), of 2 8] by (simp_all add: summing_def)
  have u: "unat (a + 8) = unat a + 8" using unat_add_no_wrap [of a 8] assms(8) by simp
  have al: "flag_cond (get_bits 0xE0811000 31 28) c" "flag_cond (get_bits 0xE2500001 31 28) c" for c
  proof -
    have "get_bits (0xE0811000 :: u32) 31 28 = AL" "get_bits (0xE2500001 :: u32) 31 28 = AL"
      by code_simp+
    then show "flag_cond (get_bits 0xE0811000 31 28) c" "flag_cond (get_bits 0xE2500001 31 28) c"
      by (simp_all add: flag_cond_def Let_def)
  qed
  obtain p1 where p1: "arm_step p = Inr (0, p1)" "advances p p1 [1 \<mapsto> v1 + v0] (a + 4) 1 []"
    using step_add_r1_r0 [of a p v0 v1] assms(2-6) code(1) al by (auto simp: about_to_def)
  note d1 = advancesD [OF p1(2)]
  have r0: "raw p1 0 (cur_mode p1) = Inr v0"
    using advances_register [OF p1(2), of 0] assms(5) d1(2) by simp
  obtain p2 where p2: "arm_step p1 = Inr (0, p2)" "advances p1 p2 [0 \<mapsto> v0 - 1] (a + 4 + 4) 1 []"
    "bit (arm_read_cpsr p2) Z_bit \<longleftrightarrow> v0 = 1"
    using step_subs_r0 [of "a + 4" p1 v0] d1 assms(3) code(2) al r0
    by (auto simp: about_to_def arm_read_word_def)
  note d2 = advancesD [OF p2(2)]
  have "4 dvd unat (a + 8)" using u assms(7) by simp
  then obtain p3 where p3: "arm_step p2 = Inr (0, p3)"
    "advances p2 p3 Map.empty (if v0 = 1 then a + 8 + 4 else a + 8 - 8) 1 []"
    using step_bne_loops [of p2 "a + 8"] d1 d2 assms(3,8) code(3) u p2(3)
    by (auto simp: arm_read_word_def add.assoc)
  have "advances p p3 ([1 \<mapsto> v1 + v0] ++ [0 \<mapsto> v0 - 1] ++ Map.empty) (if v0 = 1 then a + 8 + 4 else a + 8 - 8)
      (1 + 1 + 1) ([] @ [] @ [])"
    using advances_trans [OF advances_trans [OF p1(2) p2(2)] p3(2)] by simp
  then have "advances p p3 [1 \<mapsto> v1 + v0, 0 \<mapsto> v0 - 1] (if v0 = 1 then a + 12 else a) 3 []"
    by (auto simp: add.assoc split: if_splits)
  moreover have "quiet B p p1" "quiet B p1 p2" "quiet B p2 p3"
    using quiet_advances [OF p1] quiet_advances [OF p2(1,2)] quiet_advances [OF p3] assms(9)
    by (auto simp: add.assoc)
  ultimately show ?thesis by (intro exI [of _ p3]) (auto intro: rtranclp_trans)
qed

lemma summing_loop:
  assumes "loaded a summing p" "wf_sim p" "cur_mode p \<noteq> FIQ" "raw p PC (cur_mode p) = Inr a"
    "raw p 0 (cur_mode p) = Inr (of_nat n)" "raw p 1 (cur_mode p) = Inr s" "1 \<le> n" "n \<le> 2 ^ 32"
    "4 dvd unat a" "unat a + 16 < 2 ^ 32" "{a, a + 4, a + 8, a + 12} \<inter> B = {}"
  shows "\<exists>p'. (quiet B)\<^sup>*\<^sup>* p p'
    \<and> advances p p' [1 \<mapsto> s + of_nat (n * (n + 1) div 2), 0 \<mapsto> 0] (a + 12) (of_nat (3 * n)) []"
  using assms(1-8)
proof (induction n arbitrary: p s)
  case (Suc n)
  obtain p1 where p1: "(quiet B)\<^sup>*\<^sup>* p p1"
    "advances p p1 [1 \<mapsto> s + of_nat (Suc n), 0 \<mapsto> of_nat (Suc n) - 1] (if (of_nat (Suc n) :: u32) = 1 then a + 12 else a) 3 []"
    using summing_pass [OF Suc.prems(1-6) assms(9-11)] by blast
  note d = advancesD [OF p1(2)]
  have last: "(of_nat (Suc n) :: u32) = 1 \<longleftrightarrow> n = 0"
  proof -
    have "(of_nat (Suc n) :: u32) = 1 \<longleftrightarrow> (of_nat n :: u32) = 0" by simp
    also have "\<dots> \<longleftrightarrow> unat (of_nat n :: u32) = 0" by (simp add: unat_eq_0)
    also have "unat (of_nat n :: u32) = n" using Suc.prems(8) by (simp add: unsigned_of_nat take_bit_nat_eq_self)
    finally show ?thesis .
  qed
  show ?case
  proof (cases "n = 0")
    case True
    have "advances p p1 [1 \<mapsto> s + 1, 0 \<mapsto> 0] (a + 12) 3 []" using p1(2) last True by simp
    then have "advances p p1 [1 \<mapsto> s + of_nat (Suc n * (Suc n + 1) div 2), 0 \<mapsto> 0] (a + 12)
        (of_nat (3 * Suc n)) []"
      by (simp add: True)
    with p1(1) show ?thesis by blast
  next
    case False
    have s: "s + of_nat (Suc n * (Suc n + 1) div 2) = s + of_nat (Suc n) + (of_nat (n * (n + 1) div 2) :: u32)"
    proof -
      have "Suc n * (Suc n + 1) div 2 = Suc n + n * (n + 1) div 2"
        by (simp add: algebra_simps)
      then show ?thesis by (simp only: of_nat_add add.assoc)
    qed
    have r: "raw p1 0 (cur_mode p1) = Inr (of_nat n)" "raw p1 1 (cur_mode p1) = Inr (s + of_nat (Suc n))"
      using advances_register [OF p1(2)] d(2) by simp_all
    have c: "cur_mode p1 \<noteq> FIQ" and n: "1 \<le> n" "n \<le> 2 ^ 32" using Suc.prems(3,8) d(2) False by auto
    have pc: "raw p1 PC (cur_mode p1) = Inr a" using d(2,4) last False by simp
    obtain p2 where p2: "(quiet B)\<^sup>*\<^sup>* p1 p2" "advances p1 p2
        [1 \<mapsto> s + of_nat (Suc n) + of_nat (n * (n + 1) div 2), 0 \<mapsto> 0] (a + 12) (of_nat (3 * n)) []"
      using Suc.IH [OF loaded_mem [OF Suc.prems(1) d(3)] d(1) c pc r n] by blast
    have m: "[1 \<mapsto> x, 0 \<mapsto> y] ++ [1 \<mapsto> x', 0 \<mapsto> y'] = [1 \<mapsto> x', 0 \<mapsto> y']" for x y x' y' :: u32
      by (auto simp: fun_eq_iff map_add_def)
    have t: "3 + of_nat (3 * n) = (of_nat (3 * Suc n) :: u32)" by simp
    have "advances p p2 [1 \<mapsto> s + of_nat (Suc n * (Suc n + 1) div 2), 0 \<mapsto> 0] (a + 12) (of_nat (3 * Suc n)) []"
      using advances_trans [OF p1(2) p2(2)] unfolding s m t by (simp only: append_Nil)
    then show ?thesis using p1(1) p2(1) by (meson rtranclp_trans)
  qed
qed simp

lemma step_ends:
  assumes "about_to a 0xEF123456 p" "4 dvd unat a" "unat a + 8 < 2 ^ 32"
  shows "\<exists>p'. arm_step p = Inr (int END_SIMULATION, p') \<and> advances p p' Map.empty (a + 4) 1 []"
proof -
  note h = assms(1) [unfolded about_to_def]
  have f: "get_bits (0xEF123456 :: u32) 27 24 = 15" "(0xEF123456 :: u32) AND 0xFFFFFF = 0x123456" by code_simp+
  obtain p1 where p1: "arm_fetch p = Inr (Some 0xEF123456, p1)" "advances p p1 Map.empty (a + 4) 1 []"
    "arm_read_cpsr p1 = arm_read_cpsr p" "cur_mode p1 = cur_mode p" "cur_mode p1 \<noteq> FIQ"
    "\<And>j mode. raw p1 j mode = (if j = PC then Inr (a + 4) else raw p j mode)"
    "\<And>p'. arm_fetch_code_inst 0xEF123456 (arm_read_cpsr p) p1 = Inr (0, p') \<Longrightarrow> arm_step p = Inr (0, p')"
    by (rule step_executes [OF assms(1)], rule that)
  have "arm_step p = software_interrupt SOFTWARE_INTERRUPT 0x123456 p1"
    using step_serves_interrupt [of p a "0xEF123456"] h p1(1) assms(2,3) f by auto
  then show ?thesis using p1(2) by (simp add: software_interrupt_def)
qed

text \<open>C13: A continue command runs a program to its end: from the first instruction of the summing loop with
  any number of rounds between 1 and 2^32 in r0 the debugger gets the report of a normal end, the sum
  modulo 2^32 is in r1, r0 is 0, every other register and the memory are as before, and the cycle
  counter has grown by one for each instruction executed.\<close>

theorem continue_runs_program:
  assumes "wf_gdb gdb" "loaded a summing (arm gdb)" "cur_mode (arm gdb) \<noteq> FIQ" "\<not> states_traced gdb"
    "raw (arm gdb) PC (cur_mode (arm gdb)) = Inr a" "4 dvd unat a" "unat a + 20 < 2 ^ 32"
    "raw (arm gdb) 0 (cur_mode (arm gdb)) = Inr (of_nat n)" "1 \<le> n" "n \<le> 2 ^ 32"
    "raw (arm gdb) 1 (cur_mode (arm gdb)) = Inr s"
    "{a, a + 4, a + 8, a + 12} \<inter> breakpoint_set gdb = {}"
  shows "\<exists>g. cont gdb data = Some (Inr g) \<and> wf_gdb g \<and> sent g = sent gdb @ frame ''X05''
    \<and> advances (arm gdb) (arm g) [1 \<mapsto> s + of_nat (n * (n + 1) div 2), 0 \<mapsto> 0] (a + 16)
        (of_nat (3 * n + 1)) []"
proof -
  let ?p = "arm gdb"
  have w: "wf_sim ?p" "wf_table gdb" using assms(1) by (simp_all add: wf_gdb_def)
  obtain p1 where p1: "(quiet (breakpoint_set gdb))\<^sup>*\<^sup>* ?p p1"
    "advances ?p p1 [1 \<mapsto> s + of_nat (n * (n + 1) div 2), 0 \<mapsto> 0] (a + 12) (of_nat (3 * n)) []"
    using summing_loop [OF assms(2) w(1) assms(3,5,8,11,9,10,6) _ assms(12)] assms(7) by auto
  note d = advancesD [OF p1(2)]
  have u: "unat (a + 12) = unat a + 12" using unat_add_no_wrap [of a 12] assms(7) by simp
  have "get_bits (0xEF123456 :: u32) 31 28 = AL" by code_simp
  then have "flag_cond (get_bits 0xEF123456 31 28) c" for c by (simp add: flag_cond_def Let_def)
  moreover have "inside (mem p1) (a + 12) 4 \<and> arm_read_word (a + 12) p1 = Inr (Some 0xEF123456)"
    using loaded_nth [OF loaded_mem [OF assms(2) d(3)], of 3 12] by (simp add: summing_def)
  ultimately have "about_to (a + 12) 0xEF123456 p1"
    using d assms(3) by (simp add: about_to_def)
  then obtain p2 where p2: "arm_step p1 = Inr (int END_SIMULATION, p2)"
    "advances p1 p2 Map.empty (a + 16) 1 []"
    using step_ends [of "a + 12" p1] u assms(6,7) by (auto simp: add.assoc)
  note d2 = advancesD [OF p2(2)]
  have t: "of_nat (3 * n) + 1 = (of_nat (3 * n + 1) :: u32)" by simp
  have run: "advances ?p p2 [1 \<mapsto> s + of_nat (n * (n + 1) div 2), 0 \<mapsto> 0] (a + 16) (of_nat (3 * n + 1)) []"
    using advances_trans [OF p1(2) p2(2)] unfolding t by (simp only: map_add_empty append_Nil)
  let ?g = "gdb\<lparr>arm := p2, target_exception := int END_SIMULATION\<rparr>"
  have c: "cont gdb data = Some (gdb_send_stop_reason ?g)"
    using cont_until_exception [OF p1(1) p2(1) _ _ w(2) assms(4)] d2(2,4) by simp
  have "wf_gdb ?g" using assms(1) d2(1) by (simp add: wf_gdb_def)
  then obtain g where "gdb_send_data ?g ''X05'' = Inr g" "sent g = sent gdb @ frame ''X05''" "wf_gdb g"
    "arm g = p2"
    using gdb_send_data_reply [of ?g "''X05''"] by (auto simp: MAX_PACKET_SIZE_def)
  with c run show ?thesis by (auto simp: gdb_send_stop_reason_def)
qed

definition summing_bytes :: "u8 list" where
  "summing_bytes = [0xE0, 0x81, 0x10, 0, 0xE2, 0x50, 0, 1, 0x1A, 0xFF, 0xFF, 0xFC, 0xEF, 0x12, 0x34, 0x56]"

theorem continue_runs_program_witness:
  "\<exists>g. cont (demo_gdb summing_bytes) [] = Some (Inr g) \<and> sent g = frame ''X05''
    \<and> raw (arm g) 1 SVC = Inr 0x80000000 \<and> cycle_count (arm g) = 1"
proof -
  let ?p = "demo_sim summing_bytes"
  have l: "length summing_bytes = 16" by (simp add: summing_bytes_def)
  have r: "raw ?p i SVC = Inr 0" if "i \<in> {0, 1, PC}" for i
    by (rule raw_demo_sim [where k = 0]) (use that l in \<open>auto simp: cell_def\<close>)
  have "loaded 0 summing ?p"
    unfolding loaded_def arm_read_word_def demo_sim_simps by code_simp
  moreover have z: "(of_nat (2 ^ 32) :: u32) = 0" by simp
  ultimately obtain g where g: "cont (demo_gdb summing_bytes) [] = Some (Inr g)" "sent g = frame ''X05''"
    "advances ?p (arm g) [1 \<mapsto> 0 + of_nat (2 ^ 32 * (2 ^ 32 + 1) div 2), 0 \<mapsto> 0] (0 + 16)
       (of_nat (3 * 2 ^ 32 + 1)) []"
    using continue_runs_program [of "demo_gdb summing_bytes" 0 "2 ^ 32" 0 "[]"]
      wf_demo_gdb [of summing_bytes] r l unfolding z
    by (auto simp only: demo_gdb_simps demo_sim_simps states_traced_def trace_initial_def breakpoint_set_def active_def) auto
  have "raw (arm g) 1 SVC = Inr 0x80000000"
    using advances_register [OF g(3), of 1] by (simp add: demo_sim_simps)
  moreover have "cycle_count (arm g) = 1" using advancesD(6) [OF g(3)] by (simp add: demo_sim_simps)
  ultimately show ?thesis using g by blast
qed

section \<open>The routines the guest programs call\<close>

text \<open>
  The routines of \<^verbatim>\<open>my_syscalls.s\<close>, assembled: a software interrupt followed by \<^verbatim>\<open>mov pc, lr\<close>, and
  the return from an interrupt, \<^verbatim>\<open>subs pc, r14, #4\<close>.
\<close>

definition my_exit :: "u32 list" where "my_exit = [0xEF123456]"
definition my_putchar :: "u32 list" where "my_putchar = [0xEF000001, 0xE1A0F00E]"
definition my_printint :: "u32 list" where "my_printint = [0xEF000002, 0xE1A0F00E]"
definition my_printstr :: "u32 list" where "my_printstr = [0xEF000003, 0xE1A0F00E]"
definition my_scanfint :: "u32 list" where "my_scanfint = [0xEF000004, 0xE1A0F00E]"
definition acquitter_irq :: "u32 list" where "acquitter_irq = [0xE25EF004]"

lemma step_mov_pc_lr:
  assumes "about_to a 0xE1A0F00E p" "raw p LR (cur_mode p) = Inr lr"
  shows "\<exists>p'. arm_step p = Inr (0, p') \<and> advances p p' Map.empty lr 1 [] \<and> arm_read_cpsr p' = arm_read_cpsr p"
proof -
  obtain p1 where "arm_fetch p = Inr (Some 0xE1A0F00E, p1)" and p1: "advances p p1 Map.empty (a + 4) 1 []"
    "arm_read_cpsr p1 = arm_read_cpsr p" "cur_mode p1 = cur_mode p" "cur_mode p1 \<noteq> FIQ"
    "\<And>j mode. raw p1 j mode = (if j = PC then Inr (a + 4) else raw p j mode)"
    "\<And>p'. arm_fetch_code_inst 0xE1A0F00E (arm_read_cpsr p) p1 = Inr (0, p') \<Longrightarrow> arm_step p = Inr (0, p')"
    by (rule step_executes [OF assms(1)], rule that)
  note d = advancesD [OF p1(1)]
  let ?c = "arm_read_cpsr p"
  have f: "unat (get_bits 0xE1A0F00E 15 12) = 15" "unat (get_bits 0xE1A0F00E 19 16) = 0"
    "unat (get_bits 0xE1A0F00E 24 21) = 13" "\<not> comparison (get_bits 0xE1A0F00E 24 21)"
    "get_bits (0xE1A0F00E :: u32) 27 25 = 0" "get_bit (0xE1A0F00E :: u32) 4 = 0"
    "get_bits (0xE1A0F00E :: u32) 24 23 = 3" "get_bits (0xE1A0F00E :: u32) 11 7 = 0"
    "get_bits (0xE1A0F00E :: u32) 6 5 = 0" "unat (get_bits (0xE1A0F00E :: u32) 3 0) = 14"
    "get_bit (0xE1A0F00E :: u32) 20 = 0" by code_simp+
  have mov: "operator_reference 13 x lr b = lr" for x b by (simp add: operator_reference_def)
  obtain r0 where r0: "raw p1 0 (cur_mode p1) = Inr r0" "arm_read_register 0 p1 = Inr r0"
    using arm_read_register_total [of p1 0] d(1) by auto
  have r: "arm_read_register 14 p1 = Inr lr"
    using p1(3,5) assms(2) by (simp add: arm_read_register_raw)
  obtain p' where p': "apply_operator 0xE1A0F00E lr (ucast (get_bit ?c C_bit)) (get_bit 0xE1A0F00E 20) ?c p1 = Inr (0, p')" "wf_sim p'"
    "mem p' = mem p1" "cycle_count p' = cycle_count p1" "stdout p' = stdout p1" "stdin p' = stdin p1"
    "\<And>j mode. j < 18 \<Longrightarrow> j \<noteq> CPSR \<Longrightarrow> raw p' j mode =
       (if j = PC \<and> cell j mode = cell PC (cur_mode p1) then Inr lr else raw p1 j mode)"
    "arm_read_cpsr p' = arm_read_cpsr p1"
    using apply_operator_runs [of p1 "0xE1A0F00E" r0 "get_bit 0xE1A0F00E 20" ?c ?c lr
        "ucast (get_bit ?c C_bit)"] d(1) p1(4) r0(2) f(4,11)
    unfolding f(1-3) mov Let_def by auto
  have "arm_fetch_code_inst 0xE1A0F00E ?c p1 = Inr (0, p')"
    using f(5-10) r p'(1) by (simp add: arm_fetch_code_inst_def arm_data_processing_immediate_shift_def
      get_shifter_operand_immediate_shift_def Let_def)
  moreover have "advances p p' Map.empty lr 1 []"
    using p' p1(1,3) p1(2) by (auto simp: advances_def cur_mode_def cell_def)
  ultimately show ?thesis using p1(2,6) p'(8) by auto
qed

lemma stdout_update_raw [simp]:
  "raw (p\<lparr>stdout := s\<rparr>) i mode = raw p i mode" "arm_read_cpsr (p\<lparr>stdout := s\<rparr>) = arm_read_cpsr p"
  "cur_mode (p\<lparr>stdout := s\<rparr>) = cur_mode p" "wf_sim (p\<lparr>stdout := s\<rparr>) = wf_sim p"
  by (simp_all add: raw_def arm_read_cpsr_def cur_mode_def wf_sim_def)

text \<open>The services of the simulator that leave the registers alone: they write \<open>out\<close>.\<close>

definition serves :: "u32 \<Rightarrow> sim \<Rightarrow> string \<Rightarrow> bool" where
  "serves k p out \<longleftrightarrow> software_interrupt SOFTWARE_INTERRUPT k p = Inr (0, p\<lparr>stdout := stdout p @ out\<rparr>)"

lemma step_serves:
  assumes "about_to a inst p" "get_bits inst 27 24 = 15" "4 dvd unat a" "unat a + 8 < 2 ^ 32"
    "\<And>p1. arm_fetch p = Inr (Some inst, p1) \<Longrightarrow> serves (inst AND 0xFFFFFF) p1 out"
  shows "\<exists>p'. arm_step p = Inr (0, p') \<and> advances p p' Map.empty (a + 4) 1 out \<and> arm_read_cpsr p' = arm_read_cpsr p"
proof -
  note h = assms(1) [unfolded about_to_def]
  obtain p1 where p1: "arm_fetch p = Inr (Some inst, p1)" "advances p p1 Map.empty (a + 4) 1 []"
    "arm_read_cpsr p1 = arm_read_cpsr p" "cur_mode p1 = cur_mode p" "cur_mode p1 \<noteq> FIQ"
    "\<And>j mode. raw p1 j mode = (if j = PC then Inr (a + 4) else raw p j mode)"
    "\<And>p'. arm_fetch_code_inst inst (arm_read_cpsr p) p1 = Inr (0, p') \<Longrightarrow> arm_step p = Inr (0, p')"
    by (rule step_executes [OF assms(1)], rule that)
  have "arm_step p = software_interrupt SOFTWARE_INTERRUPT (inst AND 0xFFFFFF) p1"
    using step_serves_interrupt [of p a inst] h p1(1) assms(2-4) by auto
  then have "arm_step p = Inr (0, p1\<lparr>stdout := stdout p1 @ out\<rparr>)"
    using assms(5) [OF p1(1)] by (simp add: serves_def)
  moreover have "advances p (p1\<lparr>stdout := stdout p1 @ out\<rparr>) Map.empty (a + 4) 1 out"
    using p1(2) by (simp add: advances_def)
  ultimately show ?thesis using p1(3) by auto
qed

text \<open>The two routines: the call of the simulator and the return.\<close>

lemma routine_code:
  assumes "code = my_putchar \<and> out = [char_of (unat (ucast v :: u8))] \<or> code = my_printint \<and> out = format_d v"
  obtains k where "code = [k, 0xE1A0F00E]" "get_bits k 27 24 = 15" "get_bits k 31 28 = AL"
    "\<And>q. raw q 0 (cur_mode q) = Inr v \<Longrightarrow> serves (k AND 0xFFFFFF) q out"
proof -
  have f: "get_bits (0xEF000001 :: u32) 27 24 = 15" "get_bits (0xEF000002 :: u32) 27 24 = 15"
    "get_bits (0xEF000001 :: u32) 31 28 = AL" "get_bits (0xEF000002 :: u32) 31 28 = AL"
    "(0xEF000001 :: u32) AND 0xFFFFFF = 1" "(0xEF000002 :: u32) AND 0xFFFFFF = 2" by code_simp+
  from assms show thesis
    by (elim disjE conjE; intro that)
      (simp_all only: my_putchar_def my_printint_def f,
       simp_all only: f, simp_all add: serves_def software_interrupt_def arm_read_register_raw)
qed

lemma step_serves_register:
  assumes "about_to f k p" "get_bits k 27 24 = 15" "4 dvd unat f" "unat f + 12 < 2 ^ 32"
    "raw p 0 (cur_mode p) = Inr v" "\<And>q. raw q 0 (cur_mode q) = Inr v \<Longrightarrow> serves (k AND 0xFFFFFF) q out"
  shows "\<exists>p'. arm_step p = Inr (0, p') \<and> advances p p' Map.empty (f + 4) 1 out \<and> arm_read_cpsr p' = arm_read_cpsr p"
proof (rule step_serves [OF assms(1-3)])
  fix q assume q: "arm_fetch p = Inr (Some k, q)"
  obtain q' where "arm_fetch p = Inr (Some k, q')" "cur_mode q' = cur_mode p"
    "\<And>j mode. raw q' j mode = (if j = PC then Inr (f + 4) else raw p j mode)"
    by (rule step_executes [OF assms(1)], rule that)
  then show "serves (k AND 0xFFFFFF) q out" using q assms(5) by (intro assms(6)) auto
qed (use assms(4) in simp)

text \<open>C15: A guest program that calls \<^verbatim>\<open>my_putchar\<close> or \<^verbatim>\<open>my_printint\<close> with a branch with link gets back
  behind the branch after three instructions: the character or the decimal number in r0 has been
  printed, LR holds the return address, and no other register, no flag and no memory has changed.\<close>

theorem routine_prints_and_returns:
  assumes "about_to a bl p" "get_bits bl 27 25 = 5" "bit bl 24" "a + 8 + branch_offset bl = f"
    "code = my_putchar \<and> out = [char_of (unat (ucast v :: u8))] \<or> code = my_printint \<and> out = format_d v"
    "loaded f code p" "raw p 0 (cur_mode p) = Inr v"
    "4 dvd unat a" "unat a + 8 < 2 ^ 32" "4 dvd unat f" "unat f + 12 < 2 ^ 32"
  shows "\<exists>p1 p2 p3. arm_step p = Inr (0, p1) \<and> arm_step p1 = Inr (0, p2) \<and> arm_step p2 = Inr (0, p3)
    \<and> advances p p3 [LR \<mapsto> a + 4] (a + 4) 3 out \<and> arm_read_cpsr p3 = arm_read_cpsr p"
proof -
  note h = assms(1) [unfolded about_to_def]
  obtain k where k: "code = [k, 0xE1A0F00E]" "get_bits k 27 24 = 15" "get_bits k 31 28 = AL"
    "\<And>q. raw q 0 (cur_mode q) = Inr v \<Longrightarrow> serves (k AND 0xFFFFFF) q out" by (rule routine_code [OF assms(5)], rule that)
  have al: "flag_cond AL c" for c by (simp add: flag_cond_def Let_def)
  obtain p1 where p1: "arm_step p = Inr (0, p1)" "arm_read_cpsr p1 = arm_read_cpsr p"
    "advances p p1 [LR \<mapsto> a + 4] f 1 []"
    using step_branches [OF assms(1,2,8,9)] assms(3,4) by auto
  note d1 = advancesD [OF p1(3)]
  have l: "inside (mem p) f 4 \<and> arm_read_word f p = Inr (Some k)"
    "inside (mem p) (f + 4) 4 \<and> arm_read_word (f + 4) p = Inr (Some 0xE1A0F00E)"
    using loaded_nth [OF assms(6), of 0 0] loaded_nth [OF assms(6), of 1 4] by (simp_all add: k(1))
  have a1: "about_to f k p1"
    using d1 h l(1) k(3) al by (simp add: about_to_def arm_read_word_def)
  have r1: "raw p1 0 (cur_mode p1) = Inr v"
    using advances_register [OF p1(3), of 0] assms(7) d1(2) by simp
  obtain p2 where p2: "arm_step p1 = Inr (0, p2)" "advances p1 p2 Map.empty (f + 4) 1 out"
    "arm_read_cpsr p2 = arm_read_cpsr p1"
    using step_serves_register [OF a1 k(2) assms(10,11) r1 k(4)] by blast
  note d2 = advancesD [OF p2(2)]
  have "about_to (f + 4) 0xE1A0F00E p2"
  proof -
    have "get_bits (0xE1A0F00E :: u32) 31 28 = AL" by code_simp
    then show ?thesis using d1 d2 h l(2) al by (simp add: about_to_def arm_read_word_def)
  qed
  moreover have "raw p2 LR (cur_mode p2) = Inr (a + 4)"
    using advances_register [OF p2(2), of LR] advances_register [OF p1(3), of LR] d1(2) d2(2) by simp
  ultimately obtain p3 where p3: "arm_step p2 = Inr (0, p3)" "advances p2 p3 Map.empty (a + 4) 1 []"
    "arm_read_cpsr p3 = arm_read_cpsr p2"
    using step_mov_pc_lr by blast
  have "advances p p3 [LR \<mapsto> a + 4] (a + 4) 3 out"
    using advances_trans [OF advances_trans [OF p1(3) p2(2)] p3(2)] by simp
  then show ?thesis using p1 p2 p3 by metis
qed

section \<open>Interrupts\<close>

lemma status_after_return:
  assumes "n < 32"
  shows "bit (update_flags 2 (ucast (lr - 4)) lr 4 carry op_SUB c) n =
    (if n = N_bit \<or> n = C_bit then sint (lr - 4) < 0 else if n = Z_bit then lr = 4
     else if n = V_bit then sint (lr - 4) \<noteq> sint lr - 4 else bit c n)"
proof -
  have four: "sint (4 :: u32) = 4" by simp
  have neg: "sint w < 0 \<longleftrightarrow> bit w 31" for w :: u32
    using bit_last_iff [of w] by simp
  have ov: "overflowFrom lr 4 op_SUB c = overflow_flag (sint (lr - 4) \<noteq> sint lr - 4) c" for c
  proof -
    have "ucast (get_bit (ucast (lr - 4) :: u64) 31) = (get_bit (lr - 4) 31 :: u32)"
      by (simp add: get_bit_if widened(3))
    then show ?thesis
      using sub_overflow [of lr 4]
      by (auto simp: overflowFrom_def Let_def get_bit_eq_iff four)
  qed
  show ?thesis
    by (auto simp: update_flags_def Let_def ov bit_overflow_flag bit_borrowFrom bit_set_zn widened neg)
qed

text \<open>The instruction of \<^verbatim>\<open>acquitter_irq\<close>, \<^verbatim>\<open>subs pc, lr, #4\<close>, in a mode with a saved status.\<close>

lemma step_subs_pc_lr:
  assumes "about_to a 0xE25EF004 q" "arm_read_register LR q = Inr l" "raw q SPSR (cur_mode q) = Inr c"
    "registers_mode_has_spsr (cur_mode q)"
  shows "\<exists>r x. arm_step q = Inr (0, r) \<and> wf_sim r \<and> mem r = mem q \<and> stdout r = stdout q \<and> stdin r = stdin q
    \<and> (\<forall>j < 18. j \<noteq> CPSR \<longrightarrow> (\<forall>mode. raw r j mode = (if j = PC then Inr (l - 4) else raw q j mode)))
    \<and> arm_read_cpsr r = update_flags 2 (ucast (l - 4)) l 4 x op_SUB c"
proof -
  let ?c = "arm_read_cpsr q" and ?w = "0xE25EF004 :: u32"
  obtain q1 where "arm_fetch q = Inr (Some ?w, q1)" and q1: "advances q q1 Map.empty (a + 4) 1 []"
    "arm_read_cpsr q1 = ?c" "cur_mode q1 = cur_mode q" "cur_mode q1 \<noteq> FIQ"
    "\<And>j mode. raw q1 j mode = (if j = PC then Inr (a + 4) else raw q j mode)"
    "\<And>p'. arm_fetch_code_inst ?w ?c q1 = Inr (0, p') \<Longrightarrow> arm_step q = Inr (0, p')"
    by (rule step_executes [OF assms(1)], rule that)
  note d = advancesD [OF q1(1)]
  have f: "unat (get_bits ?w 15 12) = 15" "unat (get_bits ?w 19 16) = 14"
    "unat (get_bits ?w 24 21) = 2" "\<not> comparison (get_bits ?w 24 21)" "get_bits ?w 24 21 = 2" "flag_kind 2 = 2"
    "get_bits ?w 27 25 = 1" "get_bits ?w 24 23 = 0" "get_bits ?w 7 0 = 4" "get_bits ?w 11 8 = 0"
    "get_bit ?w 20 \<noteq> 0" "\<not> comparison 2" by code_simp+
  have sub: "operator_reference 2 l 4 b = l - 4" for b
    by (simp add: operator_reference_def add_with_carry_plus)
  have two: "unat (2 :: u32) = 2" by simp
  have "word_rotr 0 (4 :: u32) = 4" by code_simp
  then have ror: "ror hst 4 0 = 4" for hst by (simp add: ror_word_rotr)
  have r: "arm_read_register LR q1 = Inr l" using assms(2) q1(3,5) by (simp add: arm_read_register_raw)
  have spsr: "registers_mode_has_spsr (cur_mode q1)" "raw q1 SPSR (cur_mode q1) = Inr c"
    using q1(3,5) assms(3,4) by simp_all
  obtain r where r': "apply_operator ?w 4 (ucast (get_bit ?c C_bit)) (get_bit ?w 20) ?c q1 = Inr (0, r)" "wf_sim r"
    "mem r = mem q1" "cycle_count r = cycle_count q1" "stdout r = stdout q1" "stdin r = stdin q1"
    "\<And>j mode. j < 18 \<Longrightarrow> j \<noteq> CPSR \<Longrightarrow> raw r j mode =
       (if j = PC \<and> cell j mode = cell PC (cur_mode q1) then Inr (l - 4) else raw q1 j mode)"
    "arm_read_cpsr r = update_flags 2 (ucast (l - 4)) l 4 (ucast (get_bit ?c C_bit)) 2 c"
    using apply_operator_runs [of q1 ?w l "get_bit ?w 20" ?c c 4 "ucast (get_bit ?c C_bit)"] d(1) q1(4) r spsr f(11,12)
    unfolding f(1,2) f(5,6) two sub Let_def by auto
  have "arm_fetch_code_inst ?w ?c q1 = Inr (0, r)"
    using f(7-11) r'(1) by (simp add: arm_fetch_code_inst_def arm_data_processing_immediate_def ror Let_def)
  then have "arm_step q = Inr (0, r)" by (rule q1(6))
  then show ?thesis using r' d q1(5) by (intro exI [of _ r] exI) (auto simp: cell_def)
qed

lemma sint_plus_4: "unat pc + 4 < 2 ^ 31 \<Longrightarrow> \<not> sint pc < 0 \<and> sint (pc + 4) = sint pc + 4" for pc :: u32
proof -
  assume small: "unat pc + 4 < 2 ^ 31"
  have u: "unat (pc + 4) = unat pc + 4" using unat_add_no_wrap [of pc 4] small by simp
  obtain k where k: "unat pc = k" by blast
  have i: "uint pc = int k" "uint (pc + 4) = int k + 4"
    by (simp_all only: uint_nat u k of_nat_add of_nat_numeral)
  then have "\<not> bit pc 31" "\<not> bit (pc + 4) 31" using small k by (simp_all add: sign_bit)
  then have "sint pc = int k" "sint (pc + 4) = int k + 4"
    using i by (simp_all add: sint_split)
  then show ?thesis by simp
qed

text \<open>C14: The return from an interrupt. A handler that leaves LR and the saved status of IRQ mode as the
  entry set them, and ends with the instruction of \<^verbatim>\<open>acquitter_irq\<close>, brings the interrupted program
  back to the very instruction it had not executed yet, in its mode, with the register banks and the
  memory the handler left; the 28 low bits of the status register are those of the interrupted
  program, but its flags are lost: they become those of the subtraction of 4 from LR.\<close>

theorem interrupt_return:
  assumes "wf_sim p" "cur_mode p \<noteq> FIQ" "\<not> bit (arm_read_cpsr p) 7"
    "raw p PC (cur_mode p) = Inr pc" "4 dvd unat pc" "unat pc + 4 < 2 ^ 31"
    "arm_exception INTERRUPT p = Inr (int INTERRUPT, p1)"
    "about_to a 0xE25EF004 q" "cur_mode q = IRQ" "raw q LR IRQ = raw p1 LR IRQ" "raw q SPSR IRQ = raw p1 SPSR IRQ"
  shows "\<exists>r. arm_step q = Inr (0, r) \<and> wf_sim r \<and> cur_mode r = cur_mode p
    \<and> (\<forall>mode. raw r PC mode = Inr pc)
    \<and> (\<forall>j < 18. j \<noteq> PC \<and> j \<noteq> CPSR \<longrightarrow> (\<forall>mode. raw r j mode = raw q j mode))
    \<and> mem r = mem q \<and> stdout r = stdout q \<and> stdin r = stdin q
    \<and> (\<forall>n < 32. bit (arm_read_cpsr r) n =
         (if n = Z_bit then pc = 0 else n \<notin> {N_bit, C_bit, V_bit} \<and> bit (arm_read_cpsr p) n))"
proof -
  obtain sp where "raw p SP (cur_mode p) = Inr sp"
    using arm_read_register_total [OF assms(1), of SP] assms(2) by auto
  from irq_entry_effect [OF assms(1-4) this] assms(7)
  have e: "raw p1 LR IRQ = Inr ((pc + 4) AND 0xFFFFFFFD)" "raw p1 SPSR IRQ = Inr (arm_read_cpsr p)"
    by auto
  have "unat (pc + 4) = unat pc + 4" using unat_add_no_wrap [of pc 4] assms(6) by simp
  then have lr: "(pc + 4) AND 0xFFFFFFFD = pc + 4" using assms(5) by (intro aligned_mask) simp
  have q: "arm_read_register LR q = Inr (pc + 4)" "raw q SPSR (cur_mode q) = Inr (arm_read_cpsr p)"
    using assms(9-11) e lr by (simp_all add: arm_read_register_raw)
  obtain r x where r: "arm_step q = Inr (0, r)" "wf_sim r" "mem r = mem q" "stdout r = stdout q" "stdin r = stdin q"
    "\<forall>j < 18. j \<noteq> CPSR \<longrightarrow> (\<forall>mode. raw r j mode = (if j = PC then Inr pc else raw q j mode))"
    "arm_read_cpsr r = update_flags 2 (ucast pc) (pc + 4) 4 x op_SUB (arm_read_cpsr p)"
    using step_subs_pc_lr [OF assms(8) q] assms(9) by (auto simp: registers_mode_has_spsr_def get_read_write_mode_def)
  have "bit (arm_read_cpsr r) n =
     (if n = Z_bit then pc = 0 else n \<notin> {N_bit, C_bit, V_bit} \<and> bit (arm_read_cpsr p) n)" if "n < 32" for n
    using status_after_return [OF that, of "pc + 4" _ "arm_read_cpsr p"] sint_plus_4 [OF assms(6)] unfolding r(7) by simp
  moreover have "cur_mode r = cur_mode p" using r(7) by (simp add: cur_mode_def)
  ultimately show ?thesis using r by (intro exI [of _ r]) auto
qed

theorem routine_prints_and_returns_witness:
  "\<exists>p1 p2 p3. arm_step (demo_sim [0xEB, 0, 0, 0, 0, 0, 0, 0, 0xEF, 0, 0, 2, 0xE1, 0xA0, 0xF0, 0x0E]) = Inr (0, p1)
    \<and> arm_step p1 = Inr (0, p2) \<and> arm_step p2 = Inr (0, p3) \<and> stdout p3 = ''0'' \<and> raw p3 PC SVC = Inr 4"
proof -
  let ?p = "demo_sim [0xEB, 0, 0, 0, 0, 0, 0, 0, 0xEF, 0, 0, 2, 0xE1, 0xA0, 0xF0, 0x0E]"
  have r: "raw ?p i SVC = Inr 0" if "i \<in> {0, PC}" for i
    by (rule raw_demo_sim [where k = 0]) (use that in \<open>auto simp: cell_def\<close>)
  have "inside (mem ?p) 0 4" by (simp add: demo_sim_simps inside_def)
  moreover have "arm_read_word 0 ?p = Inr (Some 0xEB000000)"
    by (simp add: arm_read_word_def demo_sim_simps) code_simp
  moreover have "flag_cond (get_bits 0xEB000000 31 28) 0x153" by code_simp
  ultimately have "about_to 0 0xEB000000 ?p"
    using wf_demo_sim [of "[0xEB, 0, 0, 0, 0, 0, 0, 0, 0xEF, 0, 0, 2, 0xE1, 0xA0, 0xF0, 0x0E]"] r
    by (simp add: about_to_def demo_sim_simps)
  moreover have "loaded 8 my_printint ?p"
    unfolding loaded_def arm_read_word_def demo_sim_simps by code_simp
  moreover have "get_bits 0xEB000000 27 25 = 5" "bit (0xEB000000 :: u32) 24" "0 + 8 + branch_offset 0xEB000000 = 8"
    "format_d 0 = ''0''" by code_simp+
  ultimately obtain p1 p2 p3 where p: "arm_step ?p = Inr (0, p1)" "arm_step p1 = Inr (0, p2)" "arm_step p2 = Inr (0, p3)"
    "advances ?p p3 [LR \<mapsto> 0 + 4] (0 + 4) 3 ''0''"
    using routine_prints_and_returns [of 0 "0xEB000000" ?p 8 my_printint "''0''" 0] r
    by (auto simp: demo_sim_simps)
  then show ?thesis using advancesD(4,5) [OF p(4)] by (auto simp: demo_sim_simps)
qed

theorem interrupt_return_witness:
  "\<exists>p1 r. arm_exception INTERRUPT (demo_sim (replicate 20 0 @ [0xE2, 0x5E, 0xF0, 4])) = Inr (int INTERRUPT, p1)
    \<and> arm_step p1 = Inr (0, r) \<and> cur_mode r = SVC \<and> raw r PC SVC = Inr 0 \<and> bit (arm_read_cpsr r) Z_bit"
proof -
  let ?b = "replicate 20 0 @ [0xE2, 0x5E, 0xF0, 4]" and ?w = "0xE25EF004 :: u32"
  let ?p = "demo_sim ?b"
  have w: "wf_sim ?p" by (rule wf_demo_sim) simp
  have r: "raw ?p i SVC = Inr 0" if i: "i \<in> {SP, PC}" for i
  proof -
    obtain k where "cell i SVC = Inr k" using cell_low [of i SVC] i by auto
    then show ?thesis using i by (intro raw_demo_sim) auto
  qed
  have i: "\<not> bit (0x153 :: u32) 7" by simp
  obtain p1 where p1: "arm_exception INTERRUPT ?p = Inr (int INTERRUPT, p1)" "wf_sim p1" "cur_mode p1 = IRQ"
    "raw p1 PC IRQ = Inr 0x14" "mem p1 = mem ?p"
    using irq_entry_effect [of ?p 0 0] w r i by (auto simp: demo_sim_simps)
  have "get_bits ?w 31 28 = AL" by code_simp
  then have "flag_cond (get_bits ?w 31 28) c" for c by (simp add: flag_cond_def Let_def)
  moreover have "inside (mem ?p) 0x14 4" by (simp add: demo_sim_simps inside_def)
  moreover have "arm_read_word 0x14 ?p = Inr (Some ?w)"
    by (simp add: arm_read_word_def demo_sim_simps) code_simp
  ultimately have "about_to 0x14 ?w p1"
    using p1 by (simp add: about_to_def arm_read_word_def)
  then obtain r where "arm_step p1 = Inr (0, r)" "cur_mode r = SVC" "raw r PC SVC = Inr 0"
    "\<forall>n < 32. bit (arm_read_cpsr r) n = (if n = Z_bit then True else n \<notin> {N_bit, C_bit, V_bit} \<and> bit (0x153 :: u32) n)"
    using interrupt_return [of ?p 0 p1 "0x14" p1] w r i p1 by (auto simp: demo_sim_simps)
  then show ?thesis using p1(1) by auto
qed

end
