(* ===== verification/Unit_Tests.thy ===== *)
theory Unit_Tests
  imports Memory Registers Stdio
begin

text \<open>
  The test programs \<^verbatim>\<open>memory_test.c\<close> and \<^verbatim>\<open>registers_test.c\<close>, with what they print, and that they
  pass: what they test is a consequence of the models of the memory and of the registers. The
  messages on standard error are left out; releasing the memory at the end is part of \<open>Release\<close>.
\<close>

section \<open>memory_test.c\<close>

text \<open>The state of the test: the flag \<^verbatim>\<open>FAIL\<close>, what has been printed and the variables of
  \<^verbatim>\<open>main\<close> that reads assign, \<open>None\<close> as long as none has.\<close>

record test_state =
  FAIL :: nat
  printed :: string
  word_read :: "u32 option"
  half_read :: "u16 option"
  read_word_value :: "u32 option"
  read_half_value :: "u16 option"

definition printf_c :: "string \<Rightarrow> test_state \<Rightarrow> test_state" where
  "printf_c s t = t\<lparr>printed := printed t @ s\<rparr>"

definition assert_print :: "bool \<Rightarrow> test_state \<Rightarrow> test_state" where
  "assert_print result t =
     (if result then printf_c ([CHR 0x1B] @ ''[32mTEST PASSED'' @ [CHR 0x1B] @ ''[0m'' @ [CHR 0x0A]) t
      else (printf_c ([CHR 0x1B] @ ''[31mTEST FAILED'' @ [CHR 0x1B] @ ''[0m'' @ [CHR 0x0A]) t)\<lparr>FAIL := 1\<rparr>)"

text \<open>
  The objects \<^verbatim>\<open>a\<close> and \<^verbatim>\<open>b\<close> point to are the bytes of their representation. \<open>j\<close> is an int, which
  is -1 after the last round of a reversed comparison.
\<close>

function compare_loop :: "u8 list \<Rightarrow> u8 list \<Rightarrow> nat \<Rightarrow> int \<Rightarrow> nat \<Rightarrow> int \<Rightarrow> bool res" where
  "compare_loop a b i j size' j_step =
     (if i < size' then
        bindR (load a i) (\<lambda>x.
        bindR (if j < 0 then Inl Out_Of_Bounds else load b (nat j)) (\<lambda>y.
        if x \<noteq> y then Inr False else compare_loop a b (i + 1) (j + j_step) size' j_step))
      else Inr True)"
  by pat_completeness auto
termination
  by (relation "measure (\<lambda>(a, b, i, j, size', j_step). size' - i)") auto

definition compare_objects :: "u8 list \<Rightarrow> u8 list \<Rightarrow> nat \<Rightarrow> bool \<Rightarrow> bool res" where
  "compare_objects a b size' reverse =
     (if reverse then compare_loop a b 0 (int size' - 1) size' (-1)
      else compare_loop a b 0 0 size' 1)"

text \<open>\<open>value\<close> is not initialised, \<open>None\<close>, until the first read that succeeds.\<close>

function compare_sim_loop ::
    "u8 list \<Rightarrow> memory \<Rightarrow> nat \<Rightarrow> int \<Rightarrow> nat \<Rightarrow> int \<Rightarrow> u8 option \<Rightarrow> bool res" where
  "compare_sim_loop a m i j size' j_step v =
     (if i < size' then
        bindR (memory_read_byte m (word_of_int j)) (\<lambda>r.
        let v = (case r of Some b \<Rightarrow> Some b | None \<Rightarrow> v) in
        bindR (load a i) (\<lambda>x.
        case v of
          None \<Rightarrow> Inl Uninitialised
        | Some y \<Rightarrow>
            if x \<noteq> y then Inr False else compare_sim_loop a m (i + 1) (j + j_step) size' j_step v))
      else Inr True)"
  by pat_completeness auto
termination
  by (relation "measure (\<lambda>(a, m, i, j, size', j_step, v). size' - i)") auto

definition compare_with_sim :: "u8 list \<Rightarrow> memory \<Rightarrow> nat \<Rightarrow> bool \<Rightarrow> bool res" where
  "compare_with_sim a m size' reverse =
     (if reverse then compare_sim_loop a m 0 (int size' - 1) size' (-1) None
      else compare_sim_loop a m 0 0 size' 1 None)"

declare compare_loop.simps [simp del] compare_sim_loop.simps [simp del]

definition object_bytes_2 :: "host \<Rightarrow> u16 \<Rightarrow> u8 list" where
  "object_bytes_2 h x =
     (let little = [ucast x, ucast (drop_bit 8 x)] in if host_big_endian h then rev little else little)"

text \<open>A variable after a read: a read that fails leaves it alone.\<close>

definition kept :: "'a option \<Rightarrow> 'a option \<Rightarrow> 'a option" where
  "kept r old = (case r of None \<Rightarrow> old | Some v \<Rightarrow> Some v)"

definition value_of :: "'a option \<Rightarrow> 'a res" where
  "value_of x = (case x of None \<Rightarrow> Inl Uninitialised | Some v \<Rightarrow> Inr v)"

fun write_bytes :: "nat list \<Rightarrow> u8 list \<Rightarrow> memory \<Rightarrow> memory res" where
  "write_bytes [] bs m = Inr m"
| "write_bytes (i # is) bs m =
     bindR (load bs i) (\<lambda>b. bindR (memory_write_byte m (of_nat i) b) (\<lambda>(rc, m). write_bytes is bs m))"

text \<open>One test of each kind: the value read against the object, against the memory, and writes.\<close>

definition check_word_read ::
    "host \<Rightarrow> u32 \<Rightarrow> memory \<Rightarrow> string \<Rightarrow> bool \<Rightarrow> bool \<Rightarrow> test_state \<Rightarrow> test_state res" where
  "check_word_read h v m label e reverse t =
     (let t = printf_c label t in
      bindR (memory_read_word m 0 e) (\<lambda>r.
      let t = t\<lparr>word_read := kept r (word_read t)\<rparr> in
      bindR (value_of (word_read t)) (\<lambda>w.
      bindR (compare_objects (object_bytes h v) (object_bytes h w) 4 reverse) (\<lambda>ok.
      Inr (assert_print ok t)))))"

definition check_half_read ::
    "host \<Rightarrow> u32 \<Rightarrow> memory \<Rightarrow> string \<Rightarrow> bool \<Rightarrow> bool \<Rightarrow> test_state \<Rightarrow> test_state res" where
  "check_half_read h v m label e reverse t =
     (let t = printf_c label t in
      bindR (memory_read_half m 0 e) (\<lambda>r.
      let t = t\<lparr>half_read := kept r (half_read t)\<rparr> in
      bindR (value_of (half_read t)) (\<lambda>w.
      bindR (compare_objects (object_bytes h v) (object_bytes_2 h w) 2 reverse) (\<lambda>ok.
      Inr (assert_print ok t)))))"

definition check_word_sim :: "host \<Rightarrow> memory \<Rightarrow> string \<Rightarrow> bool \<Rightarrow> bool \<Rightarrow> test_state \<Rightarrow> test_state res" where
  "check_word_sim h m label e reverse t =
     (let t = printf_c label t in
      bindR (memory_read_word m 0 e) (\<lambda>r.
      let t = t\<lparr>read_word_value := kept r (read_word_value t)\<rparr> in
      bindR (value_of (read_word_value t)) (\<lambda>w.
      bindR (compare_with_sim (object_bytes h w) m 4 reverse) (\<lambda>ok.
      Inr (assert_print ok t)))))"

definition check_half_sim :: "host \<Rightarrow> memory \<Rightarrow> string \<Rightarrow> bool \<Rightarrow> bool \<Rightarrow> test_state \<Rightarrow> test_state res" where
  "check_half_sim h m label e reverse t =
     (let t = printf_c label t in
      bindR (memory_read_half m 0 e) (\<lambda>r.
      let t = t\<lparr>read_half_value := kept r (read_half_value t)\<rparr> in
      bindR (value_of (read_half_value t)) (\<lambda>w.
      bindR (compare_with_sim (object_bytes_2 h w) m 2 reverse) (\<lambda>ok.
      Inr (assert_print ok t)))))"

definition check_word_write ::
    "host \<Rightarrow> u32 \<Rightarrow> string \<Rightarrow> bool \<Rightarrow> bool \<Rightarrow> memory \<times> test_state \<Rightarrow> (memory \<times> test_state) res" where
  "check_word_write h v label e reverse = (\<lambda>(m, t).
     let t = printf_c label t in
     bindR (memory_write_word m 0 v e) (\<lambda>(rc, m).
     bindR (compare_with_sim (object_bytes h v) m 4 reverse) (\<lambda>ok.
     Inr (m, assert_print ok t))))"

definition check_half_write ::
    "host \<Rightarrow> u16 \<Rightarrow> string \<Rightarrow> bool \<Rightarrow> bool \<Rightarrow> memory \<times> test_state \<Rightarrow> (memory \<times> test_state) res" where
  "check_half_write h v label e reverse = (\<lambda>(m, t).
     let t = printf_c label t in
     bindR (memory_write_half m 0 v e) (\<lambda>(rc, m).
     bindR (compare_with_sim (object_bytes_2 h v) m 2 reverse) (\<lambda>ok.
     Inr (m, assert_print ok t))))"

text \<open>The accesses behind the end, of which only the codes are tested.\<close>

definition test_invalid :: "u32 \<Rightarrow> u16 \<Rightarrow> bool \<Rightarrow> memory \<times> test_state \<Rightarrow> (memory \<times> test_state) res" where
  "test_invalid word_value half_value e = (\<lambda>(m, t).
     let INVALID_ADDRESS = of_nat (memory_get_size m) + 1;
         t = printf_c ''- word write to an invalid address, '' t
     in
     bindR (memory_write_word m INVALID_ADDRESS word_value e) (\<lambda>(rc, m).
     let t = printf_c ''- half write to an invalid address, '' (assert_print (rc = -1) t) in
     bindR (memory_write_half m INVALID_ADDRESS half_value e) (\<lambda>(rc, m).
     let t = printf_c ''- word read from an invalid address, '' (assert_print (rc = -1) t) in
     bindR (memory_read_word m INVALID_ADDRESS e) (\<lambda>r.
     let t = t\<lparr>word_read := kept r (word_read t)\<rparr>;
         t = printf_c ''- half read from an invalid address, '' (assert_print (r = None) t) in
     bindR (memory_read_half m INVALID_ADDRESS e) (\<lambda>r.
     let t = t\<lparr>half_read := kept r (half_read t)\<rparr> in
     Inr (m, assert_print (r = None) t))))))"

text \<open>The test, on the block the allocation gives: the code it returns and what it prints.\<close>

definition memory_test :: "host \<Rightarrow> bool \<Rightarrow> u8 list option \<Rightarrow> (nat \<times> string) res" where
  "memory_test h struct_ok block =
     (let word_value = 0x11223344; half_value = 0x5566;
          m = memory_create struct_ok block 4
      in
      if m = None then Inr (1, [])
      else if memory_get_size m \<noteq> 4 then Inl Assertion_Failed
      else
        let e = is_big_endian h;
            t = \<lparr>FAIL = 0, printed = [], word_read = None, half_read = None,
                  read_word_value = None, read_half_value = None\<rparr>;
            t = printf_c (''I'' @ [CHR 0x27] @ ''m a '' @ (if e then ''big'' else ''little'') @ '' endian host'' @ [CHR 0x0A]) t;
            t = printf_c (''Writing 4 bytes at address 0, then reading the word and half, ''
                  @ ''the result should depend on endianess of the access to the simulated memory :'' @ [CHR 0x0A]) t
        in
        bindR (write_bytes [0..<4] (object_bytes h word_value) m) (\<lambda>m.
        bindR (check_word_read h word_value m ''- word read with the same endianess as me, '' e False t) (\<lambda>t.
        bindR (check_half_read h word_value m ''- half read with the same endianess as me, '' e False t) (\<lambda>t.
        bindR (check_word_read h word_value m ''- word read with a different endianess than me, '' (\<not> e) True t) (\<lambda>t.
        bindR (check_half_read h word_value m ''- half read with a different endianess than me, '' (\<not> e) True t) (\<lambda>t.
        bindR (check_word_sim h m ''- word read with the same endianess as me, '' e False t) (\<lambda>t.
        bindR (check_half_sim h m [] e False t) (\<lambda>t.
        bindR (check_word_sim h m [] (\<not> e) True t) (\<lambda>t.
        bindR (check_half_sim h m [] (\<not> e) True t) (\<lambda>t.
        let t = printf_c (''Writing word and half at address 0, then reading the bytes, ''
                  @ ''the result should depend on simulated memory endianess :'' @ [CHR 0x0A]) t in
        bindR (check_word_write h word_value ''- word write with the same endianess as me, '' e False (m, t)) (\<lambda>mt.
        bindR (check_half_write h half_value ''- half write with the same endianess as me, '' e False mt) (\<lambda>mt.
        bindR (check_word_write h word_value ''- word write with a different endianess than me, '' (\<not> e) True mt) (\<lambda>mt.
        bindR (check_half_write h half_value ''- half write with a different endianess than me, '' (\<not> e) True mt) (\<lambda>mt.
        bindR (test_invalid word_value half_value e mt) (\<lambda>(m, t).
        Inr (FAIL t, printed t))))))))))))))))"


section \<open>The comparisons\<close>

lemma from_next: "i < n \<Longrightarrow> (\<forall>k < n. i \<le> k \<longrightarrow> P k) \<longleftrightarrow> P i \<and> (\<forall>k < n. Suc i \<le> k \<longrightarrow> P k)"
  by (auto simp: Suc_le_eq le_less)

lemma compare_loop_up:
  assumes "i \<le> n" "n \<le> length a" "n \<le> length b"
  shows "compare_loop a b i (int i) n 1 = Inr (\<forall>k < n. i \<le> k \<longrightarrow> a ! k = b ! k)"
  using assms
proof (induction "n - i" arbitrary: i)
  case 0
  then show ?case by (subst compare_loop.simps) auto
next
  case (Suc d)
  then have i: "i < n" "d = n - Suc i" by simp_all
  have j: "int i + 1 = int (Suc i)" by simp
  have "compare_loop a b (Suc i) (int i + 1) n 1 = Inr (\<forall>k < n. Suc i \<le> k \<longrightarrow> a ! k = b ! k)"
    unfolding j by (rule Suc.hyps(1)) (use i Suc.prems in auto)
  then show ?case
    using i Suc.prems by (subst compare_loop.simps) (simp add: from_next)
qed

lemma compare_loop_down:
  assumes "i \<le> n" "n \<le> length a" "n \<le> length b"
  shows "compare_loop a b i (int n - 1 - int i) n (-1) = Inr (\<forall>k < n. i \<le> k \<longrightarrow> a ! k = b ! (n - 1 - k))"
  using assms
proof (induction "n - i" arbitrary: i)
  case 0
  then show ?case by (subst compare_loop.simps) auto
next
  case (Suc d)
  then have i: "i < n" "d = n - Suc i" by simp_all
  have j: "int n - 1 - int i + - 1 = int n - 1 - int (Suc i)" "nat (int n - 1 - int i) = n - 1 - i"
    using i by simp_all
  have "compare_loop a b (Suc i) (int n - 1 - int i + - 1) n (-1) = Inr (\<forall>k < n. Suc i \<le> k \<longrightarrow> a ! k = b ! (n - 1 - k))"
    unfolding j by (rule Suc.hyps(1)) (use i Suc.prems in auto)
  then show ?case
    using i Suc.prems j(2) by (subst compare_loop.simps) (simp add: from_next)
qed

lemma compare_objects_eq:
  assumes "n \<le> length a" "n \<le> length b"
  shows "compare_objects a b n reverse = Inr (\<forall>k < n. a ! k = b ! (if reverse then n - 1 - k else k))"
  using compare_loop_up [of 0 n a b] compare_loop_down [of 0 n a b] assms
  by (simp add: compare_objects_def)

text \<open>Reading the bytes of the memory is comparing with its block.\<close>

lemma compare_sim_loop_memory:
  assumes "wf_memory (Some m)" "n \<le> length a" "n \<le> length (mdata m)"
    "\<forall>k. i \<le> k \<and> k < n \<longrightarrow> 0 \<le> j + js * (int k - int i) \<and> j + js * (int k - int i) < int n"
  shows "compare_sim_loop a (Some m) i j n js v = compare_loop a (mdata m) i j n js"
  using assms(4)
proof (induction "n - i" arbitrary: i j v)
  case 0
  then show ?case by (subst compare_loop.simps, subst compare_sim_loop.simps) simp
next
  case (Suc d)
  then have i: "i < n" "d = n - Suc i" by simp_all
  then have j: "0 \<le> j" "j < int n" using Suc.prems by auto
  have s: "msize m = length (mdata m)" "msize m < 2 ^ 32" using assms(1) by (simp_all add: wf_memory_def)
  have u: "unat (word_of_int j :: u32) = nat j"
    using j s assms(3) by (simp add: unat_eq_nat_uint uint_word_of_int take_bit_int_eq_self)
  have "memory_read_byte (Some m) (word_of_int j) = Inr (Some (mdata m ! nat j))"
    using j s assms(3) u by (simp add: memory_read_byte_def)
  moreover have "compare_sim_loop a (Some m) (Suc i) (j + js) n js (Some w)
      = compare_loop a (mdata m) (Suc i) (j + js) n js" for w
  proof (rule Suc.hyps(1))
    show "\<forall>k. Suc i \<le> k \<and> k < n \<longrightarrow> 0 \<le> j + js + js * (int k - int (Suc i))
      \<and> j + js + js * (int k - int (Suc i)) < int n"
    proof (intro allI impI)
      fix k assume k: "Suc i \<le> k \<and> k < n"
      have "j + js + js * (int k - int (Suc i)) = j + js * (int k - int i)" by (simp add: algebra_simps)
      with Suc.prems [rule_format, of k] k show "0 \<le> j + js + js * (int k - int (Suc i))
        \<and> j + js + js * (int k - int (Suc i)) < int n" by simp
    qed
  qed (use i in simp)
  ultimately show ?case
    using i j assms(2,3) by (subst compare_loop.simps, subst compare_sim_loop.simps) simp
qed

lemma compare_with_sim_eq:
  assumes "wf_memory (Some m)" "n \<le> length a" "n \<le> length (mdata m)"
  shows "compare_with_sim a (Some m) n reverse =
    Inr (\<forall>k < n. a ! k = mdata m ! (if reverse then n - 1 - k else k))"
proof -
  have "compare_sim_loop a (Some m) 0 0 n 1 None = compare_loop a (mdata m) 0 0 n 1"
    "compare_sim_loop a (Some m) 0 (int n - 1) n (- 1) None = compare_loop a (mdata m) 0 (int n - 1) n (- 1)"
    by (rule compare_sim_loop_memory [OF assms]; auto)+
  then show ?thesis
    using compare_objects_eq [OF assms(2,3), of reverse]
    by (cases reverse) (simp_all add: compare_with_sim_def compare_objects_def)
qed

section \<open>The test passes\<close>

definition block4 :: "u8 list \<Rightarrow> memory" where
  "block4 bs = Some \<lparr>msize = 4, mdata = bs\<rparr>"

lemma all_less_4: "(\<forall>k < 4. P k) \<longleftrightarrow> P 0 \<and> P 1 \<and> P 2 \<and> P (3 :: nat)"
  by (auto simp: numeral_eq_Suc less_Suc_eq)

lemma all_less_2: "(\<forall>k < 2. P k) \<longleftrightarrow> P 0 \<and> P (1 :: nat)"
  by (auto simp: numeral_eq_Suc less_Suc_eq)

lemma bytes_of_joins:
  "ucast (join_4 b3 b2 b1 b0) = b0" "ucast (drop_bit 8 (join_4 b3 b2 b1 b0)) = b1"
  "ucast (drop_bit 16 (join_4 b3 b2 b1 b0)) = b2" "ucast (drop_bit 24 (join_4 b3 b2 b1 b0)) = b3"
  "ucast (join_2 b1 b0) = b0" "ucast (drop_bit 8 (join_2 b1 b0)) = b1"
proof -
  show "ucast (join_4 b3 b2 b1 b0) = b0" "ucast (drop_bit 8 (join_4 b3 b2 b1 b0)) = b1"
    "ucast (drop_bit 16 (join_4 b3 b2 b1 b0)) = b2" "ucast (drop_bit 24 (join_4 b3 b2 b1 b0)) = b3"
    by (rule bit_word_eqI; auto simp: bit_join_4 bit_simps)+
  show "ucast (join_2 b1 b0) = b0" "ucast (drop_bit 8 (join_2 b1 b0)) = b1"
    by (rule bit_word_eqI; auto simp: join_2_def bit_simps dest: bit_imp_le_length)+
qed

lemma object_bytes_joins:
  "object_bytes h (join_4 b3 b2 b1 b0) = (if host_big_endian h then [b3, b2, b1, b0] else [b0, b1, b2, b3])"
  "object_bytes_2 h (join_2 b1 b0) = (if host_big_endian h then [b1, b0] else [b0, b1])"
  by (simp_all add: object_bytes_def object_bytes_2_def Let_def bytes_of_joins)

lemma block4_reads:
  "memory_read_word (block4 [x0, x1, x2, x3]) 0 e = Inr (Some (if e then join_4 x0 x1 x2 x3 else join_4 x3 x2 x1 x0))"
  "memory_read_half (block4 [x0, x1, x2, x3]) 0 e = Inr (Some (if e then join_2 x0 x1 else join_2 x1 x0))"
  by (simp_all add: block4_def read_word_inside read_half_inside inside_def wf_memory_def)

lemma compare_block4:
  "n \<le> length a \<Longrightarrow> n \<le> 4 \<Longrightarrow> compare_with_sim a (block4 [x0, x1, x2, x3]) n reverse =
    Inr (\<forall>k < n. a ! k = [x0, x1, x2, x3] ! (if reverse then n - 1 - k else k))"
  unfolding block4_def by (subst compare_with_sim_eq) (simp_all add: wf_memory_def)

lemma length_object_bytes [simp]: "length (object_bytes h v) = 4" "length (object_bytes_2 h w) = 2"
  by (simp_all add: object_bytes_def object_bytes_2_def Let_def)

lemma FAIL_print [simp]: "FAIL (printf_c s t) = FAIL t" "FAIL (assert_print True t) = FAIL t"
  by (simp_all add: printf_c_def assert_print_def)

lemma checks_pass:
  assumes "reverse \<longleftrightarrow> e \<noteq> host_big_endian h"
  shows "object_bytes h v = [x0, x1, x2, x3] \<Longrightarrow>
      \<exists>t'. check_word_read h v (block4 [x0, x1, x2, x3]) s e reverse t = Inr t' \<and> FAIL t' = FAIL t"
    and "object_bytes h v = [x0, x1, x2, x3] \<Longrightarrow>
      \<exists>t'. check_half_read h v (block4 [x0, x1, x2, x3]) s e reverse t = Inr t' \<and> FAIL t' = FAIL t"
    and "\<exists>t'. check_word_sim h (block4 [x0, x1, x2, x3]) s e reverse t = Inr t' \<and> FAIL t' = FAIL t"
    and "\<exists>t'. check_half_sim h (block4 [x0, x1, x2, x3]) s e reverse t = Inr t' \<and> FAIL t' = FAIL t"
  using assms
  by (auto simp: check_word_read_def check_half_read_def check_word_sim_def check_half_sim_def Let_def
      block4_reads kept_def value_of_def compare_objects_eq compare_block4 object_bytes_joins all_less_4 all_less_2)

lemma block4_writes:
  "memory_write_word (block4 [x0, x1, x2, x3]) 0 v e = Inr (0, block4 (bytes_4 v e))"
  "memory_write_half (block4 [x0, x1, x2, x3]) 0 w e = Inr (0, block4 (bytes_2 w e @ [x2, x3]))"
  by (auto simp: block4_def write_word_inside write_half_inside inside_def wf_memory_def
      bytes_4_def bytes_2_def Let_def)

lemma write_checks_pass:
  assumes "reverse \<longleftrightarrow> e \<noteq> host_big_endian h"
  shows "\<exists>y0 y1 y2 y3 t'. check_word_write h v s e reverse (block4 [x0, x1, x2, x3], t)
      = Inr (block4 [y0, y1, y2, y3], t') \<and> FAIL t' = FAIL t"
    and "\<exists>y0 y1 y2 y3 t'. check_half_write h w s e reverse (block4 [x0, x1, x2, x3], t)
      = Inr (block4 [y0, y1, y2, y3], t') \<and> FAIL t' = FAIL t"
  using assms
  by (auto simp: check_word_write_def check_half_write_def Let_def block4_writes bytes_4_def bytes_2_def
      compare_block4 all_less_4 all_less_2 object_bytes_def object_bytes_2_def)

lemma invalid_passes:
  "\<exists>m t'. test_invalid v w e (block4 [x0, x1, x2, x3], t) = Inr (m, t') \<and> FAIL t' = FAIL t"
proof -
  let ?m = "block4 [x0, x1, x2, x3]"
  have s: "memory_get_size ?m = 4" by (simp add: memory_get_size_def block4_def)
  have r: "memory_write_word ?m 5 v e = Inr (-1, ?m)" "memory_write_half ?m 5 w e = Inr (-1, ?m)"
    "memory_read_word ?m 5 e = Inr None" "memory_read_half ?m 5 e = Inr None"
    by (simp_all add: access_refused block4_def)
  show ?thesis
    by (simp add: test_invalid_def s r Let_def kept_def)
qed

lemma write_bytes_block4:
  "write_bytes [0..<4] [x0, x1, x2, x3] (block4 [b0, b1, b2, b3]) = Inr (block4 [x0, x1, x2, x3])"
proof -
  have "[0..<4] = [0, 1, 2, 3 :: nat]" by (simp add: upt_rec)
  then show ?thesis by (simp add: block4_def memory_write_byte_def)
qed

text \<open>Each check keeps the flag at 0.\<close>

definition passing :: "memory \<times> test_state \<Rightarrow> bool" where
  "passing mt \<longleftrightarrow> FAIL (snd mt) = 0 \<and> (\<exists>y0 y1 y2 y3. fst mt = block4 [y0, y1, y2, y3])"

lemma check_outcomes:
  assumes "object_bytes h v = bs" "length bs = 4" "FAIL t = 0" "reverse \<longleftrightarrow> e \<noteq> host_big_endian h"
  shows "outcome {} (\<lambda>t'. FAIL t' = 0) (check_word_read h v (block4 bs) s e reverse t)"
    and "outcome {} (\<lambda>t'. FAIL t' = 0) (check_half_read h v (block4 bs) s e reverse t)"
    and "outcome {} (\<lambda>t'. FAIL t' = 0) (check_word_sim h (block4 bs) s e reverse t)"
    and "outcome {} (\<lambda>t'. FAIL t' = 0) (check_half_sim h (block4 bs) s e reverse t)"
proof -
  obtain x0 x1 x2 x3 where x: "bs = [x0, x1, x2, x3]"
    using assms(2) by (auto simp: numeral_eq_Suc length_Suc_conv)
  note p = checks_pass [OF assms(4)]
  show "outcome {} (\<lambda>t'. FAIL t' = 0) (check_word_read h v (block4 bs) s e reverse t)"
    using p(1) [of v x0 x1 x2 x3 s t] assms(1,3) unfolding x by (auto simp: outcome_Inr_iff)
  show "outcome {} (\<lambda>t'. FAIL t' = 0) (check_half_read h v (block4 bs) s e reverse t)"
    using p(2) [of v x0 x1 x2 x3 s t] assms(1,3) unfolding x by (auto simp: outcome_Inr_iff)
  show "outcome {} (\<lambda>t'. FAIL t' = 0) (check_word_sim h (block4 bs) s e reverse t)"
    using p(3) [of x0 x1 x2 x3 s t] assms(3) unfolding x by (auto simp: outcome_Inr_iff)
  show "outcome {} (\<lambda>t'. FAIL t' = 0) (check_half_sim h (block4 bs) s e reverse t)"
    using p(4) [of x0 x1 x2 x3 s t] assms(3) unfolding x by (auto simp: outcome_Inr_iff)
qed

lemma write_outcomes:
  assumes "passing mt" "reverse \<longleftrightarrow> e \<noteq> host_big_endian h"
  shows "outcome {} passing (check_word_write h v s e reverse mt)"
    and "outcome {} passing (check_half_write h w s e reverse mt)"
proof -
  obtain t y0 y1 y2 y3 where mt: "mt = (block4 [y0, y1, y2, y3], t)" and t: "FAIL t = 0"
    using assms(1) by (cases mt) (auto simp: passing_def)
  show "outcome {} passing (check_word_write h v s e reverse mt)"
    using write_checks_pass(1) [OF assms(2), of v s y0 y1 y2 y3 t] t
    unfolding mt by (simp add: outcome_Inr_iff passing_def) blast
  show "outcome {} passing (check_half_write h w s e reverse mt)"
    using write_checks_pass(2) [OF assms(2), of w s y0 y1 y2 y3 t] t
    unfolding mt by (simp add: outcome_Inr_iff passing_def) blast
qed

lemma invalid_outcome:
  assumes "passing mt"
  shows "outcome {} (\<lambda>(m, t). FAIL t = 0) (test_invalid v w e mt)"
proof -
  obtain t y0 y1 y2 y3 where mt: "mt = (block4 [y0, y1, y2, y3], t)" and t: "FAIL t = 0"
    using assms by (cases mt) (auto simp: passing_def)
  show ?thesis
    using invalid_passes [of v w e y0 y1 y2 y3 t] t unfolding mt by (auto simp: outcome_Inr_iff)
qed

lemma passing_block4: "FAIL t = 0 \<Longrightarrow> passing (block4 [x0, x1, x2, x3], t)"
  by (simp add: passing_def) blast

lemma memory_test_returns_0:
  "(length block = 4 \<longrightarrow> (\<exists>out. memory_test h True (Some block) = Inr (0, out)))
    \<and> memory_test h False b = Inr (1, []) \<and> memory_test h True None = Inr (1, [])"
proof (intro conjI impI)
  assume "length block = 4"
  then obtain b0 b1 b2 b3 where b: "block = [b0, b1, b2, b3]"
    by (auto simp: numeral_eq_Suc length_Suc_conv)
  obtain x0 x1 x2 x3 where x: "object_bytes h 0x11223344 = [x0, x1, x2, x3]"
    using length_object_bytes(1) [of h "0x11223344"]
    by (auto simp: numeral_eq_Suc length_Suc_conv simp del: length_object_bytes)
  have e: "is_big_endian h = host_big_endian h" by (simp add: is_big_endian_host)
  have c: "memory_create True (Some block) 4 = block4 [b0, b1, b2, b3]"
    by (simp add: memory_create_def block4_def b)
  have n: "block4 bs \<noteq> None" "memory_get_size (block4 bs) = 4" for bs
    by (simp_all add: block4_def memory_get_size_def)
  have "outcome {} (\<lambda>(r, out). r = 0) (memory_test h True (Some block))"
    unfolding memory_test_def Let_def c e n x write_bytes_block4 bindR_simps
    apply (simp only: n simp_thms if_False)
    by (rule outcome_bindI, rule check_outcomes, rule x, simp, simp, simp)+
      (rule outcome_bindI, rule write_outcomes, (assumption | rule passing_block4, simp), simp,
       rule outcome_bindI, rule write_outcomes, assumption, simp,
       rule outcome_bindI, rule write_outcomes, assumption, simp,
       rule outcome_bindI, rule write_outcomes, assumption, simp,
       rule outcome_bindI, rule invalid_outcome, assumption, simp split: prod.splits)
  then show "\<exists>out. memory_test h True (Some block) = Inr (0, out)"
    by (auto simp: outcome_Inr_iff)
qed (simp_all add: memory_test_def memory_create_def Let_def)

section \<open>registers_test.c\<close>

text \<open>
  The test on the registers the constructor gives and on the 15 random values of the run: the code
  it returns and what it prints.
\<close>

fun write_all :: "host \<Rightarrow> nat list \<Rightarrow> nat \<Rightarrow> u32 list \<Rightarrow> registers \<Rightarrow> registers res" where
  "write_all h [] mode word_value r = Inr r"
| "write_all h (i # is) mode word_value r =
     bindR (load word_value i) (\<lambda>v.
     bindR (registers_write h r i mode v) (\<lambda>r. write_all h is mode word_value r))"

fun read_all :: "host \<Rightarrow> nat list \<Rightarrow> nat \<Rightarrow> u32 list \<Rightarrow> registers \<Rightarrow> string \<Rightarrow> (bool \<times> string) res" where
  "read_all h [] mode word_value r out = Inr (True, out)"
| "read_all h (i # is) mode word_value r out =
     bindR (registers_read h r i mode) (\<lambda>word_read.
     bindR (load word_value i) (\<lambda>v.
     let out = out @ ''- register '' @ format_d (of_nat i) @ '' : must have : '' @ format_d v
           @ '' and have '' @ format_d word_read @ '' (in mode  '' @ format_d (of_nat mode) @ '') '' in
     if word_read \<noteq> v then Inr (False, out)
     else read_all h is mode word_value r (out @ ''Test passed'' @ [CHR 0x0A])))"

definition passed :: string where
  "passed = ''Test passed'' @ [CHR 0x0A]"

definition test_banks :: "host \<Rightarrow> registers \<Rightarrow> string \<Rightarrow> (nat \<times> string) res" where
  "test_banks h r out =
     bindR (registers_read_spsr h r IRQ) (\<lambda>_.
     let out = out @ ''Test if pointer have the same destination : '' in
     bindR (registers_read h r 0 USR) (\<lambda>a. bindR (registers_read h r 0 IRQ) (\<lambda>b.
     if a \<noteq> b then Inr (1, out)
     else
       let out = out @ passed @ ''Test if pointer have differents destination : '' in
       bindR (registers_write h r 14 USR 0x10) (\<lambda>r.
       bindR (registers_write h r 14 IRQ 0x5) (\<lambda>r.
       bindR (registers_read h r 14 USR) (\<lambda>a. bindR (registers_read h r 14 IRQ) (\<lambda>b.
       if a = b then Inr (1, out)
       else
         let out = out @ passed in
         bindR (registers_read h r 15 USR) (\<lambda>a. bindR (registers_read h r 15 IRQ) (\<lambda>b.
         if a \<noteq> b then Inr (1, out)
         else Inr (0, out @ ''Free registers...'' @ [CHR 0x0A]))))))))))"

definition registers_test :: "host \<Rightarrow> registers option \<Rightarrow> u32 list \<Rightarrow> (nat \<times> string) res" where
  "registers_test h created word_value =
     (case created of
        None \<Rightarrow> Inr (1, [])
      | Some r \<Rightarrow>
          let out = ''Registers created'' @ [CHR 0x0A] @ ''Reseting registers...'' @ [CHR 0x0A];
              r = registers_write_cpsr r 0x110;
              mode = registers_get_mode r;
              out = out @ ''Testing read and write to general registers:'' @ [CHR 0x0A]
          in
          bindR (write_all h [0..<15] mode word_value r) (\<lambda>r.
          bindR (read_all h [0..<15] mode word_value r out) (\<lambda>(ok, out).
          if \<not> ok then Inr (1, out)
          else
            let out = out @ ''Current mode : '' in
            if registers_get_mode r \<noteq> USR then Inr (1, out)
            else
              let out = out @ passed; r = registers_write_cpsr r 0x1d3;
                  out = out @ ''Mode is priviledged : ''
              in
              if \<not> registers_in_a_privileged_mode r then Inr (1, out)
              else
                let out = out @ passed @ ''Mode has spsr : '' in
                if \<not> registers_current_mode_has_spsr r then Inr (1, out)
                else test_banks h r (out @ passed))))"

lemma write_all_list: 
  "\<forall>i \<in> set is. i < length vs \<Longrightarrow>
    write_all h is mode vs r = write_list (registers_write h) r mode (map (\<lambda>i. (i, vs ! i)) is)"
  by (induction "is" arbitrary: r) (auto intro: bindR_cong)

lemma write_all_cpsr:
  "write_all h is mode vs r = Inr r' \<Longrightarrow> wf_registers r \<Longrightarrow> CPSR \<notin> set is \<Longrightarrow>
    registers_read_cpsr r' = registers_read_cpsr r"
proof (induction "is" arbitrary: r)
  case (Cons i "is")
  then obtain v r1 where "registers_write h r i mode v = Inr r1" "write_all h is mode vs r1 = Inr r'"
    by (auto simp: bindR_eq_Inr)
  with Cons show ?case using banks.wf_wr read_cpsr_write [of r h i mode v r1] by auto
qed simp

lemma read_all_passes:
  "\<forall>i \<in> set is. i < length vs \<and> registers_read h r i mode = Inr (vs ! i) \<Longrightarrow>
    \<exists>out'. read_all h is mode vs r out = Inr (True, out')"
  by (induction "is" arbitrary: out) auto

lemma cell_same: "cell 0 USR = Inr 0" "cell 0 IRQ = Inr 0" "cell 15 USR = Inr 0" "cell 15 IRQ = Inr 0"
  "cell 14 USR = Inr 0" "cell 14 IRQ = Inr 5" "cell SPSR IRQ = Inr 3"
  by (simp_all add: cell_def Let_def get_read_write_mode_def)

lemma test_banks_passes:
  assumes "wf_registers r"
  shows "\<exists>out'. test_banks h r out = Inr (0, out')"
proof -
  have same: "registers_read h q i USR = registers_read h q i IRQ" if "wf_registers q" "i \<in> {0, 15}" for q i
    using that by (auto simp: registers_read_cell cell_same)
  have tot: "\<exists>v. registers_read h q i m = Inr v"
    if "wf_registers q" "(i, m) \<in> {(0, IRQ), (15, IRQ), (SPSR, IRQ)}" for q i m
    using that by (auto simp: registers_read_cell cell_same)
  obtain r1 where r1: "registers_write h r 14 USR 0x10 = Inr r1"
    using banks.wr_total [OF assms cell_same(5)] by blast
  have w1: "wf_registers r1" using banks.wf_wr [OF assms r1] .
  obtain r2 where r2: "registers_write h r1 14 IRQ 0x5 = Inr r2"
    using banks.wr_total [OF w1 cell_same(6)] by blast
  have w2: "wf_registers r2" using banks.wf_wr [OF w1 r2] .
  have "registers_read h r2 14 USR = Inr 0x10" "registers_read h r2 14 IRQ = Inr 5"
    using banks.rd_wr [OF w1 r2] banks.rd_wr [OF assms r1] by (simp_all add: cell_same)
  then show ?thesis
    using tot [OF assms, of SPSR IRQ] tot [OF assms, of 0 IRQ] tot [OF w2, of 15 IRQ]
      same [OF assms, of 0] same [OF w2, of 15] r1 r2
    by (auto simp: test_banks_def registers_read_spsr_def Let_def)
qed

lemma registers_test_returns_0:
  assumes "length word_value = 15"
  shows "\<exists>out. registers_test h (Some registers_create) word_value = Inr (0, out)"
proof -
  let ?r = "registers_write_cpsr registers_create 0x110"
  have w: "wf_registers ?r" using wf_registers_create by (rule wf_registers_write_cpsr)
  have m: "registers_get_mode ?r = USR"
    using read_cpsr_write_cpsr [OF wf_registers_create, of "0x110"] by (simp add: get_mode_cpsr get_bits_take_drop)
  let ?l = "map (\<lambda>i. (i, word_value ! i)) [0..<15]"
  have cells: "\<forall>i \<in> fst ` set ?l. \<exists>k. cell i USR = Inr k"
    by (auto intro!: cell_low)
  have d: "distinct (map fst ?l)" by (simp add: comp_def)
  obtain r1 where r1: "write_list (registers_write h) ?r USR ?l = Inr r1" "wf_registers r1"
    "\<forall>(i, v) \<in> set ?l. registers_read h r1 i USR = Inr v"
    using banks.write_list_reads [OF w d cells] by blast
  have a: "write_all h [0..<15] USR word_value ?r = Inr r1"
    using r1(1) assms by (subst write_all_list) auto
  obtain out where out: "read_all h [0..<15] USR word_value r1
      (''Registers created'' @ [CHR 0x0A] @ ''Reseting registers...'' @ [CHR 0x0A]
        @ ''Testing read and write to general registers:'' @ [CHR 0x0A]) = Inr (True, out)"
    using read_all_passes [of "[0..<15]" word_value h r1 USR] r1(3) assms by auto
  have c: "registers_get_mode r1 = USR"
    using write_all_cpsr [OF a w] m by (simp add: get_mode_cpsr)
  let ?r2 = "registers_write_cpsr r1 0x1d3"
  have m2: "registers_get_mode ?r2 = SVC"
    using read_cpsr_write_cpsr [OF r1(2), of "0x1d3"] by (simp add: get_mode_cpsr get_bits_take_drop)
  have "wf_registers ?r2" using r1(2) by (rule wf_registers_write_cpsr)
  note t = test_banks_passes [OF this, of h]
  have "registers_test h (Some registers_create) word_value =
    test_banks h ?r2 (out @ ''Current mode : '' @ passed @ ''Mode is priviledged : '' @ passed
      @ ''Mode has spsr : '' @ passed)"
    using a out c m m2
    by (simp add: registers_test_def Let_def registers_in_a_privileged_mode_def
        registers_current_mode_has_spsr_def registers_mode_has_spsr_def get_read_write_mode_def)
  then show ?thesis using t by metis
qed

text \<open>C19: The test programs pass on every host: the test of the memory returns 0 whatever the allocated block
  contains, and 1 when an allocation fails, and the test of the registers returns 0 for all random
  values it may draw.\<close>

theorem unit_tests_pass:
  "(length block = 4 \<longrightarrow> (\<exists>out. memory_test h True (Some block) = Inr (0, out)))
    \<and> memory_test h False b = Inr (1, []) \<and> memory_test h True None = Inr (1, [])
    \<and> (length word_value = 15 \<longrightarrow>
        (\<exists>out. registers_test h (Some registers_create) word_value = Inr (0, out)))"
  using memory_test_returns_0 [of block h b] registers_test_returns_0 [of word_value h] by blast

theorem unit_tests_pass_witness:
  "(\<exists>out. memory_test \<lparr>host_big_endian = False, host_masks_shifts = True\<rparr> True (Some [1, 2, 3, 4]) = Inr (0, out))
    \<and> (\<exists>out. registers_test \<lparr>host_big_endian = False, host_masks_shifts = True\<rparr> (Some registers_create)
      (replicate 15 0xDEADBEEF) = Inr (0, out))"
  using unit_tests_pass [of "[1, 2, 3, 4]" "\<lparr>host_big_endian = False, host_masks_shifts = True\<rparr>" None
      "replicate 15 0xDEADBEEF"] by simp

end
