(* ===== verification/Allocation.thy ===== *)
theory Allocation
  imports Gdb_Protocol
begin

text \<open>
  The dynamic memory of the simulator: the heap with requests that may be refused, the contract of
  constructors and destructors, and those of the memory, the registers, the core and the protocol data,
  with what the blocks hold left out: that is modelled by \<open>memory_create\<close>, \<open>registers_create\<close>,
  \<open>arm_create\<close> and \<open>gdb_init_data\<close>.
\<close>

section \<open>The heap\<close>

text \<open>
  The blocks that are allocated, by numbers that are never used twice, and a schedule of the requests
  that are refused; requests past its end succeed. A pointer is a number or \<open>None\<close>, the null pointer.
\<close>

record heap =
  live :: "nat set"
  next_block :: nat
  refusals :: "bool list"

type_synonym ptr = "nat option"

definition malloc :: "heap \<Rightarrow> ptr \<times> heap" where
  "malloc h =
     (let refused = (case refusals h of [] \<Rightarrow> False | r # rs \<Rightarrow> r);
          h = h\<lparr>refusals := tl (refusals h)\<rparr>
      in
      if refused then (None, h)
      else (Some (next_block h),
            h\<lparr>live := insert (next_block h) (live h), next_block := next_block h + 1\<rparr>))"

definition free_c :: "ptr \<Rightarrow> heap \<Rightarrow> heap res" where
  "free_c p h =
     (case p of
        None \<Rightarrow> Inr h
      | Some a \<Rightarrow> if a \<in> live h then Inr (h\<lparr>live := live h - {a}\<rparr>) else Inl Invalid_Free)"

text \<open>A block may move when its size changes; a refusal leaves it as it is.\<close>

definition realloc :: "ptr \<Rightarrow> heap \<Rightarrow> (ptr \<times> heap) res" where
  "realloc p h =
     (case malloc h of
        (None, h) \<Rightarrow> Inr (None, h)
      | (Some b, h) \<Rightarrow> bindR (free_c p h) (\<lambda>h. Inr (Some b, h)))"

definition deref :: "ptr \<Rightarrow> heap \<Rightarrow> nat res" where
  "deref p h =
     (case p of
        None \<Rightarrow> Inl Null_Pointer
      | Some a \<Rightarrow> if a \<in> live h then Inr a else Inl Use_After_Free)"

definition wf_heap :: "heap \<Rightarrow> bool" where
  "wf_heap h \<longleftrightarrow> (\<forall>a \<in> live h. a < next_block h)"

text \<open>\<open>gains h S h'\<close>: from \<open>h\<close> to \<open>h'\<close> exactly the blocks of \<open>S\<close> are added, all of them new.\<close>

definition gains :: "heap \<Rightarrow> nat set \<Rightarrow> heap \<Rightarrow> bool" where
  "gains h S h' \<longleftrightarrow> live h' = live h \<union> S \<and> wf_heap h' \<and> next_block h \<le> next_block h'
     \<and> (\<forall>a \<in> S. next_block h \<le> a)"

lemma gains_fresh: "wf_heap h \<Longrightarrow> gains h S h' \<Longrightarrow> S \<inter> live h = {}"
  by (fastforce simp: gains_def wf_heap_def)

lemma gains_refl: "wf_heap h \<Longrightarrow> gains h {} h"
  by (simp add: gains_def)

lemma gains_trans: "gains h S h1 \<Longrightarrow> gains h1 T h2 \<Longrightarrow> gains h (S \<union> T) h2"
  by (fastforce simp: gains_def)

lemma malloc_cases:
  assumes "wf_heap h"
  obtains (refused) h' where "malloc h = (None, h')" "gains h {} h'"
  | (given) a h' where "malloc h = (Some a, h')" "gains h {a} h'"
proof (cases "case refusals h of [] \<Rightarrow> False | r # rs \<Rightarrow> r")
  case True
  with assms show ?thesis
    by (intro refused [of "h\<lparr>refusals := tl (refusals h)\<rparr>"]) (auto simp: malloc_def gains_def wf_heap_def)
next
  case False
  with assms show ?thesis
    by (intro given [of "next_block h" "h\<lparr>live := insert (next_block h) (live h),
        next_block := next_block h + 1, refusals := tl (refusals h)\<rparr>"])
      (auto simp: malloc_def gains_def wf_heap_def)
qed

lemma malloc_unrefused:
  assumes "refusals h = []"
  shows "malloc h = (Some (next_block h),
    h\<lparr>live := insert (next_block h) (live h), next_block := next_block h + 1\<rparr>)"
  using assms by (simp add: malloc_def)

lemma free_c_live: "a \<in> live h \<Longrightarrow> free_c (Some a) h = Inr (h\<lparr>live := live h - {a}\<rparr>)"
  by (simp add: free_c_def)

lemma free_c_null [simp]: "free_c None h = Inr h"
  by (simp add: free_c_def)

lemma deref_live [simp]: "a \<in> live h \<Longrightarrow> deref (Some a) h = Inr a"
  by (simp add: deref_def)

lemma wf_heap_remove: "wf_heap h \<Longrightarrow> wf_heap (h\<lparr>live := live h - S\<rparr>)"
  by (simp add: wf_heap_def)

section \<open>Constructors and destructors\<close>

definition blocks_of :: "('x \<Rightarrow> nat set) \<Rightarrow> 'x option \<Rightarrow> nat set" where
  "blocks_of owned x = (case x of None \<Rightarrow> {} | Some x \<Rightarrow> owned x)"

text \<open>
  The contract of a constructor that gives a handle to blocks of its own, or none, and of the
  destructor of such handles; the laws say what happens to the heap.
\<close>

locale lifecycle =
  fixes create :: "heap \<Rightarrow> ('x option \<times> heap) res"
    and destroy :: "'x option \<Rightarrow> heap \<Rightarrow> heap res"
    and owned :: "'x \<Rightarrow> nat set"
  assumes created: "wf_heap h \<Longrightarrow> create h = Inr (Some x, h') \<Longrightarrow> gains h (owned x) h'"
    and refused: "wf_heap h \<Longrightarrow> create h = Inr (None, h') \<Longrightarrow> gains h {} h'"
    and owns_something: "wf_heap h \<Longrightarrow> create h = Inr (Some x, h') \<Longrightarrow> owned x \<noteq> {}"
    and destroyed: "wf_heap h \<Longrightarrow> create h = Inr (Some x, h') \<Longrightarrow> owned x \<subseteq> live g \<Longrightarrow>
      destroy (Some x) g = Inr (g\<lparr>live := live g - owned x\<rparr>)"
    and destroy_null: "destroy None g = Inr g"
    and destroy_dead: "wf_heap h \<Longrightarrow> create h = Inr (Some x, h') \<Longrightarrow> owned x \<inter> live g = {} \<Longrightarrow>
      \<exists>e. destroy (Some x) g = Inl e"
begin

lemma create_gains:
  assumes "wf_heap h" "create h = Inr (x, h')"
  shows "gains h (blocks_of owned x) h'"
  using assms created refused by (cases x) (auto simp: blocks_of_def)

lemma destroy_blocks:
  assumes "wf_heap h" "create h = Inr (x, h')" "blocks_of owned x \<subseteq> live g"
  shows "destroy x g = Inr (g\<lparr>live := live g - blocks_of owned x\<rparr>)"
  using assms destroyed destroy_null by (cases x) (auto simp: blocks_of_def)

text \<open>What is created is released completely, whatever else has been allocated in the meantime.\<close>

lemma release:
  assumes "wf_heap h" "create h = Inr (x, h')" "gains h' S g"
  shows "\<exists>g'. destroy x g = Inr g' \<and> gains h S g'"
proof -
  note c = create_gains [OF assms(1,2)]
  have sub: "blocks_of owned x \<subseteq> live g" using c assms(3) by (auto simp: gains_def)
  have "blocks_of owned x \<inter> live h = {}" by (rule gains_fresh [OF assms(1) c])
  moreover have "wf_heap h'" using c by (simp add: gains_def)
  then have "S \<inter> live h' = {}" using gains_fresh assms(3) by blast
  then have "S \<inter> blocks_of owned x = {}" using c by (auto simp: gains_def)
  ultimately have "live g - blocks_of owned x = live h \<union> S" using c assms(3) by (auto simp: gains_def)
  moreover have "wf_heap (g\<lparr>live := live g - blocks_of owned x\<rparr>)"
    using assms(3) by (intro wf_heap_remove) (simp add: gains_def)
  ultimately have "gains h S (g\<lparr>live := live g - blocks_of owned x\<rparr>)"
    using c assms(3) by (auto simp: gains_def)
  then show ?thesis using destroy_blocks [OF assms(1,2) sub] by simp
qed

lemma no_second_release:
  assumes "wf_heap h" "create h = Inr (Some x, h')" "destroy (Some x) g = Inr g'" "owned x \<subseteq> live g"
  shows "\<exists>e. destroy (Some x) g' = Inl e"
  using assms destroyed [OF assms(1,2,4)] by (intro destroy_dead [OF assms(1,2)]) auto

end

section \<open>Memory\<close>

text \<open>The blocks behind a \<^verbatim>\<open>memory\<close>: the structure and the bytes its field points to.\<close>

record memory_blocks =
  mem_struct :: nat
  mem_data :: nat

definition memory_alloc :: "heap \<Rightarrow> (memory_blocks option \<times> heap) res" where
  "memory_alloc h =
     (case malloc h of
        (None, h) \<Rightarrow> Inr (None, h)
      | (Some s, h) \<Rightarrow>
          (case malloc h of
             (None, h) \<Rightarrow> bindR (free_c (Some s) h) (\<lambda>h. Inr (None, h))
           | (Some d, h) \<Rightarrow> Inr (Some \<lparr>mem_struct = s, mem_data = d\<rparr>, h)))"

definition memory_destroy :: "memory_blocks option \<Rightarrow> heap \<Rightarrow> heap res" where
  "memory_destroy m h =
     (case m of
        None \<Rightarrow> Inr h
      | Some b \<Rightarrow>
          bindR (deref (Some (mem_struct b)) h) (\<lambda>_.
          bindR (free_c (Some (mem_data b)) h) (\<lambda>h. free_c (Some (mem_struct b)) h)))"

lemma memory_alloc_cases:
  assumes "wf_heap h" "memory_alloc h = Inr (x, h')"
  shows "case x of None \<Rightarrow> gains h {} h'
    | Some b \<Rightarrow> gains h {mem_struct b, mem_data b} h' \<and> mem_struct b \<noteq> mem_data b"
  using assms(1)
proof (cases rule: malloc_cases)
  case (refused h1)
  then show ?thesis using assms(2) by (auto simp: memory_alloc_def)
next
  case (given s h1)
  then have w1: "wf_heap h1" by (simp add: gains_def)
  from w1 show ?thesis
  proof (cases rule: malloc_cases)
    case (refused h2)
    then have h': "x = None" "h' = h2\<lparr>live := live h2 - {s}\<rparr>"
      using assms(2) given by (auto simp: memory_alloc_def free_c_def bindR_def gains_def split: if_splits)
    have "live h2 - {s} = live h" using gains_fresh [OF assms(1) given(2)] given refused by (auto simp: gains_def)
    then show ?thesis
      using given refused by (auto simp: h' gains_def wf_heap_def)
  next
    case (given d h2)
    then show ?thesis
      using assms(2) \<open>malloc h = (Some s, h1)\<close> gains_trans [OF \<open>gains h {s} h1\<close> given(2)]
        gains_fresh [OF w1 given(2)] \<open>gains h {s} h1\<close>
      by (auto simp: memory_alloc_def gains_def)
  qed
qed

interpretation memory_cycle: lifecycle memory_alloc memory_destroy "\<lambda>b. {mem_struct b, mem_data b}"
proof
  fix h x h' g
  assume h: "wf_heap h" "memory_alloc h = Inr (Some x, h')"
  note c = memory_alloc_cases [OF h, simplified]
  show "gains h {mem_struct x, mem_data x} h'" using c by simp
  show "{mem_struct x, mem_data x} \<noteq> {}" by simp
  show "{mem_struct x, mem_data x} \<subseteq> live g \<Longrightarrow>
      memory_destroy (Some x) g = Inr (g\<lparr>live := live g - {mem_struct x, mem_data x}\<rparr>)"
    using c by (auto simp: memory_destroy_def free_c_def Diff_insert2 [symmetric] insert_commute)
  show "{mem_struct x, mem_data x} \<inter> live g = {} \<Longrightarrow> \<exists>e. memory_destroy (Some x) g = Inl e"
    by (auto simp: memory_destroy_def deref_def)
qed (use memory_alloc_cases in \<open>fastforce simp: memory_destroy_def\<close>)+

section \<open>Registers\<close>

text \<open>
  The blocks behind \<^verbatim>\<open>registers\<close>: the structure, the array of register descriptors and, for each
  register, its table of pointers and its values. The constructor checks no allocation. It writes
  through the array and the tables, so that a refusal of one of them is a null pointer written to;
  the values are only written later, so that a refusal of these stays unnoticed.
\<close>

record register_blocks =
  reg_struct :: nat
  reg_array :: nat
  reg_tables :: "(nat \<times> ptr) list"

fun register_tables :: "nat \<Rightarrow> ptr \<Rightarrow> heap \<Rightarrow> ((nat \<times> ptr) list \<times> heap) res" where
  "register_tables 0 array h = Inr ([], h)"
| "register_tables (Suc n) array h =
     bindR (deref array h) (\<lambda>_.
     case malloc h of
       (None, h) \<Rightarrow> Inl Null_Pointer
     | (Some ptrs, h) \<Rightarrow>
         (case malloc h of (data, h) \<Rightarrow>
          bindR (register_tables n array h) (\<lambda>(ts, h). Inr ((ptrs, data) # ts, h))))"

definition registers_alloc :: "heap \<Rightarrow> (register_blocks option \<times> heap) res" where
  "registers_alloc h =
     (case malloc h of
        (None, h) \<Rightarrow> Inl Null_Pointer
      | (Some r, h) \<Rightarrow>
          (case malloc h of (array, h) \<Rightarrow>
           bindR (register_tables N_REGISTRES array h) (\<lambda>(ts, h).
           bindR (deref array h) (\<lambda>a.
           Inr (Some \<lparr>reg_struct = r, reg_array = a, reg_tables = ts\<rparr>, h)))))"

fun free_tables :: "(nat \<times> ptr) list \<Rightarrow> heap \<Rightarrow> heap res" where
  "free_tables [] h = Inr h"
| "free_tables ((ptrs, data) # ts) h =
     bindR (free_c data h) (\<lambda>h. bindR (free_c (Some ptrs) h) (\<lambda>h. free_tables ts h))"

definition registers_destroy :: "register_blocks option \<Rightarrow> heap \<Rightarrow> heap res" where
  "registers_destroy r h =
     (case r of
        None \<Rightarrow> free_c None h
      | Some b \<Rightarrow>
          bindR (deref (Some (reg_struct b)) h) (\<lambda>_.
          bindR (deref (Some (reg_array b)) h) (\<lambda>_.
          bindR (free_tables (reg_tables b) h) (\<lambda>h.
          bindR (free_c (Some (reg_array b)) h) (\<lambda>h. free_c (Some (reg_struct b)) h)))))"

definition table_blocks :: "(nat \<times> ptr) list \<Rightarrow> nat set" where
  "table_blocks ts = (\<Union>(ptrs, data) \<in> set ts. insert ptrs (set_option data))"

lemma table_blocks_simps [simp]:
  "table_blocks [] = {}"
  "table_blocks ((ptrs, data) # ts) = insert ptrs (set_option data) \<union> table_blocks ts"
  by (auto simp: table_blocks_def)

text \<open>All blocks of a list of tables are different.\<close>

fun separate :: "(nat \<times> ptr) list \<Rightarrow> bool" where
  "separate [] \<longleftrightarrow> True"
| "separate ((ptrs, data) # ts) \<longleftrightarrow> ptrs \<notin> set_option data
     \<and> insert ptrs (set_option data) \<inter> table_blocks ts = {} \<and> separate ts"

definition register_owned :: "register_blocks \<Rightarrow> nat set" where
  "register_owned b = {reg_struct b, reg_array b} \<union> table_blocks (reg_tables b)"

lemma register_tables_gain:
  "wf_heap h \<Longrightarrow> register_tables n array h = Inr (ts, h') \<Longrightarrow>
    gains h (table_blocks ts) h' \<and> separate ts \<and> length ts = n"
proof (induction n arbitrary: h ts)
  case 0
  then show ?case by (auto simp: gains_refl)
next
  case (Suc n)
  from Suc.prems(1) show ?case
  proof (cases rule: malloc_cases)
    case (refused h1)
    then show ?thesis using Suc.prems(2) by (auto simp: bindR_eq_Inr)
  next
    case (given p h1)
    then have w1: "wf_heap h1" by (simp add: gains_def)
    obtain data h2 where m: "malloc h1 = (data, h2)" by force
    have g2: "gains h1 (set_option data) h2"
      using w1 by (cases rule: malloc_cases) (use m in auto)
    then have w2: "wf_heap h2" by (simp add: gains_def)
    obtain ts' where ts: "register_tables n array h2 = Inr (ts', h')" "ts = (p, data) # ts'"
      using Suc.prems(2) given(1) m by (auto simp: bindR_eq_Inr)
    note IH = Suc.IH [OF w2 ts(1)]
    have g: "gains h (insert p (set_option data) \<union> table_blocks ts') h'"
      using gains_trans [OF gains_trans [OF given(2) g2]] IH by force
    have "p \<notin> set_option data" using gains_fresh [OF w1 g2] given(2) by (auto simp: gains_def)
    moreover have "insert p (set_option data) \<subseteq> live h2" using given(2) g2 by (auto simp: gains_def)
    ultimately show ?thesis
      using gains_fresh [OF w2] IH g ts(2) by auto
  qed
qed

lemma free_tables_live:
  "table_blocks ts \<subseteq> live g \<Longrightarrow> separate ts \<Longrightarrow>
    free_tables ts g = Inr (g\<lparr>live := live g - table_blocks ts\<rparr>)"
proof (induction ts arbitrary: g)
  case (Cons t ts)
  obtain p d where t: "t = (p, d)" by force
  let ?S = "insert p (set_option d)"
  have "bindR (free_c d g) (\<lambda>h. free_c (Some p) h) = Inr (g\<lparr>live := live g - ?S\<rparr>)"
    using Cons.prems t by (cases d) (auto simp: free_c_def Diff_insert2 [symmetric] insert_commute)
  then have "free_tables (t # ts) g = free_tables ts (g\<lparr>live := live g - ?S\<rparr>)"
    by (simp add: t bindR_assoc [symmetric])
  also have "\<dots> = Inr (g\<lparr>live := live g - ?S - table_blocks ts\<rparr>)"
    using Cons.prems t by (subst Cons.IH) auto
  also have "live g - ?S - table_blocks ts = live g - table_blocks (t # ts)" by (auto simp: t)
  finally show ?case by simp
qed simp

interpretation register_cycle: lifecycle registers_alloc registers_destroy register_owned
proof
  fix h x h' g
  assume h: "wf_heap h" "registers_alloc h = Inr (Some x, h')"
  have c: "gains h (register_owned x) h' \<and> separate (reg_tables x)
    \<and> reg_struct x \<noteq> reg_array x \<and> {reg_struct x, reg_array x} \<inter> table_blocks (reg_tables x) = {}"
    using h(1)
  proof (cases rule: malloc_cases)
    case (refused h1)
    then show ?thesis using h(2) by (simp add: registers_alloc_def)
  next
    case (given r h1)
    then have "wf_heap h1" by (simp add: gains_def)
    then show ?thesis
    proof (cases rule: malloc_cases)
      case (refused h2)
      then show ?thesis using h(2) given
        by (auto simp: registers_alloc_def deref_def bindR_eq_Inr simp del: register_tables.simps)
    next
      case g2: (given a h2)
      then have w2: "wf_heap h2" by (simp add: gains_def)
      obtain ts where ts: "register_tables N_REGISTRES (Some a) h2 = Inr (ts, h')"
        "x = \<lparr>reg_struct = r, reg_array = a, reg_tables = ts\<rparr>"
        using h(2) given(1) g2(1)
        by (auto simp: registers_alloc_def bindR_eq_Inr deref_def simp del: register_tables.simps split: if_splits)
      note t = register_tables_gain [OF w2 ts(1)]
      have "gains h ({r} \<union> {a} \<union> table_blocks ts) h'"
        using gains_trans [OF gains_trans [OF given(2) g2(2)]] t by blast
      then have "gains h (register_owned x) h'" by (simp add: ts(2) register_owned_def insert_commute)
      moreover have "{r, a} \<inter> table_blocks ts = {}"
        using gains_fresh [OF w2] t given(2) g2(2) by (auto simp: gains_def)
      moreover have "r \<noteq> a" using gains_fresh [OF \<open>wf_heap h1\<close> g2(2)] given(2) by (auto simp: gains_def)
      ultimately show ?thesis using t by (simp add: ts(2))
    qed
  qed
  show "gains h (register_owned x) h'" using c by simp
  show "register_owned x \<noteq> {}" by (simp add: register_owned_def)
  show "registers_destroy (Some x) g = Inr (g\<lparr>live := live g - register_owned x\<rparr>)"
    if "register_owned x \<subseteq> live g"
  proof -
    have "free_tables (reg_tables x) g = Inr (g\<lparr>live := live g - table_blocks (reg_tables x)\<rparr>)"
      using c that by (intro free_tables_live) (auto simp: register_owned_def)
    then show ?thesis
      using c that by (auto simp: registers_destroy_def register_owned_def free_c_def Un_commute
        Diff_insert2 [symmetric] insert_commute intro!: arg_cong [where f = "\<lambda>l. g\<lparr>live := l\<rparr>"])
  qed
  show "register_owned x \<inter> live g = {} \<Longrightarrow> \<exists>e. registers_destroy (Some x) g = Inl e"
    by (auto simp: registers_destroy_def register_owned_def deref_def)
next
  show "registers_destroy None g = Inr g" for g by (simp add: registers_destroy_def)
next
  fix h h'
  show "registers_alloc h = Inr (None, h') \<Longrightarrow> gains h {} h'"
    by (auto simp: registers_alloc_def bindR_eq_Inr simp del: register_tables.simps split: prod.splits option.splits)
qed

section \<open>Core and protocol data\<close>

text \<open>
  The registers of the core are accessed when it is created: what an access to register \<open>i\<close>
  dereferences, and to the size of the memory.
\<close>

definition touch_register :: "register_blocks \<Rightarrow> nat \<Rightarrow> heap \<Rightarrow> unit res" where
  "touch_register b i h =
     bindR (deref (Some (reg_struct b)) h) (\<lambda>_.
     bindR (deref (Some (reg_array b)) h) (\<lambda>_.
     bindR (load (reg_tables b) i) (\<lambda>(ptrs, data).
     bindR (deref (Some ptrs) h) (\<lambda>_. bindR (deref data h) (\<lambda>_. Inr ())))))"

text \<open>The status register is accessed without the table of pointers.\<close>

definition touch_cpsr :: "register_blocks \<Rightarrow> heap \<Rightarrow> unit res" where
  "touch_cpsr b h =
     bindR (deref (Some (reg_struct b)) h) (\<lambda>_.
     bindR (deref (Some (reg_array b)) h) (\<lambda>_.
     bindR (load (reg_tables b) CPSR) (\<lambda>(ptrs, data).
     bindR (deref data h) (\<lambda>_. Inr ()))))"

record core_blocks =
  core_struct :: nat
  core_reg :: "register_blocks option"
  core_mem :: "memory_blocks option"

definition of_pointer :: "'a option \<Rightarrow> 'a res" where
  "of_pointer p = (case p of None \<Rightarrow> Inl Null_Pointer | Some x \<Rightarrow> Inr x)"

definition arm_alloc ::
    "register_blocks option \<Rightarrow> memory_blocks option \<Rightarrow> heap \<Rightarrow> (core_blocks option \<times> heap) res" where
  "arm_alloc r m h =
     (case malloc h of
        (None, h) \<Rightarrow> Inr (None, h)
      | (Some p, h) \<Rightarrow>
          bindR (of_pointer r) (\<lambda>b.
          bindR (touch_cpsr b h) (\<lambda>_.
          bindR (touch_register b 15 h) (\<lambda>_.
          bindR (case m of None \<Rightarrow> Inr () | Some mb \<Rightarrow> bindR (deref (Some (mem_struct mb)) h) (\<lambda>_. Inr ())) (\<lambda>_.
          bindR (touch_register b 13 h) (\<lambda>_.
          Inr (Some \<lparr>core_struct = p, core_reg = r, core_mem = m\<rparr>, h)))))))"

definition arm_destroy :: "core_blocks option \<Rightarrow> heap \<Rightarrow> heap res" where
  "arm_destroy p h = free_c (map_option core_struct p) h"

definition gdb_init_alloc :: "heap \<Rightarrow> (nat option \<times> heap) res" where
  "gdb_init_alloc h = Inr (malloc h)"

definition gdb_release_data :: "nat option \<Rightarrow> heap \<Rightarrow> heap res" where
  "gdb_release_data gdb h = free_c gdb h"

interpretation gdb_cycle: lifecycle gdb_init_alloc gdb_release_data "\<lambda>a. {a}"
proof
  show "gains h {x} h'" if "wf_heap h" "gdb_init_alloc h = Inr (Some x, h')" for h x h'
    using that(1) by (cases rule: malloc_cases) (use that(2) in \<open>auto simp: gdb_init_alloc_def\<close>)
  show "gains h {} h'" if "wf_heap h" "gdb_init_alloc h = Inr (None, h')" for h h'
    using that(1) by (cases rule: malloc_cases) (use that(2) in \<open>auto simp: gdb_init_alloc_def\<close>)
qed (auto simp: gdb_release_data_def free_c_def)

interpretation core_cycle: lifecycle "arm_alloc r m" arm_destroy "\<lambda>p. {core_struct p}" for r m
proof
  show "gains h {core_struct x} h'" if "wf_heap h" "arm_alloc r m h = Inr (Some x, h')" for h x h'
    using that(1) by (cases rule: malloc_cases) (use that(2) in \<open>auto simp: arm_alloc_def bindR_eq_Inr\<close>)
  show "gains h {} h'" if "wf_heap h" "arm_alloc r m h = Inr (None, h')" for h h'
    using that(1) by (cases rule: malloc_cases) (use that(2) in \<open>auto simp: arm_alloc_def bindR_eq_Inr\<close>)
qed (auto simp: arm_destroy_def free_c_def)

text \<open>
  What \<^verbatim>\<open>arm_exception\<close> accesses first: a software interrupt reads the program counter, an interrupt reads
  the status register and a reset writes it; every other number returns without any access.
\<close>

definition exception_access :: "u8 \<Rightarrow> core_blocks option \<Rightarrow> heap \<Rightarrow> unit res" where
  "exception_access exception p h =
     (if exception \<in> {of_nat SOFTWARE_INTERRUPT, of_nat INTERRUPT, of_nat RESET} then
        bindR (of_pointer p) (\<lambda>c.
        bindR (deref (Some (core_struct c)) h) (\<lambda>_.
        bindR (of_pointer (core_reg c)) (\<lambda>b.
        if exception = of_nat SOFTWARE_INTERRUPT then touch_register b 15 h else touch_cpsr b h)))
      else Inr ())"

lemma touch_live:
  assumes "register_owned b \<subseteq> live h" "\<forall>(ptrs, data) \<in> set (reg_tables b). data \<noteq> None"
    "i < length (reg_tables b)"
  shows "touch_register b i h = Inr ()"
proof -
  obtain p d where t: "reg_tables b ! i = (p, d)" by force
  then have m: "(p, d) \<in> set (reg_tables b)" using assms(3) by (metis nth_mem)
  then have "insert p (set_option d) \<subseteq> live h" "d \<noteq> None"
    using assms(1,2) by (auto simp: register_owned_def table_blocks_def)
  then show ?thesis
    using assms(1,3) t by (auto simp: touch_register_def register_owned_def)
qed

lemma touch_cpsr_live:
  assumes "register_owned b \<subseteq> live h" "\<forall>(ptrs, data) \<in> set (reg_tables b). data \<noteq> None"
    "16 < length (reg_tables b)"
  shows "touch_cpsr b h = Inr ()"
  using touch_live [OF assms] assms(3)
  by (auto simp: touch_register_def touch_cpsr_def bindR_eq_Inr split: prod.splits)

end
