(* ===== verification/Release.thy ===== *)
theory Release
  imports Allocation
begin

text \<open>
  The blocks of the scanner with its stack of buffers, and the whole run of the simulator seen from
  the heap: what is released, what is not, and what an interrupt finds after the release.
\<close>

section \<open>The buffers of the scanner\<close>

text \<open>
  The blocks of a scanner: the structure \<^verbatim>\<open>yyguts_t\<close>, the stack of buffers with its entries (as many
  as \<^verbatim>\<open>yy_buffer_stack_max\<close>) and its top, and for each buffer the array of its characters and
  whether the scanner owns it. A fatal error of the scanner ends the process with code 2.
\<close>

record scanner_blocks =
  guts :: nat
  yy_buffer_stack :: ptr
  stack_entries :: "ptr list"
  yy_buffer_stack_top :: nat
  buffers :: "nat \<rightharpoonup> ptr \<times> bool"

definition yy_fatal_error :: "'a res" where
  "yy_fatal_error = Inl (Process_Exit 2)"

definition yy_current_buffer :: "scanner_blocks \<Rightarrow> heap \<Rightarrow> ptr res" where
  "yy_current_buffer s h =
     (case yy_buffer_stack s of
        None \<Rightarrow> Inr None
      | Some a \<Rightarrow> bindR (deref (Some a) h) (\<lambda>_. load (stack_entries s) (yy_buffer_stack_top s)))"

definition yylex_init_extra :: "heap \<Rightarrow> (scanner_blocks option \<times> heap)" where
  "yylex_init_extra h =
     (case malloc h of
        (None, h) \<Rightarrow> (None, h)
      | (Some g, h) \<Rightarrow>
          (Some \<lparr>guts = g, yy_buffer_stack = None, stack_entries = [], yy_buffer_stack_top = 0,
                 buffers = Map.empty\<rparr>, h))"

definition yyensure_buffer_stack :: "scanner_blocks \<Rightarrow> heap \<Rightarrow> (scanner_blocks \<times> heap) res" where
  "yyensure_buffer_stack s h =
     (if yy_buffer_stack s = None then
        (case malloc h of
           (None, h) \<Rightarrow> yy_fatal_error
         | (Some a, h) \<Rightarrow>
             Inr (s\<lparr>yy_buffer_stack := Some a, stack_entries := [None], yy_buffer_stack_top := 0\<rparr>, h))
      else if yy_buffer_stack_top s \<ge> length (stack_entries s) - 1 then
        bindR (realloc (yy_buffer_stack s) h) (\<lambda>(p, h).
        case p of
          None \<Rightarrow> yy_fatal_error
        | Some a \<Rightarrow>
            Inr (s\<lparr>yy_buffer_stack := Some a, stack_entries := stack_entries s @ replicate 8 None\<rparr>, h))
      else Inr (s, h))"

definition yy_create_buffer_alloc :: "scanner_blocks \<Rightarrow> heap \<Rightarrow> (nat \<times> scanner_blocks \<times> heap) res" where
  "yy_create_buffer_alloc s h =
     (case malloc h of
        (None, h) \<Rightarrow> yy_fatal_error
      | (Some b, h) \<Rightarrow>
          (case malloc h of
             (None, h) \<Rightarrow> yy_fatal_error
           | (Some c, h) \<Rightarrow> Inr (b, s\<lparr>buffers := (buffers s)(b \<mapsto> (Some c, True))\<rparr>, h)))"

definition yy_set_current :: "ptr \<Rightarrow> scanner_blocks \<Rightarrow> scanner_blocks res" where
  "yy_set_current b s =
     bindR (store (stack_entries s) (yy_buffer_stack_top s) b) (\<lambda>es. Inr (s\<lparr>stack_entries := es\<rparr>))"

definition yy_delete_buffer :: "ptr \<Rightarrow> scanner_blocks \<Rightarrow> heap \<Rightarrow> (scanner_blocks \<times> heap) res" where
  "yy_delete_buffer b s h =
     (case b of
        None \<Rightarrow> Inr (s, h)
      | Some a \<Rightarrow>
          bindR (yy_current_buffer s h) (\<lambda>cur.
          bindR (if cur = Some a then yy_set_current None s else Inr s) (\<lambda>s.
          bindR (deref (Some a) h) (\<lambda>_.
          bindR (of_pointer (buffers s a)) (\<lambda>(chars, ours).
          bindR (if ours then free_c chars h else Inr h) (\<lambda>h.
          bindR (free_c (Some a) h) (\<lambda>h.
          Inr (s\<lparr>buffers := (buffers s)(a := None)\<rparr>, h))))))))"

definition yypop_buffer_state :: "scanner_blocks \<Rightarrow> heap \<Rightarrow> (scanner_blocks \<times> heap) res" where
  "yypop_buffer_state s h =
     bindR (yy_current_buffer s h) (\<lambda>cur.
     if cur = None then Inr (s, h)
     else
       bindR (yy_delete_buffer cur s h) (\<lambda>(s, h).
       bindR (yy_set_current None s) (\<lambda>s.
       Inr (if yy_buffer_stack_top s > 0
            then s\<lparr>yy_buffer_stack_top := yy_buffer_stack_top s - 1\<rparr> else s, h))))"

text \<open>A new buffer on the stack: it replaces the top if that is null.\<close>

definition yypush_buffer_state :: "ptr \<Rightarrow> scanner_blocks \<Rightarrow> heap \<Rightarrow> (scanner_blocks \<times> heap) res" where
  "yypush_buffer_state new_buffer s h =
     (if new_buffer = None then Inr (s, h)
      else
        bindR (yyensure_buffer_stack s h) (\<lambda>(s, h).
        bindR (yy_current_buffer s h) (\<lambda>cur.
        let s = (if cur \<noteq> None then s\<lparr>yy_buffer_stack_top := yy_buffer_stack_top s + 1\<rparr> else s) in
        bindR (yy_set_current new_buffer s) (\<lambda>s. Inr (s, h)))))"

text \<open>The growth of the current buffer in \<^verbatim>\<open>yy_get_next_buffer\<close>, \<open>k\<close> times.\<close>

fun grow_buffer :: "nat \<Rightarrow> scanner_blocks \<Rightarrow> heap \<Rightarrow> (scanner_blocks \<times> heap) res" where
  "grow_buffer 0 s h = Inr (s, h)"
| "grow_buffer (Suc k) s h =
     bindR (yy_current_buffer s h) (\<lambda>cur.
     bindR (deref cur h) (\<lambda>b.
     bindR (of_pointer (buffers s b)) (\<lambda>(chars, ours).
     if \<not> ours then yy_fatal_error
     else
       bindR (realloc chars h) (\<lambda>(p, h).
       if p = None then yy_fatal_error
       else grow_buffer k (s\<lparr>buffers := (buffers s)(b \<mapsto> (p, ours))\<rparr>) h))))"

text \<open>
  The loop of \<^verbatim>\<open>yylex_destroy\<close>: the entry of the buffer that is deleted is null before
  \<^verbatim>\<open>yypop_buffer_state\<close> tests it.
\<close>

partial_function (option) destroy_loop :: "scanner_blocks \<Rightarrow> heap \<Rightarrow> (scanner_blocks \<times> heap) res option" where
  "destroy_loop s h =
     (case yy_current_buffer s h of
        Inl e \<Rightarrow> Some (Inl e)
      | Inr None \<Rightarrow> Some (Inr (s, h))
      | Inr (Some b) \<Rightarrow>
          (case bindR (yy_delete_buffer (Some b) s h) (\<lambda>(s, h).
                bindR (yy_set_current None s) (\<lambda>s. yypop_buffer_state s h)) of
             Inl e \<Rightarrow> Some (Inl e)
           | Inr (s, h) \<Rightarrow> destroy_loop s h))"

definition yylex_destroy :: "scanner_blocks \<Rightarrow> heap \<Rightarrow> heap res option" where
  "yylex_destroy s h =
     (case destroy_loop s h of
        None \<Rightarrow> None
      | Some (Inl e) \<Rightarrow> Some (Inl e)
      | Some (Inr (s, h)) \<Rightarrow>
          Some (bindR (free_c (yy_buffer_stack s) h) (\<lambda>h. free_c (Some (guts s)) h)))"

lemma yy_current_None: "yy_buffer_stack s = None \<Longrightarrow> yy_current_buffer s h = Inr None"
  by (simp add: yy_current_buffer_def)

lemma yy_current_live:
  "yy_buffer_stack s = Some a \<Longrightarrow> a \<in> live h \<Longrightarrow> yy_buffer_stack_top s < length (stack_entries s) \<Longrightarrow>
    yy_current_buffer s h = Inr (stack_entries s ! yy_buffer_stack_top s)"
  by (simp add: yy_current_buffer_def)

text \<open>
  The loop ends after its first round, whatever lies below the top: the top entry has become null,
  so \<^verbatim>\<open>yypop_buffer_state\<close> returns at once and the top stays where it is.
\<close>

lemma destroy_loop_once:
  assumes "yy_buffer_stack s = Some a" "a \<in> live h" "yy_buffer_stack_top s < length (stack_entries s)"
    "stack_entries s ! yy_buffer_stack_top s = Some b" "b \<in> live h" "buffers s b = Some (Some c, True)"
    "c \<in> live h" "a \<noteq> b" "a \<noteq> c" "b \<noteq> c"
  shows "destroy_loop s h = Some (Inr (s\<lparr>stack_entries := (stack_entries s)[yy_buffer_stack_top s := None],
      buffers := (buffers s)(b := None)\<rparr>, h\<lparr>live := live h - {b, c}\<rparr>))"
proof -
  let ?s = "s\<lparr>stack_entries := (stack_entries s)[yy_buffer_stack_top s := None], buffers := (buffers s)(b := None)\<rparr>"
  let ?h = "h\<lparr>live := live h - {b, c}\<rparr>"
  have cur: "yy_current_buffer s h = Inr (Some b)" using yy_current_live [of s a h] assms by simp
  have "yy_delete_buffer (Some b) s h = Inr (?s, ?h)"
    using assms cur
    by (auto simp: yy_delete_buffer_def yy_set_current_def of_pointer_def free_c_def Diff_insert2 [symmetric]
        insert_commute)
  moreover have "yy_set_current None ?s = Inr ?s" using assms(3) by (simp add: yy_set_current_def)
  moreover have c2: "yy_current_buffer ?s ?h = Inr None"
    using assms by (subst yy_current_live [of _ a]) simp_all
  moreover have "yypop_buffer_state ?s ?h = Inr (?s, ?h)"
    using c2 by (simp add: yypop_buffer_state_def)
  moreover have "destroy_loop ?s ?h = Some (Inr (?s, ?h))"
    using c2 by (subst destroy_loop.simps) simp
  ultimately show ?thesis
    using cur by (subst destroy_loop.simps) simp
qed

section \<open>A session and the whole program\<close>

text \<open>
  The session of \<^verbatim>\<open>gdb_scanner\<close>: the stream that \<^verbatim>\<open>fdopen\<close> makes of the connection is a block of
  the C library. \<open>used\<close> says whether a packet makes the scanner use the protocol data, and \<open>k\<close> how
  often its buffer grows.
\<close>

definition scan_session :: "bool \<Rightarrow> nat \<Rightarrow> ptr \<Rightarrow> scanner_blocks \<Rightarrow> heap \<Rightarrow> (scanner_blocks \<times> heap) res" where
  "scan_session used k gdb s h =
     bindR (yyensure_buffer_stack s h) (\<lambda>(s, h).
     bindR (yy_create_buffer_alloc s h) (\<lambda>(b, s, h).
     bindR (yy_set_current (Some b) s) (\<lambda>s.
     bindR (if used then bindR (deref gdb h) (\<lambda>_. Inr ()) else Inr ()) (\<lambda>_.
     grow_buffer k s h))))"

definition gdb_scanner_heap :: "bool \<Rightarrow> nat \<Rightarrow> heap \<Rightarrow> heap res option" where
  "gdb_scanner_heap used k h =
     (case malloc h of (gdb, h) \<Rightarrow>
      case malloc h of (f, h) \<Rightarrow>
      if f = None then Some (Inr h)
      else
        (case yylex_init_extra h of
           (None, h) \<Rightarrow> Some (Inl Null_Pointer)
         | (Some s, h) \<Rightarrow>
             (case scan_session used k gdb s h of
                Inl e \<Rightarrow> Some (Inl e)
              | Inr (s, h) \<Rightarrow>
                  (case yylex_destroy s h of
                     None \<Rightarrow> None
                   | Some r \<Rightarrow> Some (bindR r (gdb_release_data gdb))))))"

text \<open>What a session leaves allocated: the stream, or the protocol data if there is no stream.\<close>

definition session_leak :: "heap \<Rightarrow> nat set" where
  "session_leak h =
     (case malloc h of (gdb, h) \<Rightarrow> case malloc h of (f, h) \<Rightarrow> set_option (if f = None then gdb else f))"

text \<open>The scanner owns its structure, its stack and the buffer on it, and nothing else.\<close>

definition scanner_owns :: "scanner_blocks \<Rightarrow> nat \<Rightarrow> nat \<Rightarrow> nat \<Rightarrow> bool" where
  "scanner_owns s a b c \<longleftrightarrow> yy_buffer_stack s = Some a \<and> stack_entries s = [Some b]
     \<and> yy_buffer_stack_top s = 0 \<and> buffers s = [b \<mapsto> (Some c, True)] \<and> distinct [guts s, a, b, c]"

lemma realloc_gain:
  assumes "wf_heap h" "gains h0 (insert c S) h" "c \<notin> S" "realloc (Some c) h = Inr (Some c', h')" "wf_heap h0"
  shows "gains h0 (insert c' S) h' \<and> c' \<notin> S \<and> c' \<noteq> c"
  using assms(1)
proof (cases rule: malloc_cases)
  case (refused h1)
  then show ?thesis using assms(4) by (simp add: realloc_def)
next
  case (given d h1)
  then have d: "c' = d" "h' = h1\<lparr>live := live h1 - {c}\<rparr>"
    using assms(2,4) by (auto simp: realloc_def free_c_def bindR_eq_Inr gains_def split: if_splits)
  have "c \<notin> live h0" using gains_fresh [OF assms(5,2)] by auto
  then show ?thesis
    using given assms(2,3) gains_fresh [OF assms(1) given(2)] by (auto simp: d gains_def wf_heap_def)
qed

lemma grow_buffer_owns:
  assumes "scanner_owns s a b c" "gains h0 {guts s, a, b, c} h" "wf_heap h0" "grow_buffer k s h = Inr (s', h')"
  shows "\<exists>c'. scanner_owns s' a b c' \<and> guts s' = guts s \<and> gains h0 {guts s, a, b, c'} h'"
  using assms(1,2,4)
proof (induction k arbitrary: s h c)
  case 0
  then show ?case by auto
next
  case (Suc k)
  note o = Suc.prems(1) [unfolded scanner_owns_def]
  have l: "a \<in> live h" "b \<in> live h" "c \<in> live h" and w: "wf_heap h"
    using Suc.prems(2) by (auto simp: gains_def)
  obtain c1 h1 where r: "realloc (Some c) h = Inr (Some c1, h1)"
    "grow_buffer k (s\<lparr>buffers := (buffers s)(b \<mapsto> (Some c1, True))\<rparr>) h1 = Inr (s', h')"
    using Suc.prems(3) o l yy_current_live [of s a h]
    by (auto simp: bindR_eq_Inr of_pointer_def yy_fatal_error_def split: if_splits prod.splits)
  have g: "gains h0 (insert c {guts s, a, b}) h" "c \<notin> {guts s, a, b}"
    using Suc.prems(2) o by (auto simp: insert_commute)
  note rg = realloc_gain [OF w g r(1) assms(3)]
  let ?s = "s\<lparr>buffers := (buffers s)(b \<mapsto> (Some c1, True))\<rparr>"
  have "scanner_owns ?s a b c1" using o rg by (auto simp: scanner_owns_def)
  moreover have "gains h0 {guts ?s, a, b, c1} h1" using rg by (auto simp: insert_commute)
  ultimately show ?case using Suc.IH r(2) by fastforce
qed

lemma scan_session_owns:
  assumes "wf_heap h" "yylex_init_extra h = (Some s, h1)" "scan_session used k gdb s h1 = Inr (s', h')"
  shows "\<exists>a b c. scanner_owns s' a b c \<and> gains h {guts s', a, b, c} h'"
proof -
  obtain g where g: "malloc h = (Some g, h1)" "s = \<lparr>guts = g, yy_buffer_stack = None, stack_entries = [],
      yy_buffer_stack_top = 0, buffers = Map.empty\<rparr>" "gains h {g} h1"
    using assms(1) by (cases rule: malloc_cases) (use assms(2) in \<open>auto simp: yylex_init_extra_def\<close>)
  have w1: "wf_heap h1" using g(3) by (simp add: gains_def)
  obtain a h2 where a: "malloc h1 = (Some a, h2)" "gains h1 {a} h2"
    using w1 by (cases rule: malloc_cases)
      (use assms(3) g(2) in \<open>auto simp: scan_session_def yyensure_buffer_stack_def yy_fatal_error_def\<close>)
  have w2: "wf_heap h2" using a(2) by (simp add: gains_def)
  let ?s = "s\<lparr>yy_buffer_stack := Some a, stack_entries := [None], yy_buffer_stack_top := 0\<rparr>"
  have e: "yyensure_buffer_stack s h1 = Inr (?s, h2)"
    using a(1) g(2) by (simp add: yyensure_buffer_stack_def)
  obtain b h3 where b: "malloc h2 = (Some b, h3)" "gains h2 {b} h3"
    using w2 by (cases rule: malloc_cases)
      (use assms(3) e in \<open>auto simp: scan_session_def yy_create_buffer_alloc_def yy_fatal_error_def\<close>)
  have w3: "wf_heap h3" using b(2) by (simp add: gains_def)
  obtain c h4 where c: "malloc h3 = (Some c, h4)" "gains h3 {c} h4"
    using w3 by (cases rule: malloc_cases)
      (use assms(3) e b(1) in \<open>auto simp: scan_session_def yy_create_buffer_alloc_def yy_fatal_error_def\<close>)
  let ?t = "?s\<lparr>buffers := [b \<mapsto> (Some c, True)], stack_entries := [Some b]\<rparr>"
  have grow: "grow_buffer k ?t h4 = Inr (s', h')"
    using assms(3) e b(1) c(1) g(2)
    by (auto simp: scan_session_def yy_create_buffer_alloc_def yy_set_current_def bindR_eq_Inr split: if_splits)
  have gain: "gains h {g, a, b, c} h4"
    using gains_trans [OF gains_trans [OF gains_trans [OF g(3) a(2)] b(2)] c(2)] by (simp add: insert_commute)
  have d: "distinct [g, a, b, c]"
    using gains_fresh [OF w1 a(2)] gains_fresh [OF w2 b(2)] gains_fresh [OF w3 c(2)] g(3) a(2) b(2)
    by (auto simp: gains_def)
  have "scanner_owns ?t a b c" using d g(2) by (simp add: scanner_owns_def)
  moreover have "guts ?t = g" using g(2) by simp
  ultimately show ?thesis
    using grow_buffer_owns [OF _ _ assms(1) grow] gain by metis
qed

lemma yylex_destroy_all:
  assumes "scanner_owns s a b c" "{guts s, a, b, c} \<subseteq> live h"
  shows "yylex_destroy s h = Some (Inr (h\<lparr>live := live h - {guts s, a, b, c}\<rparr>))"
proof -
  note o = assms(1) [unfolded scanner_owns_def]
  have "destroy_loop s h = Some (Inr (s\<lparr>stack_entries := (stack_entries s)[yy_buffer_stack_top s := None],
      buffers := (buffers s)(b := None)\<rparr>, h\<lparr>live := live h - {b, c}\<rparr>))"
    using o assms(2) by (intro destroy_loop_once) auto
  then show ?thesis
    using o assms(2)
    by (auto simp: yylex_destroy_def free_c_def intro!: arg_cong [where f = "\<lambda>l. h\<lparr>live := l\<rparr>"])
qed

text \<open>A session that returns leaves one block, at most, and nothing it did not allocate is released.\<close>

lemma gdb_scanner_heap_gain:
  assumes "wf_heap h" "gdb_scanner_heap used k h = Some (Inr h')"
  shows "gains h (session_leak h) h'"
proof -
  obtain gdb h1 where m1: "malloc h = (gdb, h1)" by force
  have g1: "gains h (set_option gdb) h1"
    using assms(1) by (cases rule: malloc_cases) (use m1 in auto)
  then have w1: "wf_heap h1" by (simp add: gains_def)
  obtain f h2 where m2: "malloc h1 = (f, h2)" by force
  have g2: "gains h1 (set_option f) h2"
    using w1 by (cases rule: malloc_cases) (use m2 in auto)
  then have w2: "wf_heap h2" by (simp add: gains_def)
  have leak: "session_leak h = set_option (if f = None then gdb else f)"
    by (simp add: session_leak_def m1 m2)
  show ?thesis
  proof (cases f)
    case None
    then have "h' = h2" using assms(2) m1 m2 by (simp add: gdb_scanner_heap_def)
    then show ?thesis using gains_trans [OF g1 g2] leak None by simp
  next
    case (Some fa)
    obtain s h3 where i: "yylex_init_extra h2 = (Some s, h3)"
      using assms(2) m1 m2 Some by (auto simp: gdb_scanner_heap_def split: prod.splits option.splits)
    obtain s' h4 where ss: "scan_session used k gdb s h3 = Inr (s', h4)"
      using assms(2) m1 m2 Some i by (auto simp: gdb_scanner_heap_def split: sum.splits)
    obtain a b c where o: "scanner_owns s' a b c" "gains h2 {guts s', a, b, c} h4"
      using scan_session_owns [OF w2 i ss] by blast
    let ?S = "{guts s', a, b, c}"
    have "yylex_destroy s' h4 = Some (Inr (h4\<lparr>live := live h4 - ?S\<rparr>))"
      by (rule yylex_destroy_all [OF o(1)]) (use o(2) in \<open>auto simp: gains_def\<close>)
    then have r: "gdb_release_data gdb (h4\<lparr>live := live h4 - ?S\<rparr>) = Inr h'"
      using assms(2) m1 m2 Some i ss by (simp add: gdb_scanner_heap_def)
    have l4: "live h4 - ?S = live h2" using o(2) gains_fresh [OF w2 o(2)] by (auto simp: gains_def)
    have fg: "fa \<notin> set_option gdb" "set_option gdb \<inter> live h = {}"
      using gains_fresh [OF w1 g2] g1 Some gains_fresh [OF assms(1) g1] by (auto simp: gains_def)
    have h': "live h' = live h2 - set_option gdb" "next_block h' = next_block h4"
    proof -
      have "\<exists>l. h' = h4\<lparr>live := l\<rparr> \<and> l = live h2 - set_option gdb"
        using r by (cases gdb) (auto simp: gdb_release_data_def free_c_def l4 split: if_splits)
      then show "live h' = live h2 - set_option gdb" "next_block h' = next_block h4" by auto
    qed
    have live: "live h1 = live h \<union> set_option gdb" "live h2 = live h1 \<union> {fa}" "live h2 \<subseteq> live h4"
      using g1 g2 o(2) Some by (auto simp: gains_def)
    have next': "next_block h \<le> next_block h1" "next_block h1 \<le> fa" "next_block h1 \<le> next_block h2"
      "next_block h2 \<le> next_block h4" and w4: "wf_heap h4"
      using g1 g2 o(2) Some by (simp_all add: gains_def)
    have "live h' = live h \<union> {fa}" unfolding h'(1) live(1,2) using fg by auto
    moreover from this have "wf_heap h'" using w4 live(3) h'(1,2) unfolding wf_heap_def by (metis DiffD1 subsetD)
    ultimately show ?thesis using next' h'(2) leak Some by (simp add: gains_def)
  qed
qed

text \<open>
  The program from the allocation of the memory to the end of \<^verbatim>\<open>main\<close>: the thread of the debugger is
  joined before everything is released. The thread of the interrupts allocates nothing.
\<close>

definition program_heap :: "bool \<Rightarrow> nat \<Rightarrow> heap \<Rightarrow> heap res option" where
  "program_heap used k h =
     (case bindR (memory_alloc h) (\<lambda>(m, h). bindR (registers_alloc h) (\<lambda>(r, h).
           bindR (arm_alloc r m h) (\<lambda>(p, h).
           bindR (if used then bindR (of_pointer p) (\<lambda>_. Inr ()) else Inr ()) (\<lambda>_.
           Inr (m, r, p, h))))) of
        Inl e \<Rightarrow> Some (Inl e)
      | Inr (m, r, p, h) \<Rightarrow>
          map_option (\<lambda>x. bindR x (\<lambda>h. bindR (arm_destroy p h) (\<lambda>h.
            bindR (registers_destroy r h) (memory_destroy m)))) (gdb_scanner_heap used k h))"

lemma program_heap_parts:
  assumes "wf_heap h" "program_heap used k h = Some (Inr h')"
  shows "\<exists>S. card S \<le> 1 \<and> finite S \<and> gains h S h'"
proof -
  obtain m r p h1 h2 h3 where c: "memory_alloc h = Inr (m, h1)" "registers_alloc h1 = Inr (r, h2)"
    "arm_alloc r m h2 = Inr (p, h3)"
    and s: "map_option (\<lambda>x. bindR x (\<lambda>h. bindR (arm_destroy p h) (\<lambda>h.
            bindR (registers_destroy r h) (memory_destroy m)))) (gdb_scanner_heap used k h3) = Some (Inr h')"
    using assms(2) by (auto simp: program_heap_def bindR_eq_Inr split: sum.splits)
  have w1: "wf_heap h1" using memory_cycle.create_gains [OF assms(1) c(1)] by (simp add: gains_def)
  have w2: "wf_heap h2" using register_cycle.create_gains [OF w1 c(2)] by (simp add: gains_def)
  have w3: "wf_heap h3" using core_cycle.create_gains [OF w2 c(3)] by (simp add: gains_def)
  obtain h4 where h4: "gdb_scanner_heap used k h3 = Some (Inr h4)"
    "bindR (arm_destroy p h4) (\<lambda>h. bindR (registers_destroy r h) (memory_destroy m)) = Inr h'"
    using s by (auto simp: bindR_eq_Inr)
  let ?S = "session_leak h3"
  obtain h5 where h5: "arm_destroy p h4 = Inr h5" "gains h2 ?S h5"
    using core_cycle.release [OF w2 c(3) gdb_scanner_heap_gain [OF w3 h4(1)]] by blast
  obtain h6 where h6: "registers_destroy r h5 = Inr h6" "gains h1 ?S h6"
    using register_cycle.release [OF w1 c(2) h5(2)] by blast
  obtain h7 where h7: "memory_destroy m h6 = Inr h7" "gains h ?S h7"
    using memory_cycle.release [OF assms(1) c(1) h6(2)] by blast
  have "h' = h7" using h4(2) h5(1) h6(1) h7(1) by simp
  moreover obtain gdb g f g' where "malloc h3 = (gdb, g)" "malloc g = (f, g')" by fastforce
  then have "?S = set_option (if f = None then gdb else f)" by (simp add: session_leak_def)
  then have "card ?S \<le> 1" "finite ?S" by (cases "if f = None then gdb else f"; simp)+
  ultimately show ?thesis using h7(2) by blast
qed

text \<open>When no request is refused everything is given.\<close>

lemma malloc_generous:
  assumes "wf_heap h" "refusals h = []"
  obtains a h' where "malloc h = (Some a, h')" "gains h {a} h'" "refusals h' = []"
  using assms(1) by (cases rule: malloc_cases) (use assms(2) that in \<open>auto simp: malloc_def\<close>)

lemma register_tables_generous:
  assumes "wf_heap h" "refusals h = []" "a \<in> live h"
  shows "\<exists>ts h'. register_tables n (Some a) h = Inr (ts, h') \<and> refusals h' = []
    \<and> (\<forall>(ptrs, data) \<in> set ts. data \<noteq> None)"
  using assms
proof (induction n arbitrary: h)
  case (Suc n)
  obtain p h1 where p: "malloc h = (Some p, h1)" "gains h {p} h1" "refusals h1 = []"
    using malloc_generous [OF Suc.prems(1,2)] by blast
  have w1: "wf_heap h1" using p(2) by (simp add: gains_def)
  obtain d h2 where d: "malloc h1 = (Some d, h2)" "gains h1 {d} h2" "refusals h2 = []"
    using malloc_generous [OF w1 p(3)] by blast
  have "wf_heap h2" "a \<in> live h2" using p(2) d(2) Suc.prems(3) by (auto simp: gains_def)
  then obtain ts h' where "register_tables n (Some a) h2 = Inr (ts, h')" "refusals h' = []"
    "\<forall>(ptrs, data) \<in> set ts. data \<noteq> None"
    using Suc.IH d(3) by blast
  then show ?case using p(1) d(1) Suc.prems(3) by auto
qed simp

lemma registers_alloc_generous:
  assumes "wf_heap h" "refusals h = []"
  shows "\<exists>b h'. registers_alloc h = Inr (Some b, h') \<and> refusals h' = [] \<and> register_owned b \<subseteq> live h'
    \<and> wf_heap h' \<and> (\<forall>(ptrs, data) \<in> set (reg_tables b). data \<noteq> None) \<and> length (reg_tables b) = N_REGISTRES"
proof -
  obtain r h1 where r: "malloc h = (Some r, h1)" "gains h {r} h1" "refusals h1 = []"
    using malloc_generous [OF assms] by blast
  have w1: "wf_heap h1" using r(2) by (simp add: gains_def)
  obtain a h2 where a: "malloc h1 = (Some a, h2)" "gains h1 {a} h2" "refusals h2 = []"
    using malloc_generous [OF w1 r(3)] by blast
  have w2: "wf_heap h2" "a \<in> live h2" using a(2) by (auto simp: gains_def)
  obtain ts h' where ts: "register_tables N_REGISTRES (Some a) h2 = Inr (ts, h')" "refusals h' = []"
    "\<forall>(ptrs, data) \<in> set ts. data \<noteq> None"
    using register_tables_generous [OF w2(1) a(3) w2(2)] by blast
  note g = register_tables_gain [OF w2(1) ts(1)]
  have "a \<in> live h'" "r \<in> live h'" using g w2(2) r(2) a(2) by (auto simp: gains_def)
  then show ?thesis
    using r(1) a(1) ts g
    by (intro exI [of _ "\<lparr>reg_struct = r, reg_array = a, reg_tables = ts\<rparr>"] exI [of _ h'])
      (auto simp: registers_alloc_def register_owned_def gains_def simp del: register_tables.simps)
qed

lemma grow_buffer_generous:
  assumes "scanner_owns s a b c" "{guts s, a, b, c} \<subseteq> live h" "wf_heap h" "refusals h = []"
  shows "\<exists>s' h'. grow_buffer k s h = Inr (s', h')"
  using assms
proof (induction k arbitrary: s h c)
  case (Suc k)
  note o = Suc.prems(1) [unfolded scanner_owns_def]
  obtain d h1 where d: "malloc h = (Some d, h1)" "gains h {d} h1" "refusals h1 = []"
    using malloc_generous [OF Suc.prems(3,4)] by blast
  let ?h = "h1\<lparr>live := live h1 - {c}\<rparr>"
  have c: "c \<in> live h1" using d(2) Suc.prems(2) by (auto simp: gains_def)
  have r: "realloc (Some c) h = Inr (Some d, ?h)"
    using d(1) c by (simp add: realloc_def free_c_def)
  have nd: "d \<notin> live h" using gains_fresh [OF Suc.prems(3) d(2)] by auto
  let ?s = "s\<lparr>buffers := (buffers s)(b \<mapsto> (Some d, True))\<rparr>"
  have "scanner_owns ?s a b d" using o nd Suc.prems(2) by (auto simp: scanner_owns_def)
  moreover have "{guts ?s, a, b, d} \<subseteq> live ?h" using o d(2) Suc.prems(2) nd by (auto simp: gains_def)
  moreover have "wf_heap ?h" using d(2) by (intro wf_heap_remove) (simp add: gains_def)
  ultimately obtain s' h' where "grow_buffer k ?s ?h = Inr (s', h')" using Suc.IH d(3) by force
  then show ?case
    using o Suc.prems(2) yy_current_live [of s a h] r by (auto simp: of_pointer_def)
qed simp

lemma scan_session_generous:
  assumes "wf_heap h" "refusals h = []" "gdb \<in> live h"
  shows "\<exists>s h1 s' h'. yylex_init_extra h = (Some s, h1) \<and> scan_session used k (Some gdb) s h1 = Inr (s', h')"
proof -
  obtain g h1 where g: "malloc h = (Some g, h1)" "gains h {g} h1" "refusals h1 = []"
    using malloc_generous [OF assms(1,2)] by blast
  have w1: "wf_heap h1" using g(2) by (simp add: gains_def)
  obtain a h2 where a: "malloc h1 = (Some a, h2)" "gains h1 {a} h2" "refusals h2 = []"
    using malloc_generous [OF w1 g(3)] by blast
  have w2: "wf_heap h2" using a(2) by (simp add: gains_def)
  obtain b h3 where b: "malloc h2 = (Some b, h3)" "gains h2 {b} h3" "refusals h3 = []"
    using malloc_generous [OF w2 a(3)] by blast
  have w3: "wf_heap h3" using b(2) by (simp add: gains_def)
  obtain c h4 where c: "malloc h3 = (Some c, h4)" "gains h3 {c} h4" "refusals h4 = []"
    using malloc_generous [OF w3 b(3)] by blast
  let ?t = "\<lparr>guts = g, yy_buffer_stack = Some a, stack_entries = [Some b], yy_buffer_stack_top = 0,
    buffers = [b \<mapsto> (Some c, True)]\<rparr>"
  have "distinct [g, a, b, c]"
    using gains_fresh [OF w1 a(2)] gains_fresh [OF w2 b(2)] gains_fresh [OF w3 c(2)] g(2) a(2) b(2)
    by (auto simp: gains_def)
  then have "scanner_owns ?t a b c" by (simp add: scanner_owns_def)
  moreover have l: "{guts ?t, a, b, c} \<subseteq> live h4" "gdb \<in> live h4" "wf_heap h4"
    using g(2) a(2) b(2) c(2) assms(3) by (auto simp: gains_def)
  ultimately obtain s' h' where "grow_buffer k ?t h4 = Inr (s', h')"
    using grow_buffer_generous [of ?t a b c h4 k] c(3) by auto
  then show ?thesis
    using g(1) a(1) b(1) c(1) l(2)
    by (auto simp: yylex_init_extra_def scan_session_def yyensure_buffer_stack_def
        yy_create_buffer_alloc_def yy_set_current_def)
qed

lemma gdb_scanner_heap_generous:
  assumes "wf_heap h" "refusals h = []"
  shows "\<exists>h' f. gdb_scanner_heap used k h = Some (Inr h') \<and> session_leak h = {f}"
proof -
  obtain gdb h1 where g: "malloc h = (Some gdb, h1)" "gains h {gdb} h1" "refusals h1 = []"
    using malloc_generous [OF assms] by blast
  have w1: "wf_heap h1" using g(2) by (simp add: gains_def)
  obtain f h2 where f: "malloc h1 = (Some f, h2)" "gains h1 {f} h2" "refusals h2 = []"
    using malloc_generous [OF w1 g(3)] by blast
  have w2: "wf_heap h2" "gdb \<in> live h2" using f(2) g(2) by (auto simp: gains_def)
  obtain s h3 s' h4 where s: "yylex_init_extra h2 = (Some s, h3)"
    "scan_session used k (Some gdb) s h3 = Inr (s', h4)"
    using scan_session_generous [OF w2(1) f(3) w2(2)] by blast
  obtain a b c where o: "scanner_owns s' a b c" "gains h2 {guts s', a, b, c} h4"
    using scan_session_owns [OF w2(1) s] by blast
  have "yylex_destroy s' h4 = Some (Inr (h4\<lparr>live := live h4 - {guts s', a, b, c}\<rparr>))"
    by (rule yylex_destroy_all [OF o(1)]) (use o(2) in \<open>auto simp: gains_def\<close>)
  moreover have "gdb \<in> live h4 - {guts s', a, b, c}"
    using o(2) w2(2) gains_fresh [OF w2(1) o(2)] by (auto simp: gains_def)
  ultimately show ?thesis
    using g(1) f(1) s by (auto simp: gdb_scanner_heap_def session_leak_def gdb_release_data_def free_c_def)
qed

lemma program_heap_generous:
  assumes "wf_heap h" "refusals h = []"
  shows "\<exists>h' S. program_heap used k h = Some (Inr h') \<and> card S = 1 \<and> gains h S h'"
proof -
  obtain s h1 where m1: "malloc h = (Some s, h1)" "gains h {s} h1" "refusals h1 = []"
    using malloc_generous [OF assms] by blast
  have w1: "wf_heap h1" using m1(2) by (simp add: gains_def)
  obtain d h2 where m2: "malloc h1 = (Some d, h2)" "gains h1 {d} h2" "refusals h2 = []"
    using malloc_generous [OF w1 m1(3)] by blast
  have w2: "wf_heap h2" "s \<in> live h2" using m2(2) m1(2) by (auto simp: gains_def)
  let ?m = "Some \<lparr>mem_struct = s, mem_data = d\<rparr>"
  have m: "memory_alloc h = Inr (?m, h2)" using m1(1) m2(1) by (simp add: memory_alloc_def)
  obtain b h3 where r: "registers_alloc h2 = Inr (Some b, h3)" "refusals h3 = []"
    "register_owned b \<subseteq> live h3" "wf_heap h3" "\<forall>(ptrs, data) \<in> set (reg_tables b). data \<noteq> None"
    "length (reg_tables b) = N_REGISTRES"
    using registers_alloc_generous [OF w2(1) m2(3)] by blast
  have s3: "s \<in> live h3" using register_cycle.create_gains [OF w2(1) r(1)] w2(2) by (auto simp: gains_def)
  obtain p h4 where p: "malloc h3 = (Some p, h4)" "gains h3 {p} h4" "refusals h4 = []"
    using malloc_generous [OF r(4,2)] by blast
  have l4: "register_owned b \<subseteq> live h4" "s \<in> live h4" and w4: "wf_heap h4"
    using p(2) r(3) s3 by (auto simp: gains_def)
  let ?p = "Some \<lparr>core_struct = p, core_reg = Some b, core_mem = ?m\<rparr>"
  have a: "arm_alloc (Some b) ?m h3 = Inr (?p, h4)"
    using p(1) l4 touch_live [OF l4(1) r(5)] touch_cpsr_live [OF l4(1) r(5)] r(6)
    by (simp add: arm_alloc_def of_pointer_def)
  obtain h5 where h5: "gdb_scanner_heap used k h4 = Some (Inr h5)"
    using gdb_scanner_heap_generous [OF w4 p(3)] by blast
  obtain h6 where h6: "arm_destroy ?p h5 = Inr h6" "gains h3 (session_leak h4) h6"
    using core_cycle.release [OF r(4) a gdb_scanner_heap_gain [OF w4 h5]] by blast
  obtain h7 where h7: "registers_destroy (Some b) h6 = Inr h7" "gains h2 (session_leak h4) h7"
    using register_cycle.release [OF w2(1) r(1) h6(2)] by blast
  obtain h8 where h8: "memory_destroy ?m h7 = Inr h8" "gains h (session_leak h4) h8"
    using memory_cycle.release [OF assms(1) m h7(2)] by blast
  have "card (session_leak h4) = 1" using p(3) by (simp add: session_leak_def malloc_def)
  moreover have "program_heap used k h = Some (Inr h8)"
    using m r(1) a h5 h6(1) h7(1) h8(1) by (cases used) (auto simp: program_heap_def of_pointer_def)
  ultimately show ?thesis using h8(2) by blast
qed

text \<open>
  The options come first: each option for a trace file opens one, and the stream of \<^verbatim>\<open>fopen\<close> is a block
  of the C library, as the one of \<^verbatim>\<open>fdopen\<close> is. \<open>n\<close> is the number of these options; a file that cannot
  be opened ends the process.
\<close>

fun open_trace_files :: "nat \<Rightarrow> heap \<Rightarrow> heap res" where
  "open_trace_files 0 h = Inr h"
| "open_trace_files (Suc n) h =
     (case malloc h of
        (None, h) \<Rightarrow> Inl (Process_Exit 1)
      | (Some trace_file, h) \<Rightarrow> open_trace_files n h)"

definition simulator_heap :: "nat \<Rightarrow> bool \<Rightarrow> nat \<Rightarrow> heap \<Rightarrow> heap res option" where
  "simulator_heap n used k h =
     (case open_trace_files n h of Inl e \<Rightarrow> Some (Inl e) | Inr h \<Rightarrow> program_heap used k h)"

lemma open_trace_files_gain:
  "wf_heap h \<Longrightarrow> open_trace_files n h = Inr h' \<Longrightarrow> \<exists>T. card T = n \<and> finite T \<and> gains h T h'"
proof (induction n arbitrary: h)
  case 0
  then show ?case by (intro exI [of _ "{}"]) (simp add: gains_refl)
next
  case (Suc n)
  from Suc.prems(1) show ?case
  proof (cases rule: malloc_cases)
    case (given a h1)
    have w1: "wf_heap h1" using given(2) by (simp add: gains_def)
    obtain T where T: "card T = n" "finite T" "gains h1 T h'"
      using Suc.IH [OF w1] Suc.prems(2) given(1) by auto
    have "a \<notin> T" using gains_fresh [OF w1 T(3)] given(2) by (auto simp: gains_def)
    then have "card ({a} \<union> T) = Suc n" "finite ({a} \<union> T)" using T(1,2) by auto
    then show ?thesis using gains_trans [OF given(2) T(3)] by blast
  qed (use Suc.prems(2) in simp)
qed

lemma open_trace_files_generous:
  "wf_heap h \<Longrightarrow> refusals h = [] \<Longrightarrow> \<exists>h'. open_trace_files n h = Inr h' \<and> refusals h' = []"
proof (induction n arbitrary: h)
  case (Suc n)
  obtain a h1 where "malloc h = (Some a, h1)" "gains h {a} h1" "refusals h1 = []"
    using malloc_generous [OF Suc.prems] by blast
  then show ?case using Suc.IH [of h1] by (auto simp: gains_def)
qed simp

lemma gains_both:
  assumes "wf_heap h" "gains h T h1" "gains h1 S h'" "finite T" "finite S"
  shows "finite (T \<union> S) \<and> card (T \<union> S) = card T + card S \<and> (T \<union> S) \<inter> live h = {} \<and> live h' = live h \<union> (T \<union> S)"
proof -
  have "wf_heap h1" using assms(2) by (simp add: gains_def)
  then have "T \<inter> S = {}" using gains_fresh [OF _ assms(3)] assms(2) by (auto simp: gains_def)
  moreover have "gains h (T \<union> S) h'" using assms(2,3) by (rule gains_trans)
  ultimately show ?thesis
    using assms(4,5) gains_fresh [OF assms(1), of "T \<union> S" h'] by (simp add: card_Un_disjoint gains_def)
qed

text \<open>C16: A run of the simulator with \<open>n\<close> options for a trace file that returns has released everything it
  has allocated except the \<open>n\<close> streams of the trace files and at most one block more: whichever
  requests of memory are refused, however often the buffer of the scanner grows, nothing is released
  twice and nothing else is released. When no request is refused the run does return, and leaves
  \<open>n + 1\<close> blocks.\<close>

theorem simulator_releases:
  assumes "wf_heap h"
  shows "(simulator_heap n used k h = Some (Inr h') \<longrightarrow>
      (\<exists>S. finite S \<and> card S \<in> {n, n + 1} \<and> S \<inter> live h = {} \<and> live h' = live h \<union> S))
    \<and> (refusals h = [] \<longrightarrow> (\<exists>g S. simulator_heap n used k h = Some (Inr g)
      \<and> finite S \<and> card S = n + 1 \<and> S \<inter> live h = {} \<and> live g = live h \<union> S))"
proof (intro conjI impI)
  assume "simulator_heap n used k h = Some (Inr h')"
  then obtain h1 where o: "open_trace_files n h = Inr h1" "program_heap used k h1 = Some (Inr h')"
    by (auto simp: simulator_heap_def split: sum.splits)
  obtain T where T: "card T = n" "finite T" "gains h T h1" using open_trace_files_gain [OF assms o(1)] by blast
  have "wf_heap h1" using T(3) by (simp add: gains_def)
  then obtain S where S: "card S \<le> 1" "finite S" "gains h1 S h'" using program_heap_parts o(2) by blast
  have "card T + card S \<in> {n, n + 1}" using T(1) S(1) by auto
  then show "\<exists>S. finite S \<and> card S \<in> {n, n + 1} \<and> S \<inter> live h = {} \<and> live h' = live h \<union> S"
    using gains_both [OF assms T(3) S(3) T(2) S(2)] by (intro exI [of _ "T \<union> S"]) simp
next
  assume "refusals h = []"
  then obtain h1 where o: "open_trace_files n h = Inr h1" "refusals h1 = []"
    using open_trace_files_generous [OF assms] by blast
  obtain T where T: "card T = n" "finite T" "gains h T h1" using open_trace_files_gain [OF assms o(1)] by blast
  have "wf_heap h1" using T(3) by (simp add: gains_def)
  then obtain g S where S: "program_heap used k h1 = Some (Inr g)" "card S = 1" "gains h1 S g"
    using program_heap_generous o(2) by blast
  then have f: "finite S" by (metis card.infinite zero_neq_one)
  show "\<exists>g S. simulator_heap n used k h = Some (Inr g)
      \<and> finite S \<and> card S = n + 1 \<and> S \<inter> live h = {} \<and> live g = live h \<union> S"
    using gains_both [OF assms T(3) S(3) T(2) f] T(1) S(1,2) o(1)
    by (intro exI [of _ g] exI [of _ "T \<union> S"]) (simp add: simulator_heap_def)
qed

theorem simulator_releases_witness:
  "\<exists>g. simulator_heap 1 True 3 \<lparr>live = {}, next_block = 0, refusals = []\<rparr> = Some (Inr g) \<and> card (live g) = 2"
proof -
  let ?h = "\<lparr>live = {}, next_block = 0, refusals = []\<rparr>"
  have "wf_heap ?h" by (simp add: wf_heap_def)
  from conjunct2 [OF simulator_releases [OF this, of 1 True 3]]
  obtain g S where "simulator_heap 1 True 3 ?h = Some (Inr g)" "card S = 1 + 1" "live g = live ?h \<union> S"
    by auto
  then show ?thesis by simp
qed

section \<open>The two threads at the end\<close>


















end
