(* ===== verification/Rio.thy ===== *)
theory Rio
  imports Stdio
begin

text \<open>
  The robust input and output of \<^verbatim>\<open>csapp.c\<close>, with which the protocol writes its answers. The
  system calls are those of a descriptor whose calls may transfer fewer bytes than asked for, be
  interrupted or fail, as a list says.
\<close>

section \<open>Descriptors\<close>

text \<open>
  A descriptor with what arrives on it, what has been written to it, and what its calls do: a call
  transfers some bytes, at least one if there are any, is interrupted by a signal, or fails. After the
  listed calls every call transfers all it is asked for.
\<close>

datatype call = Transfers nat | Interrupted | Io_Error

record descriptor =
  incoming :: string
  outgoing :: string
  calls :: "call list"

datatype io_result = Got string | Intr | Fails

definition sys_read :: "nat \<Rightarrow> descriptor \<Rightarrow> io_result \<times> descriptor" where
  "sys_read n fd =
     (case calls fd of
        [] \<Rightarrow> (Got (take n (incoming fd)), fd\<lparr>incoming := drop n (incoming fd)\<rparr>)
      | Transfers k # cs \<Rightarrow>
          (let m = min n (max 1 k)
           in (Got (take m (incoming fd)), fd\<lparr>incoming := drop m (incoming fd), calls := cs\<rparr>))
      | Interrupted # cs \<Rightarrow> (Intr, fd\<lparr>calls := cs\<rparr>)
      | Io_Error # cs \<Rightarrow> (Fails, fd\<lparr>calls := cs\<rparr>))"

text \<open>The bytes a write accepts.\<close>

definition sys_write :: "string \<Rightarrow> descriptor \<Rightarrow> io_result \<times> descriptor" where
  "sys_write bs fd =
     (case calls fd of
        [] \<Rightarrow> (Got bs, fd\<lparr>outgoing := outgoing fd @ bs\<rparr>)
      | Transfers k # cs \<Rightarrow>
          (let m = min (length bs) (max 1 k)
           in (Got (take m bs), fd\<lparr>outgoing := outgoing fd @ take m bs, calls := cs\<rparr>))
      | Interrupted # cs \<Rightarrow> (Intr, fd\<lparr>calls := cs\<rparr>)
      | Io_Error # cs \<Rightarrow> (Fails, fd\<lparr>calls := cs\<rparr>))"

section \<open>Writing\<close>

function rio_writen_loop :: "string \<Rightarrow> descriptor \<Rightarrow> bool \<times> descriptor" where
  "rio_writen_loop bufp fd =
     (if bufp = [] then (True, fd)
      else
        (case sys_write bufp fd of
           (Fails, fd) \<Rightarrow> (False, fd)
         | (Intr, fd) \<Rightarrow> rio_writen_loop bufp fd
         | (Got bs, fd) \<Rightarrow> rio_writen_loop (drop (length bs) bufp) fd))"
  by pat_completeness auto
termination
  by (relation "measure (\<lambda>(bufp, fd). length bufp + length (calls fd))")
    (auto simp: sys_write_def Let_def split: list.splits call.splits)

declare rio_writen_loop.simps [simp del]

definition rio_writen :: "string \<Rightarrow> descriptor \<Rightarrow> int \<times> descriptor" where
  "rio_writen usrbuf fd =
     (case rio_writen_loop usrbuf fd of
        (True, fd) \<Rightarrow> (int (length usrbuf), fd)
      | (False, fd) \<Rightarrow> (-1, fd))"

lemma rio_writen_loop_effect:
  "\<exists>k. outgoing (snd (rio_writen_loop bufp fd)) = outgoing fd @ take k bufp \<and>
    incoming (snd (rio_writen_loop bufp fd)) = incoming fd \<and>
    (fst (rio_writen_loop bufp fd) \<longrightarrow> k \<ge> length bufp) \<and>
    (Io_Error \<notin> set (calls fd) \<longrightarrow> fst (rio_writen_loop bufp fd))"
proof (induction bufp fd rule: rio_writen_loop.induct)
  case (1 bufp fd)
  show ?case
  proof (cases "bufp = []")
    case True
    then show ?thesis by (simp add: rio_writen_loop.simps)
  next
    case False
    obtain r fd' where r: "sys_write bufp fd = (r, fd')" by fastforce
    have eq: "rio_writen_loop bufp fd = (case r of Fails \<Rightarrow> (False, fd') | Intr \<Rightarrow> rio_writen_loop bufp fd'
        | Got bs \<Rightarrow> rio_writen_loop (drop (length bs) bufp) fd')"
      using False r by (subst rio_writen_loop.simps) (simp split: io_result.split)
    have fd': "incoming fd' = incoming fd" "set (calls fd') \<subseteq> set (calls fd)"
      "outgoing fd' = outgoing fd @ (case r of Got bs \<Rightarrow> bs | _ \<Rightarrow> [])"
      "r = Fails \<Longrightarrow> Io_Error \<in> set (calls fd)"
      "\<And>bs. r = Got bs \<Longrightarrow> \<exists>m. bs = take m bufp"
      using r by (auto simp: sys_write_def Let_def intro: exI [of _ "length bufp"] split: list.splits call.splits)
    show ?thesis
    proof (cases r)
      case (Got bs)
      from 1(1) [OF False r [symmetric] Got] obtain k where k:
        "outgoing (snd (rio_writen_loop (drop (length bs) bufp) fd')) = outgoing fd' @ take k (drop (length bs) bufp)"
        "incoming (snd (rio_writen_loop (drop (length bs) bufp) fd')) = incoming fd'"
        "fst (rio_writen_loop (drop (length bs) bufp) fd') \<longrightarrow> k \<ge> length (drop (length bs) bufp)"
        "Io_Error \<notin> set (calls fd') \<longrightarrow> fst (rio_writen_loop (drop (length bs) bufp) fd')"
        by auto
      obtain m where "bs = take m bufp" using fd'(5) Got by blast
      then have m: "min m (length bufp) \<le> length bufp" "bs = take (min m (length bufp)) bufp" by (simp_all add: min_def)
      then have lb: "length bs = min m (length bufp)" by simp
      show ?thesis
        using k fd' Got m lb eq by (intro exI [of _ "min m (length bufp) + k"]) (auto simp: take_add)
    next
      case Intr
      then show ?thesis using 1(2) [OF False r [symmetric] Intr] fd' eq by auto
    next
      case Fails
      then show ?thesis using fd' eq by (intro exI [of _ 0]) auto
    qed
  qed
qed

section \<open>Reading\<close>

text \<open>The loop of \<^verbatim>\<open>rio_readn\<close> and of \<^verbatim>\<open>rio_readnb\<close>, which differ in the call they read with.\<close>

partial_function (option) read_loop ::
    "(nat \<Rightarrow> 's \<Rightarrow> io_result \<times> 's) \<Rightarrow> nat \<Rightarrow> string \<Rightarrow> 's \<Rightarrow> (string option \<times> 's) option" where
  "read_loop rd nleft bufp s =
     (if nleft = 0 then Some (Some bufp, s)
      else
        (case rd nleft s of
           (Fails, s) \<Rightarrow> Some (None, s)
         | (Intr, s) \<Rightarrow> read_loop rd nleft bufp s
         | (Got bs, s) \<Rightarrow>
             if bs = [] then Some (Some bufp, s)
             else read_loop rd (nleft - length bs) (bufp @ bs) s))"

definition rio_readn :: "nat \<Rightarrow> descriptor \<Rightarrow> (string option \<times> descriptor) option" where
  "rio_readn n fd = read_loop sys_read n [] fd"

definition RIO_BUFSIZE :: nat where
  "RIO_BUFSIZE = 8192"

record rio_t =
  rio_fd :: descriptor
  rio_cnt :: int
  rio_bufptr :: nat
  rio_buf :: string

definition rio_readinitb :: "string \<Rightarrow> descriptor \<Rightarrow> rio_t" where
  "rio_readinitb buf fd = \<lparr>rio_fd = fd, rio_cnt = 0, rio_bufptr = 0, rio_buf = buf\<rparr>"

function rio_read :: "nat \<Rightarrow> rio_t \<Rightarrow> io_result \<times> rio_t" where
  "rio_read n rp =
     (if rio_cnt rp \<le> 0 then
        (case sys_read RIO_BUFSIZE (rio_fd rp) of
           (Fails, fd) \<Rightarrow> (Fails, rp\<lparr>rio_fd := fd, rio_cnt := -1\<rparr>)
         | (Intr, fd) \<Rightarrow> rio_read n (rp\<lparr>rio_fd := fd, rio_cnt := -1\<rparr>)
         | (Got bs, fd) \<Rightarrow>
             (let rp = rp\<lparr>rio_fd := fd, rio_cnt := int (length bs),
                          rio_buf := bs @ drop (length bs) (rio_buf rp)\<rparr>
              in if bs = [] then (Got [], rp) else rio_read n (rp\<lparr>rio_bufptr := 0\<rparr>)))
      else
        (let cnt = (if rio_cnt rp < int n then nat (rio_cnt rp) else n)
         in (Got (take cnt (drop (rio_bufptr rp) (rio_buf rp))),
             rp\<lparr>rio_bufptr := rio_bufptr rp + cnt, rio_cnt := rio_cnt rp - int cnt\<rparr>)))"
  by pat_completeness auto
termination
  by (relation "measure (\<lambda>(n, rp). 2 * length (calls (rio_fd rp)) + (if rio_cnt rp \<le> 0 then 1 else 0))")
    (auto simp: sys_read_def Let_def split: list.splits call.splits)

declare rio_read.simps [simp del]

definition rio_readnb :: "nat \<Rightarrow> rio_t \<Rightarrow> (string option \<times> rio_t) option" where
  "rio_readnb n rp = read_loop rio_read n [] rp"

text \<open>
  A line: the count that is returned and what is written, the null character included, or \<open>None\<close> for
  an error. At the end of the input nothing is written.
\<close>

function readline_loop :: "nat \<Rightarrow> nat \<Rightarrow> string \<Rightarrow> rio_t \<Rightarrow> (nat \<times> string) option \<times> rio_t" where
  "readline_loop n maxlen bufp rp =
     (if n < maxlen then
        (case rio_read 1 rp of
           (Got [c], rp) \<Rightarrow>
             if c = CHR 0x0A then (Some (n, bufp @ [c, NUL]), rp)
             else readline_loop (n + 1) maxlen (bufp @ [c]) rp
         | (Got [], rp) \<Rightarrow> if n = 1 then (Some (0, bufp), rp) else (Some (n, bufp @ [NUL]), rp)
         | (_, rp) \<Rightarrow> (None, rp))
      else (Some (n, bufp @ [NUL]), rp))"
  by pat_completeness auto
termination
  by (relation "measure (\<lambda>(n, maxlen, bufp, rp). maxlen - n)") auto

declare readline_loop.simps [simp del]

definition rio_readlineb :: "nat \<Rightarrow> rio_t \<Rightarrow> (nat \<times> string) option \<times> rio_t" where
  "rio_readlineb maxlen rp = readline_loop 1 maxlen [] rp"

section \<open>Readers\<close>

text \<open>
  What the loop relies on: a read is interrupted only finitely often, fails only if the descriptor
  fails, and gives a piece of the stream that is empty only at its end.
\<close>

locale reader =
  fixes rd :: "nat \<Rightarrow> 's \<Rightarrow> io_result \<times> 's" and stream :: "'s \<Rightarrow> string"
    and ok :: "'s \<Rightarrow> bool" and fails :: "'s \<Rightarrow> bool" and pending :: "'s \<Rightarrow> nat"
  assumes got: "ok s \<Longrightarrow> 0 < n \<Longrightarrow> rd n s = (Got bs, s') \<Longrightarrow>
      ok s' \<and> stream s = bs @ stream s' \<and> length bs \<le> n \<and> (bs = [] \<longrightarrow> stream s = []) \<and> (fails s' \<longrightarrow> fails s)"
    and intr: "ok s \<Longrightarrow> 0 < n \<Longrightarrow> rd n s = (Intr, s') \<Longrightarrow>
      ok s' \<and> stream s' = stream s \<and> pending s' < pending s \<and> (fails s' \<longrightarrow> fails s)"
    and bad: "ok s \<Longrightarrow> 0 < n \<Longrightarrow> rd n s = (Fails, s') \<Longrightarrow> fails s \<and> ok s' \<and> stream s' = stream s"
begin

lemma read_loop_stream:
  assumes "ok s"
  shows "\<exists>r s'. read_loop rd n acc s = Some (r, s') \<and> ok s' \<and>
    (case r of
       Some bs \<Rightarrow> bs = acc @ take n (stream s) \<and> stream s' = drop n (stream s)
     | None \<Rightarrow> fails s \<and> (\<exists>k \<le> n. stream s' = drop k (stream s))) \<and> (fails s' \<longrightarrow> fails s)"
  using assms
proof (induction n arbitrary: acc s rule: less_induct)
  case (less n)
  note outer = less.IH
  from less.prems show ?case
  proof (induction "pending s" arbitrary: s rule: less_induct)
    case (less s)
    show ?case
    proof (cases "n = 0")
      case True
      then show ?thesis using less.prems by (subst read_loop.simps) simp
    next
      case False
      obtain x s1 where x: "rd n s = (x, s1)" by fastforce
      have eq: "read_loop rd n acc s = (case x of Fails \<Rightarrow> Some (None, s1) | Intr \<Rightarrow> read_loop rd n acc s1
          | Got bs \<Rightarrow> if bs = [] then Some (Some acc, s1) else read_loop rd (n - length bs) (acc @ bs) s1)"
        using False x by (subst read_loop.simps) (simp split: io_result.split)
      show ?thesis
      proof (cases x)
        case (Got bs)
        note g = got [OF less.prems _ x [unfolded Got]]
        show ?thesis
        proof (cases "bs = []")
          case True
          then show ?thesis using g False Got eq by auto
        next
          case ne: False
          have "n - length bs < n" using ne False by simp
          from outer [OF this, of s1 "acc @ bs"] g False obtain r s' where
            "read_loop rd (n - length bs) (acc @ bs) s1 = Some (r, s')" "ok s'" "fails s' \<longrightarrow> fails s1"
            "case r of Some bs' \<Rightarrow> bs' = (acc @ bs) @ take (n - length bs) (stream s1) \<and>
                 stream s' = drop (n - length bs) (stream s1)
               | None \<Rightarrow> fails s1 \<and> (\<exists>k \<le> n - length bs. stream s' = drop k (stream s1))"
            by blast
          moreover have "\<exists>k' \<le> n. drop k (stream s1) = drop k' (stream s)" if "k \<le> n - length bs" for k
            using that g False by (intro exI [of _ "length bs + k"]) auto
          ultimately show ?thesis using g False Got eq ne by (auto split: option.splits)
        qed
      next
        case Intr
        note i = intr [OF less.prems _ x [unfolded Intr]]
        from less.hyps [of s1] i False obtain r s' where
          "read_loop rd n acc s1 = Some (r, s')" "ok s'" "fails s' \<longrightarrow> fails s1"
          "case r of Some bs \<Rightarrow> bs = acc @ take n (stream s1) \<and> stream s' = drop n (stream s1)
             | None \<Rightarrow> fails s1 \<and> (\<exists>k \<le> n. stream s' = drop k (stream s1))" by blast
        then show ?thesis using i False eq Intr by (auto split: option.splits)
      next
        case Fails
        then show ?thesis using bad [OF less.prems _ x [unfolded Fails]] False eq
          by (auto intro: exI [of _ "0 :: nat"])
      qed
    qed
  qed
qed

end

section \<open>The two readers\<close>

abbreviation fd_fails :: "descriptor \<Rightarrow> bool" where
  "fd_fails fd \<equiv> Io_Error \<in> set (calls fd)"

interpretation unbuffered: reader sys_read incoming "\<lambda>_. True" fd_fails "\<lambda>fd. length (calls fd)"
  by unfold_locales (auto simp: sys_read_def Let_def split: list.splits call.splits)

text \<open>What a buffered reader still delivers: the rest of its buffer, then what arrives.\<close>

definition rio_stream :: "rio_t \<Rightarrow> string" where
  "rio_stream rp = take (nat (rio_cnt rp)) (drop (rio_bufptr rp) (rio_buf rp)) @ incoming (rio_fd rp)"

definition wf_rio :: "rio_t \<Rightarrow> bool" where
  "wf_rio rp \<longleftrightarrow> length (rio_buf rp) = RIO_BUFSIZE \<and>
     (0 < rio_cnt rp \<longrightarrow> rio_bufptr rp + nat (rio_cnt rp) \<le> RIO_BUFSIZE)"

lemma rio_read_stream:
  "wf_rio rp \<Longrightarrow> 0 < n \<Longrightarrow> rio_read n rp = (r, rp') \<Longrightarrow>
    wf_rio rp' \<and> r \<noteq> Intr \<and> (fd_fails (rio_fd rp') \<longrightarrow> fd_fails (rio_fd rp)) \<and>
    (case r of
       Got bs \<Rightarrow> rio_stream rp = bs @ rio_stream rp' \<and> length bs \<le> n \<and> (bs = [] \<longrightarrow> rio_stream rp = [])
     | _ \<Rightarrow> fd_fails (rio_fd rp) \<and> rio_stream rp' = rio_stream rp)"
proof (induction n rp rule: rio_read.induct)
  case (1 n rp)
  show ?case
  proof (cases "rio_cnt rp \<le> 0")
    case True
    obtain x fd where x: "sys_read RIO_BUFSIZE (rio_fd rp) = (x, fd)" by fastforce
    show ?thesis
    proof (cases x)
      case (Got bs)
      have g: "incoming (rio_fd rp) = bs @ incoming fd" "length bs \<le> RIO_BUFSIZE" "bs = [] \<longrightarrow> incoming (rio_fd rp) = []"
        "fd_fails fd \<longrightarrow> fd_fails (rio_fd rp)"
        using unbuffered.got [OF _ _ x [unfolded Got]] by (auto simp: RIO_BUFSIZE_def)
      let ?rp = "rp\<lparr>rio_fd := fd, rio_cnt := int (length bs), rio_buf := bs @ drop (length bs) (rio_buf rp)\<rparr>"
      show ?thesis
      proof (cases "bs = []")
        case True
        then have "r = Got []" "rp' = rp\<lparr>rio_fd := fd, rio_cnt := 0\<rparr>"
          using "1.prems"(3) x Got \<open>rio_cnt rp \<le> 0\<close> by (auto simp: rio_read.simps [of n rp])
        then show ?thesis using "1.prems"(1) g True \<open>rio_cnt rp \<le> 0\<close> by (auto simp: wf_rio_def rio_stream_def)
      next
        case False
        have w: "wf_rio (?rp\<lparr>rio_bufptr := 0\<rparr>)" using "1.prems"(1) g by (simp add: wf_rio_def)
        have "rio_read n (?rp\<lparr>rio_bufptr := 0\<rparr>) = (r, rp')"
          using "1.prems"(3) x Got \<open>rio_cnt rp \<le> 0\<close> False by (simp add: rio_read.simps [of n rp])
        from "1.IH"(1) [OF True x [symmetric] Got refl False w "1.prems"(2) this]
        show ?thesis using g \<open>rio_cnt rp \<le> 0\<close> by (auto simp: rio_stream_def split: io_result.splits)
      qed
    next
      case Intr
      let ?rp = "rp\<lparr>rio_fd := fd, rio_cnt := -1\<rparr>"
      have i: "incoming fd = incoming (rio_fd rp)" "fd_fails fd \<longrightarrow> fd_fails (rio_fd rp)"
        using unbuffered.intr [OF _ _ x [unfolded Intr]] by (auto simp: RIO_BUFSIZE_def)
      have "rio_read n ?rp = (r, rp')" using "1.prems"(3) x Intr True by (simp add: rio_read.simps [of n rp])
      moreover have "wf_rio ?rp" using "1.prems"(1) by (simp add: wf_rio_def)
      ultimately show ?thesis using "1.IH"(2) [OF True x [symmetric] Intr _ "1.prems"(2)] i True
        by (auto simp: rio_stream_def split: io_result.splits)
    next
      case Fails
      then have "(r, rp') = (Fails, rp\<lparr>rio_fd := fd, rio_cnt := -1\<rparr>)"
        using "1.prems"(3) x True by (simp add: rio_read.simps [of n rp])
      then show ?thesis
        using unbuffered.bad [OF _ _ x [unfolded Fails]] "1.prems"(1) True
        by (auto simp: wf_rio_def rio_stream_def RIO_BUFSIZE_def)
    qed
  next
    case False
    define cnt where "cnt = (if rio_cnt rp < int n then nat (rio_cnt rp) else n)"
    have c: "0 < cnt" "cnt \<le> n" "cnt \<le> nat (rio_cnt rp)" using False "1.prems"(2) by (auto simp: cnt_def)
    have r: "r = Got (take cnt (drop (rio_bufptr rp) (rio_buf rp)))"
      "rp' = rp\<lparr>rio_bufptr := rio_bufptr rp + cnt, rio_cnt := rio_cnt rp - int cnt\<rparr>"
      using "1.prems"(3) False by (simp_all add: rio_read.simps [of n rp] cnt_def Let_def)
    have n': "nat (rio_cnt rp - int cnt) = nat (rio_cnt rp) - cnt" using c(3) by simp
    have "nat (rio_cnt rp) = cnt + (nat (rio_cnt rp) - cnt)" using c(3) by simp
    then have "rio_stream rp = take cnt (drop (rio_bufptr rp) (rio_buf rp)) @ rio_stream rp'"
      unfolding rio_stream_def r(2) by (simp add: n') (metis add.commute append_assoc drop_drop take_add)
    moreover have "take cnt (drop (rio_bufptr rp) (rio_buf rp)) \<noteq> []"
      using c "1.prems"(1) False by (auto simp: wf_rio_def)
    moreover have "wf_rio rp'" using "1.prems"(1) c False by (auto simp: wf_rio_def r(2))
    ultimately show ?thesis using r c by simp
  qed
qed

lemma rio_read_Got:
  "wf_rio rp \<Longrightarrow> 0 < n \<Longrightarrow> rio_read n rp = (Got bs, rp') \<Longrightarrow>
    wf_rio rp' \<and> rio_stream rp = bs @ rio_stream rp' \<and> length bs \<le> n \<and> (bs = [] \<longrightarrow> rio_stream rp = []) \<and>
    (fd_fails (rio_fd rp') \<longrightarrow> fd_fails (rio_fd rp))"
  using rio_read_stream [of rp n "Got bs" rp'] by auto

lemma rio_read_Intr: "wf_rio rp \<Longrightarrow> 0 < n \<Longrightarrow> rio_read n rp \<noteq> (Intr, rp')"
  using rio_read_stream [of rp n Intr rp'] by auto

lemma rio_read_Fails: "wf_rio rp \<Longrightarrow> 0 < n \<Longrightarrow> rio_read n rp = (Fails, rp') \<Longrightarrow>
    fd_fails (rio_fd rp) \<and> wf_rio rp' \<and> rio_stream rp' = rio_stream rp"
  using rio_read_stream [of rp n Fails rp'] by simp

interpretation buffered: reader rio_read rio_stream wf_rio "\<lambda>rp. fd_fails (rio_fd rp)" "\<lambda>_. 0"
proof
  show "wf_rio s' \<and> rio_stream s = bs @ rio_stream s' \<and> length bs \<le> n \<and> (bs = [] \<longrightarrow> rio_stream s = []) \<and>
      (fd_fails (rio_fd s') \<longrightarrow> fd_fails (rio_fd s))"
    if "wf_rio s" "0 < n" "rio_read n s = (Got bs, s')" for s n bs s' using rio_read_Got [OF that] .
  show "wf_rio s' \<and> rio_stream s' = rio_stream s \<and> (0 :: nat) < 0 \<and> (fd_fails (rio_fd s') \<longrightarrow> fd_fails (rio_fd s))"
    if "wf_rio s" "0 < n" "rio_read n s = (Intr, s')" for s n s' using rio_read_Intr that by blast
  show "fd_fails (rio_fd s) \<and> wf_rio s' \<and> rio_stream s' = rio_stream s"
    if "wf_rio s" "0 < n" "rio_read n s = (Fails, s')" for s n s' using rio_read_Fails [OF that] .
qed

section \<open>Lines\<close>

text \<open>The line at the head of a stream, with its end, of at most \<open>k\<close> characters.\<close>

fun line :: "nat \<Rightarrow> string \<Rightarrow> string" where
  "line 0 xs = []"
| "line (Suc k) [] = []"
| "line (Suc k) (x # xs) = (if x = CHR 0x0A then [x] else x # line k xs)"

definition ends :: "string \<Rightarrow> bool" where
  "ends l \<longleftrightarrow> l \<noteq> [] \<and> last l = CHR 0x0A"

lemma readline_loop_line:
  assumes "wf_rio rp" "\<not> fd_fails (rio_fd rp)" "1 \<le> n" "n \<le> maxlen"
  shows "\<exists>rp'. readline_loop n maxlen bufp rp =
      ((let l = line (maxlen - n) (rio_stream rp) in
        if n = 1 \<and> 1 < maxlen \<and> rio_stream rp = [] then Some (0, bufp)
        else Some (n + length l - (if ends l then 1 else 0), bufp @ l @ [NUL])), rp') \<and>
    wf_rio rp' \<and> rio_stream rp' = drop (length (line (maxlen - n) (rio_stream rp))) (rio_stream rp)"
  using assms
proof (induction "maxlen - n" arbitrary: n bufp rp)
  case 0
  then show ?case by (auto simp: readline_loop.simps [of n] ends_def)
next
  case (Suc k)
  then have k: "maxlen - n = Suc k" "n < maxlen" by simp_all
  obtain r rp1 where r: "rio_read 1 rp = (r, rp1)" by fastforce
  note st = rio_read_stream [OF Suc.prems(1) _ r, simplified]
  then obtain bs where bs: "r = Got bs" "rio_stream rp = bs @ rio_stream rp1" "length bs \<le> 1"
    "bs = [] \<longrightarrow> rio_stream rp = []" "wf_rio rp1" "\<not> fd_fails (rio_fd rp1)"
    using Suc.prems(2) by (cases r) auto
  show ?case
  proof (cases bs)
    case Nil
    then show ?thesis using r bs k by (auto simp: readline_loop.simps [of n] ends_def)
  next
    case (Cons c cs)
    then have c: "bs = [c]" using bs(3) by simp
    show ?thesis
    proof (cases "c = CHR 0x0A")
      case True
      then show ?thesis using r bs c k by (auto simp: readline_loop.simps [of n] ends_def)
    next
      case False
      have k': "k = maxlen - (n + 1)" "1 \<le> n + 1" "n + 1 \<le> maxlen" "maxlen - Suc n = k" using k by simp_all
      have eq: "readline_loop n maxlen bufp rp = readline_loop (n + 1) maxlen (bufp @ [c]) rp1"
        using r bs(1) c k(2) False by (simp add: readline_loop.simps [of n])
      have l: "line (Suc k) (rio_stream rp) = c # line k (rio_stream rp1)" using bs(2) c False by simp
      have e: "ends (c # line k (rio_stream rp1)) = ends (line k (rio_stream rp1))" using False by (simp add: ends_def)
      from Suc.hyps(1) [OF k'(1) bs(5,6) k'(2,3), of "bufp @ [c]"]
      show ?thesis
        unfolding eq k(1) l using Suc.prems(3) bs(2) c by (auto simp: e k'(4) Let_def)
    qed
  qed
qed

text \<open>
  The count that \<^verbatim>\<open>rio_readlineb\<close> returns is the number of characters of the line only if the line
  has its end; when the input ends first or the buffer is full, it is one more.
\<close>

theorem rio_readlineb_count:
  assumes "wf_rio rp" "\<not> fd_fails (rio_fd rp)" "1 < maxlen" "rio_stream rp \<noteq> []"
  shows "\<exists>rp'. rio_readlineb maxlen rp =
      (let l = line (maxlen - 1) (rio_stream rp)
       in Some (if ends l then length l else length l + 1, l @ [NUL]), rp') \<and>
    rio_stream rp' = drop (length (line (maxlen - 1) (rio_stream rp))) (rio_stream rp)"
proof -
  obtain rp' where "readline_loop 1 maxlen [] rp =
      ((let l = line (maxlen - 1) (rio_stream rp) in
        Some (1 + length l - (if ends l then 1 else 0), l @ [NUL])), rp')"
    "rio_stream rp' = drop (length (line (maxlen - 1) (rio_stream rp))) (rio_stream rp)"
    using readline_loop_line [OF assms(1,2), of 1 maxlen "[]"] assms(3,4) by auto
  then show ?thesis by (intro exI [of _ rp']) (simp add: rio_readlineb_def Let_def)
qed

section \<open>Properties\<close>

text \<open>C39: The robust write returns, and writes everything: however often the calls are interrupted and
  however few bytes each of them takes, all bytes of the buffer are written once and in order, and
  the length is returned; only if a call fails the result is -1, with a prefix of the buffer written.\<close>

theorem rio_writen_complete:
  "\<exists>k r fd'. rio_writen usrbuf fd = (r, fd') \<and> outgoing fd' = outgoing fd @ take k usrbuf
    \<and> incoming fd' = incoming fd
    \<and> (r = int (length usrbuf) \<and> length usrbuf \<le> k \<or> r = -1 \<and> fd_fails fd)"
proof -
  obtain ok fd' where l: "rio_writen_loop usrbuf fd = (ok, fd')" by fastforce
  then show ?thesis
    using rio_writen_loop_effect [where bufp = usrbuf and fd = fd] by (cases ok) (auto simp: rio_writen_def)
qed

text \<open>C40: The robust reads return, and read the stream: the unbuffered and the buffered one deliver the
  first \<open>n\<close> bytes that arrive, or all if there are fewer, in whatever pieces and after whatever
  interruptions they arrive, and leave the rest for the next read, no byte lost or read twice; an
  error of the descriptor is the only reason for the result -1.\<close>

theorem rio_reads_stream:
  assumes "wf_rio rp"
  shows "(\<exists>r rp'. rio_readnb n rp = Some (r, rp') \<and> wf_rio rp' \<and>
      (case r of
         Some bs \<Rightarrow> bs = take n (rio_stream rp) \<and> rio_stream rp' = drop n (rio_stream rp)
       | None \<Rightarrow> fd_fails (rio_fd rp) \<and> (\<exists>k. k \<le> n \<and> rio_stream rp' = drop k (rio_stream rp))))
    \<and> (\<exists>r fd'. rio_readn n fd = Some (r, fd') \<and>
      (case r of
         Some bs \<Rightarrow> bs = take n (incoming fd) \<and> incoming fd' = drop n (incoming fd)
       | None \<Rightarrow> fd_fails fd \<and> (\<exists>k. k \<le> n \<and> incoming fd' = drop k (incoming fd))))"
  using buffered.read_loop_stream [OF assms, where n = n and acc = "[]"]
    unbuffered.read_loop_stream [where s = fd and n = n and acc = "[]"]
  unfolding rio_readnb_def rio_readn_def append_Nil by blast

theorem rio_reads_stream_witness:
  "\<exists>rp'. rio_readnb 3 (rio_readinitb (replicate 8192 NUL)
        \<lparr>incoming = ''abcd'', outgoing = [], calls = [Interrupted, Transfers 2, Interrupted, Transfers 1]\<rparr>)
      = Some (Some ''abc'', rp') \<and> rio_stream rp' = ''d''"
proof -
  let ?fd = "\<lparr>incoming = ''abcd'', outgoing = [], calls = [Interrupted, Transfers 2, Interrupted, Transfers 1]\<rparr>"
  let ?rp = "rio_readinitb (replicate 8192 NUL) ?fd"
  have "wf_rio ?rp" "rio_stream ?rp = ''abcd''" "\<not> fd_fails (rio_fd ?rp)"
    by (simp_all add: wf_rio_def rio_stream_def rio_readinitb_def RIO_BUFSIZE_def)
  with rio_reads_stream [of ?rp 3 ?fd] show ?thesis by (auto split: option.splits)
qed

end
