(* ===== verification/Csapp.thy ===== *)
theory Csapp
  imports Rio
begin

text \<open>
  The wrappers of \<^verbatim>\<open>csapp.c\<close>: each calls one function of the system and ends the process if its result
  says that it failed. A wrapper is a function of what the call returns (and of the arguments it
  looks at afterwards), so that it applies to any model of the call.
\<close>

section \<open>Errors\<close>

text \<open>After a message on the standard error each of them leaves the process with code 0.\<close>

definition unix_error :: "'a res" where "unix_error = Inl (Process_Exit 0)"
definition posix_error :: "'a res" where "posix_error = Inl (Process_Exit 0)"
definition dns_error :: "'a res" where "dns_error = Inl (Process_Exit 0)"
definition app_error :: "'a res" where "app_error = Inl (Process_Exit 0)"

lemmas error_defs = unix_error_def posix_error_def dns_error_def app_error_def

section \<open>Processes\<close>

definition Fork :: "int \<Rightarrow> int res" where
  "Fork pid = (if pid < 0 then unix_error else Inr pid)"

definition Execve :: "int \<Rightarrow> unit res" where
  "Execve rc = (if rc < 0 then unix_error else Inr ())"

definition Wait :: "int \<Rightarrow> int res" where
  "Wait pid = (if pid < 0 then unix_error else Inr pid)"

definition Waitpid :: "int \<Rightarrow> int res" where
  "Waitpid retpid = (if retpid < 0 then unix_error else Inr retpid)"

definition Kill :: "int \<Rightarrow> unit res" where
  "Kill rc = (if rc < 0 then unix_error else Inr ())"

text \<open>The result is unsigned, as is the comparison with 0.\<close>

definition Sleep :: "u32 \<Rightarrow> u32 res" where
  "Sleep rc = (if rc < 0 then unix_error else Inr rc)"

definition Setpgid :: "int \<Rightarrow> unit res" where
  "Setpgid rc = (if rc < 0 then unix_error else Inr ())"

section \<open>Signals\<close>

text \<open>
  The action \<^verbatim>\<open>Signal\<close> installs: the handler, no signal blocked but the handled one, and interrupted
  system calls are restarted. The wrapper returns the handler that was installed before.
\<close>

record 'h sigaction =
  sa_handler :: 'h
  sa_mask :: "nat set"
  sa_restart :: bool

definition Signal_action :: "'h \<Rightarrow> 'h sigaction" where
  "Signal_action h = \<lparr>sa_handler = h, sa_mask = {}, sa_restart = True\<rparr>"

definition Signal :: "int \<Rightarrow> 'h sigaction \<Rightarrow> 'h res" where
  "Signal rc old_action = (if rc < 0 then unix_error else Inr (sa_handler old_action))"

definition Sigprocmask :: "int \<Rightarrow> unit res" where
  "Sigprocmask rc = (if rc < 0 then unix_error else Inr ())"

definition Sigemptyset :: "int \<Rightarrow> unit res" where
  "Sigemptyset rc = (if rc < 0 then unix_error else Inr ())"

definition Sigfillset :: "int \<Rightarrow> unit res" where
  "Sigfillset rc = (if rc < 0 then unix_error else Inr ())"

definition Sigaddset :: "int \<Rightarrow> unit res" where
  "Sigaddset rc = (if rc < 0 then unix_error else Inr ())"

definition Sigdelset :: "int \<Rightarrow> unit res" where
  "Sigdelset rc = (if rc < 0 then unix_error else Inr ())"

definition Sigismember :: "int \<Rightarrow> int res" where
  "Sigismember rc = (if rc < 0 then unix_error else Inr rc)"

section \<open>Files\<close>

definition Open :: "int \<Rightarrow> int res" where
  "Open rc = (if rc < 0 then unix_error else Inr rc)"

definition Read :: "int \<Rightarrow> int res" where
  "Read rc = (if rc < 0 then unix_error else Inr rc)"

definition Write :: "int \<Rightarrow> int res" where
  "Write rc = (if rc < 0 then unix_error else Inr rc)"

definition Lseek :: "int \<Rightarrow> int res" where
  "Lseek rc = (if rc < 0 then unix_error else Inr rc)"

definition Close :: "int \<Rightarrow> unit res" where
  "Close rc = (if rc < 0 then unix_error else Inr ())"

definition Select :: "int \<Rightarrow> int res" where
  "Select rc = (if rc < 0 then unix_error else Inr rc)"

definition Dup2 :: "int \<Rightarrow> int res" where
  "Dup2 rc = (if rc < 0 then unix_error else Inr rc)"

definition Stat :: "int \<Rightarrow> unit res" where
  "Stat rc = (if rc < 0 then unix_error else Inr ())"

definition Fstat :: "int \<Rightarrow> unit res" where
  "Fstat rc = (if rc < 0 then unix_error else Inr ())"

section \<open>Memory\<close>

text \<open>An address is a word of 64 bits; the failed mapping is the address -1, the null pointer \<open>None\<close>.\<close>

definition Mmap :: "u64 \<Rightarrow> u64 res" where
  "Mmap ptr = (if ptr = -1 then unix_error else Inr ptr)"

definition Munmap :: "int \<Rightarrow> unit res" where
  "Munmap rc = (if rc < 0 then unix_error else Inr ())"

definition Malloc :: "'p option \<Rightarrow> 'p res" where
  "Malloc p = (case p of None \<Rightarrow> unix_error | Some a \<Rightarrow> Inr a)"

definition Realloc :: "'p option \<Rightarrow> 'p res" where
  "Realloc p = (case p of None \<Rightarrow> unix_error | Some a \<Rightarrow> Inr a)"

definition Calloc :: "'p option \<Rightarrow> 'p res" where
  "Calloc p = (case p of None \<Rightarrow> unix_error | Some a \<Rightarrow> Inr a)"

section \<open>Streams\<close>

definition Fclose :: "int \<Rightarrow> unit res" where
  "Fclose rc = (if rc \<noteq> 0 then unix_error else Inr ())"

definition Fdopen :: "'f option \<Rightarrow> 'f res" where
  "Fdopen fp = (case fp of None \<Rightarrow> unix_error | Some f \<Rightarrow> Inr f)"

text \<open>The end of the file is no error: the null pointer is passed on.\<close>

definition Fgets :: "string option \<Rightarrow> bool \<Rightarrow> string option res" where
  "Fgets rptr ferror = (if rptr = None \<and> ferror then app_error else Inr rptr)"

definition Fopen :: "'f option \<Rightarrow> 'f res" where
  "Fopen fp = (case fp of None \<Rightarrow> unix_error | Some f \<Rightarrow> Inr f)"

definition EOF :: int where "EOF = -1"

definition Fputs :: "int \<Rightarrow> unit res" where
  "Fputs rc = (if rc = EOF then unix_error else Inr ())"

definition Fread :: "nat \<Rightarrow> nat \<Rightarrow> bool \<Rightarrow> nat res" where
  "Fread n nmemb ferror = (if n < nmemb \<and> ferror then unix_error else Inr n)"

definition Fwrite :: "nat \<Rightarrow> nat \<Rightarrow> unit res" where
  "Fwrite n nmemb = (if n < nmemb then unix_error else Inr ())"

section \<open>Sockets, names and threads\<close>

definition Socket :: "int \<Rightarrow> int res" where
  "Socket rc = (if rc < 0 then unix_error else Inr rc)"

definition Setsockopt :: "int \<Rightarrow> unit res" where
  "Setsockopt rc = (if rc < 0 then unix_error else Inr ())"

definition Bind :: "int \<Rightarrow> unit res" where
  "Bind rc = (if rc < 0 then unix_error else Inr ())"

definition Listen :: "int \<Rightarrow> unit res" where
  "Listen rc = (if rc < 0 then unix_error else Inr ())"

definition Accept :: "int \<Rightarrow> int res" where
  "Accept rc = (if rc < 0 then unix_error else Inr rc)"

definition Connect_socket :: "int \<Rightarrow> unit res" where
  "Connect_socket rc = (if rc < 0 then unix_error else Inr ())"

definition Gethostbyname :: "'a option \<Rightarrow> 'a res" where
  "Gethostbyname p = (case p of None \<Rightarrow> dns_error | Some a \<Rightarrow> Inr a)"

definition Gethostbyaddr :: "'a option \<Rightarrow> 'a res" where
  "Gethostbyaddr p = (case p of None \<Rightarrow> dns_error | Some a \<Rightarrow> Inr a)"

definition Pthread_create :: "int \<Rightarrow> unit res" where
  "Pthread_create rc = (if rc \<noteq> 0 then posix_error else Inr ())"

definition Pthread_cancel :: "int \<Rightarrow> unit res" where
  "Pthread_cancel rc = (if rc \<noteq> 0 then posix_error else Inr ())"

definition Pthread_join :: "int \<Rightarrow> unit res" where
  "Pthread_join rc = (if rc \<noteq> 0 then posix_error else Inr ())"

definition Pthread_detach :: "int \<Rightarrow> unit res" where
  "Pthread_detach rc = (if rc \<noteq> 0 then posix_error else Inr ())"

section \<open>Robust input and output\<close>

text \<open>The wrappers of the robust functions, on the descriptors of \<open>Rio\<close>.\<close>

definition checked_writen :: "string \<Rightarrow> descriptor \<Rightarrow> descriptor res" where
  "checked_writen usrbuf fd =
     (case rio_writen usrbuf fd of
        (rc, fd) \<Rightarrow> if rc \<noteq> int (length usrbuf) then unix_error else Inr fd)"

definition Rio_readn :: "nat \<Rightarrow> descriptor \<Rightarrow> (string \<times> descriptor) res option" where
  "Rio_readn nbytes fd =
     map_option (\<lambda>(n, fd). case n of None \<Rightarrow> unix_error | Some bs \<Rightarrow> Inr (bs, fd)) (rio_readn nbytes fd)"

definition Rio_readnb :: "nat \<Rightarrow> rio_t \<Rightarrow> (string \<times> rio_t) res option" where
  "Rio_readnb n rp =
     map_option (\<lambda>(rc, rp). case rc of None \<Rightarrow> unix_error | Some bs \<Rightarrow> Inr (bs, rp)) (rio_readnb n rp)"

definition Rio_readlineb :: "nat \<Rightarrow> rio_t \<Rightarrow> ((nat \<times> string) \<times> rio_t) res" where
  "Rio_readlineb maxlen rp =
     (case rio_readlineb maxlen rp of
        (None, rp) \<Rightarrow> unix_error
      | (Some l, rp) \<Rightarrow> Inr (l, rp))"

text \<open>A wrapped read or write returns what was asked for, as far as it exists, or the process has ended.\<close>

lemma checked_writen_complete:
  "(\<exists>fd'. checked_writen usrbuf fd = Inr fd' \<and> outgoing fd' = outgoing fd @ usrbuf)
    \<or> checked_writen usrbuf fd = Inl (Process_Exit 0) \<and> fd_fails fd"
proof -
  obtain ok fd' where l: "rio_writen_loop usrbuf fd = (ok, fd')" by fastforce
  then show ?thesis
    using rio_writen_loop_effect [where bufp = usrbuf and fd = fd]
    by (cases ok) (auto simp: checked_writen_def rio_writen_def unix_error_def)
qed

lemma Rio_readn_stream:
  "\<exists>r. Rio_readn n fd = Some r \<and>
    (case r of Inr (bs, fd') \<Rightarrow> bs = take n (incoming fd) \<and> incoming fd' = drop n (incoming fd)
     | Inl e \<Rightarrow> e = Process_Exit 0 \<and> fd_fails fd)"
proof -
  obtain r s' where r: "read_loop sys_read n [] fd = Some (r, s')"
    "case r of Some bs \<Rightarrow> bs = take n (incoming fd) \<and> incoming s' = drop n (incoming fd) | None \<Rightarrow> fd_fails fd"
    using unbuffered.read_loop_stream [where s = fd and n = n and acc = "[]"]
    by (fastforce split: option.splits)
  then show ?thesis by (cases r) (simp_all add: Rio_readn_def rio_readn_def unix_error_def)
qed

end
