(* ===== verification/Sockets.thy ===== *)
theory Sockets
  imports Csapp Session
begin

text \<open>
  The sockets of the program: the servers of \<^verbatim>\<open>arm_simulator.c\<close> with their listeners, the connection
  functions of \<^verbatim>\<open>csapp.c\<close>, and the client of \<^verbatim>\<open>send_irq.c\<close> to its end, over a table of descriptors that
  may be full and calls that may fail.
\<close>

section \<open>Descriptors\<close>

text \<open>
  The descriptors of a process, as many as the table has entries. Addresses are held as in
  \<^verbatim>\<open>struct sockaddr_in\<close>, in the order of the network. A schedule says which calls the system refuses for
  reasons of its own; calls past its end are not refused. \<open>ephemeral\<close> is the port the system gives to a
  socket that is bound to port 0.
\<close>

record sockaddr_in =
  sin_addr :: u32
  sin_port :: u16

record sock =
  reuse_address :: bool
  local_address :: "sockaddr_in option"
  backlog :: "nat option"
  remote_address :: "sockaddr_in option"
  written :: "u8 list"
  is_shut :: bool

record net =
  descriptors :: "sock option list"
  refused :: "bool list"
  ephemeral :: u16

definition fresh_sock :: sock where
  "fresh_sock = \<lparr>reuse_address = False, local_address = None, backlog = None, remote_address = None,
     written = [], is_shut = False\<rparr>"

fun first_free :: "'a option list \<Rightarrow> nat option" where
  "first_free [] = None"
| "first_free (None # xs) = Some 0"
| "first_free (Some x # xs) = map_option Suc (first_free xs)"

text \<open>Whether the next call is refused, and the schedule of the calls after it.\<close>

definition next_refused :: "net \<Rightarrow> bool \<times> net" where
  "next_refused n =
     (case refused n of [] \<Rightarrow> (False, n) | r # rs \<Rightarrow> (r, n\<lparr>refused := rs\<rparr>))"

text \<open>A new descriptor is the lowest one that is free.\<close>

definition new_descriptor :: "sock \<Rightarrow> net \<Rightarrow> int \<times> net" where
  "new_descriptor s n =
     (case next_refused n of
        (True, n) \<Rightarrow> (-1, n)
      | (False, n) \<Rightarrow>
          (case first_free (descriptors n) of
             None \<Rightarrow> (-1, n)
           | Some fd \<Rightarrow> (int fd, n\<lparr>descriptors := (descriptors n)[fd := Some s]\<rparr>)))"

text \<open>A call on an open descriptor: \<open>f\<close> is what it does to the socket.\<close>

definition get_sock :: "int \<Rightarrow> net \<Rightarrow> sock option" where
  "get_sock fd n = (if 0 \<le> fd \<and> nat fd < length (descriptors n) then descriptors n ! nat fd else None)"

definition on_sock :: "(sock \<Rightarrow> sock option) \<Rightarrow> int \<Rightarrow> net \<Rightarrow> int \<times> net" where
  "on_sock f fd n =
     (case next_refused n of
        (True, n) \<Rightarrow> (-1, n)
      | (False, n) \<Rightarrow>
          (case Option.bind (get_sock fd n) f of
             None \<Rightarrow> (-1, n)
           | Some s \<Rightarrow> (0, n\<lparr>descriptors := (descriptors n)[nat fd := Some s]\<rparr>)))"

definition socket_c :: "net \<Rightarrow> int \<times> net" where
  "socket_c = new_descriptor fresh_sock"

definition setsockopt_c :: "int \<Rightarrow> net \<Rightarrow> int \<times> net" where
  "setsockopt_c = on_sock (\<lambda>s. Some (s\<lparr>reuse_address := True\<rparr>))"

definition bind_c :: "int \<Rightarrow> sockaddr_in \<Rightarrow> net \<Rightarrow> int \<times> net" where
  "bind_c fd a n =
     on_sock (\<lambda>s. if local_address s = None
        then Some (s\<lparr>local_address := Some (if sin_port a = 0 then a\<lparr>sin_port := ephemeral n\<rparr> else a)\<rparr>)
        else None) fd n"

definition listen_c :: "int \<Rightarrow> nat \<Rightarrow> net \<Rightarrow> int \<times> net" where
  "listen_c fd k = on_sock (\<lambda>s. Some (s\<lparr>backlog := Some k\<rparr>)) fd"

definition connect_c :: "int \<Rightarrow> sockaddr_in \<Rightarrow> net \<Rightarrow> int \<times> net" where
  "connect_c fd a = on_sock (\<lambda>s. Some (s\<lparr>remote_address := Some a\<rparr>)) fd"

definition write_c :: "int \<Rightarrow> u8 list \<Rightarrow> net \<Rightarrow> int \<times> net" where
  "write_c fd bs n =
     (case on_sock (\<lambda>s. if is_shut s then None else Some (s\<lparr>written := written s @ bs\<rparr>)) fd n of
        (rc, n) \<Rightarrow> (if rc < 0 then rc else int (length bs), n))"

definition shutdown_c :: "int \<Rightarrow> net \<Rightarrow> int \<times> net" where
  "shutdown_c = on_sock (\<lambda>s. Some (s\<lparr>is_shut := True\<rparr>))"

text \<open>A connection that is accepted is a new descriptor.\<close>

definition accept_c :: "int \<Rightarrow> net \<Rightarrow> int \<times> net" where
  "accept_c fd n =
     (case get_sock fd n of
        None \<Rightarrow> (-1, n)
      | Some s \<Rightarrow> if backlog s = None then (-1, n) else new_descriptor fresh_sock n)"

definition getsockname_c :: "int \<Rightarrow> sockaddr_in \<Rightarrow> net \<Rightarrow> sockaddr_in \<times> net" where
  "getsockname_c fd a n =
     (case next_refused n of
        (True, n) \<Rightarrow> (a, n)
      | (False, n) \<Rightarrow> (case Option.bind (get_sock fd n) local_address of None \<Rightarrow> (a, n) | Some b \<Rightarrow> (b, n)))"

definition close_c :: "int \<Rightarrow> net \<Rightarrow> int \<times> net" where
  "close_c fd n =
     (case get_sock fd n of
        None \<Rightarrow> (-1, n)
      | Some s \<Rightarrow> (0, n\<lparr>descriptors := (descriptors n)[nat fd := None]\<rparr>))"

section \<open>Servers\<close>

text \<open>The order of the network is big endian.\<close>

definition htons :: "host \<Rightarrow> u16 \<Rightarrow> u16" where
  "htons h x = (if host_big_endian h then x else reverse_2 x)"

definition ntohs :: "host \<Rightarrow> u16 \<Rightarrow> u16" where
  "ntohs h x = (if host_big_endian h then x else reverse_2 x)"

record server_data =
  server_socket :: int
  server_port :: u16

definition INADDR_ANY :: u32 where "INADDR_ANY = 0"

definition create_server :: "host \<Rightarrow> u16 \<Rightarrow> net \<Rightarrow> (server_data \<times> net) res" where
  "create_server h port n =
     (let (rc, n) = socket_c n in
      bindR (Socket rc) (\<lambda>fd.
      let (rc, n) = setsockopt_c fd n in
      bindR (Setsockopt rc) (\<lambda>_.
      let addr = \<lparr>sin_addr = INADDR_ANY, sin_port = htons h port\<rparr>;
          (rc, n) = bind_c fd addr n in
      bindR (Bind rc) (\<lambda>_.
      let (addr, n) = getsockname_c fd addr n;
          (rc, n) = listen_c fd 1 n in
      bindR (Listen rc) (\<lambda>_.
      Inr (\<lparr>server_socket = fd, server_port = ntohs h (sin_port addr)\<rparr>, n))))))"

section \<open>The listener of the interrupts\<close>

text \<open>
  A connection is the bytes that arrive on it and whether it ends with an error: the peer may close it
  or reset it.
\<close>

type_synonym connection = "u8 list \<times> bool"

fun irq_read_loop :: "u8 list \<Rightarrow> bool \<Rightarrow> sim \<Rightarrow> sim res" where
  "irq_read_loop [] reset p = bindR (Read (if reset then -1 else 0)) (\<lambda>_. Inr p)"
| "irq_read_loop (irq # bytes) reset p =
     bindR (Read 1) (\<lambda>_.
     bindR (arm_exception (unat irq) p) (\<lambda>(_, p). irq_read_loop bytes reset p))"



section \<open>The listener of the debugger\<close>

text \<open>
  The session is that of the scanner, as a function of the processor; it leaves the descriptor of the
  connection open. The debugger is the only peer.
\<close>

definition gdb_listener ::
    "host \<Rightarrow> u16 \<Rightarrow> (sim \<Rightarrow> 'd res option) \<Rightarrow> net \<times> sim \<Rightarrow> ('d \<times> net) res option" where
  "gdb_listener h port session = (\<lambda>(n, p).
     case bindR (create_server h port n) (\<lambda>(server, n).
            let (rc, n) = accept_c (server_socket server) n in
            bindR (Accept rc) (\<lambda>connection. Inr (server, connection, n))) of
       Inl e \<Rightarrow> Some (Inl e)
     | Inr (server, connection, n) \<Rightarrow>
         map_option (\<lambda>r. bindR r (\<lambda>d.
           let (_, n) = shutdown_c connection n;
               (_, n) = close_c (server_socket server) n
           in Inr (d, n))) (session p))"

section \<open>Clients and servers of the library\<close>

definition LISTENQ :: nat where "LISTENQ = 1024"

text \<open>The resolver gives the address of a name, or none.\<close>

definition open_clientfd ::
    "host \<Rightarrow> (string \<Rightarrow> u32 option) \<Rightarrow> string \<Rightarrow> u16 \<Rightarrow> net \<Rightarrow> int \<times> net" where
  "open_clientfd h resolve hostname port n =
     (let (clientfd, n) = socket_c n in
      if clientfd < 0 then (-1, n)
      else case resolve hostname of
             None \<Rightarrow> (-2, n)
           | Some a \<Rightarrow>
               let (rc, n) = connect_c clientfd \<lparr>sin_addr = a, sin_port = htons h port\<rparr> n in
               if rc < 0 then (-1, n) else (clientfd, n))"

definition open_listenfd :: "host \<Rightarrow> u16 \<Rightarrow> net \<Rightarrow> int \<times> net" where
  "open_listenfd h port n =
     (let (listenfd, n) = socket_c n in
      if listenfd < 0 then (-1, n)
      else
        let (rc, n) = setsockopt_c listenfd n in
        if rc < 0 then (-1, n)
        else
          let (rc, n) = bind_c listenfd \<lparr>sin_addr = INADDR_ANY, sin_port = htons h port\<rparr> n in
          if rc < 0 then (-1, n)
          else
            let (rc, n) = listen_c listenfd LISTENQ n in
            if rc < 0 then (-1, n) else (listenfd, n))"

definition Open_clientfd ::
    "host \<Rightarrow> (string \<Rightarrow> u32 option) \<Rightarrow> string \<Rightarrow> u16 \<Rightarrow> net \<Rightarrow> (int \<times> net) res" where
  "Open_clientfd h resolve hostname port n =
     (let (rc, n) = open_clientfd h resolve hostname port n in
      if rc < 0 then (if rc = -1 then unix_error else dns_error) else Inr (rc, n))"

definition Open_listenfd :: "host \<Rightarrow> u16 \<Rightarrow> net \<Rightarrow> (int \<times> net) res" where
  "Open_listenfd h port n =
     (let (rc, n) = open_listenfd h port n in
      if rc < 0 then unix_error else Inr (rc, n))"

section \<open>The client of the interrupts\<close>

text \<open>
  The client with its sockets: the code it exits with, and the address and the bytes of the connection
  it has made.
\<close>

definition send_irq_main ::
    "host \<Rightarrow> (string \<Rightarrow> u32 option) \<Rightarrow> string list \<Rightarrow> net \<Rightarrow> (nat \<times> (sockaddr_in \<times> u8 list) option \<times> net) res" where
  "send_irq_main h resolve argv n =
     bindR (send_irq argv) (\<lambda>action.
     case action of
       Usage s \<Rightarrow> Inr (1, None, n)
     | Unknown_Irq s \<Rightarrow> Inr (2, None, n)
     | Send name port irq \<Rightarrow>
         let (rc, n) = socket_c n in
         bindR (Socket rc) (\<lambda>sock.
         let (rc, n) = setsockopt_c sock n in
         bindR (Setsockopt rc) (\<lambda>_.
         bindR (Gethostbyname (resolve name)) (\<lambda>a.
         let addr = \<lparr>sin_addr = a, sin_port = htons h port\<rparr>;
             (rc, n) = connect_c sock addr n in
         bindR (Connect_socket rc) (\<lambda>_.
         let (rc, n) = write_c sock [irq] n in
         bindR (Write rc) (\<lambda>_.
         let (_, n) = shutdown_c sock n;
             sent = map_option written (get_sock sock n);
             (_, n) = close_c sock n
         in Inr (0, map_option (\<lambda>bs. (addr, bs)) sent, n)))))))"

section \<open>The table of descriptors\<close>

definition free_slots :: "net \<Rightarrow> nat" where
  "free_slots n = length (filter (\<lambda>d. d = None) (descriptors n))"

lemma first_free_None: "first_free xs = None \<longleftrightarrow> filter (\<lambda>d. d = None) xs = []"
  by (induction xs rule: first_free.induct) auto

lemma first_free_Some:
  "first_free xs = Some i \<Longrightarrow> i < length xs \<and> xs ! i = None
    \<and> length (filter (\<lambda>d. d = None) (xs[i := Some x])) + 1 = length (filter (\<lambda>d. d = None) xs)"
  by (induction xs arbitrary: i rule: first_free.induct) auto

lemma free_slots_used:
  assumes "xs ! i \<noteq> None" "i < length xs"
  shows "length (filter (\<lambda>d. d = None) (xs[i := Some x])) = length (filter (\<lambda>d. d = None) xs)"
  using assms by (induction xs arbitrary: i) (auto split: nat.splits)

lemma free_slots_closed:
  assumes "xs ! i \<noteq> None" "i < length xs"
  shows "length (filter (\<lambda>d. d = None) (xs[i := None])) = length (filter (\<lambda>d. d = None) xs) + 1"
  using assms by (induction xs arbitrary: i) (auto split: nat.splits)

lemma next_refused_fields:
  "next_refused n = (r, n') \<Longrightarrow> descriptors n' = descriptors n \<and> ephemeral n' = ephemeral n"
  by (auto simp: next_refused_def split: list.splits)

lemma next_refused_none: "refused n = [] \<Longrightarrow> next_refused n = (False, n)"
  by (simp add: next_refused_def)

lemma get_sock_SomeD:
  "get_sock fd n = Some s \<Longrightarrow> 0 \<le> fd \<and> nat fd < length (descriptors n) \<and> descriptors n ! nat fd = Some s"
  by (auto simp: get_sock_def split: if_splits)

text \<open>A new descriptor takes a slot; the other descriptors stay.\<close>

lemma new_descriptor_cases:
  assumes "new_descriptor s n = (fd, n')"
  obtains (failed) "fd = -1" "descriptors n' = descriptors n" "refused n = [] \<Longrightarrow> free_slots n = 0 \<and> n' = n"
  | (opened) "0 \<le> fd" "get_sock fd n = None" "get_sock fd n' = Some s" "free_slots n' + 1 = free_slots n"
      "\<And>g. g \<noteq> fd \<Longrightarrow> get_sock g n' = get_sock g n" "refused n = [] \<Longrightarrow> refused n' = []"
      "descriptors n = (descriptors n')[nat fd := None]" "ephemeral n' = ephemeral n"
proof -
  obtain r n1 where r: "next_refused n = (r, n1)" by fastforce
  note d = next_refused_fields [OF r]
  have e: "refused n = [] \<Longrightarrow> n1 = n \<and> \<not> r" using r by (simp add: next_refused_none)
  show thesis
  proof (cases "r \<or> first_free (descriptors n1) = None")
    case True
    then have "fd = -1" "n' = n1"
      using assms r by (auto simp: new_descriptor_def split: bool.splits)
    moreover have "refused n = [] \<Longrightarrow> free_slots n = 0"
      using True e by (auto simp: free_slots_def first_free_None)
    ultimately show thesis using d e by (intro failed) auto
  next
    case False
    then obtain i where i: "first_free (descriptors n) = Some i" "\<not> r" using d by auto
    then have eq: "fd = int i" "n' = n1\<lparr>descriptors := (descriptors n)[i := Some s]\<rparr>"
      using assms r d by (auto simp: new_descriptor_def)
    note f = first_free_Some [OF i(1), of s]
    show thesis
    proof (rule opened)
      show "get_sock fd n = None" using eq f by (simp add: get_sock_def)
      show "get_sock fd n' = Some s" using eq f by (simp add: get_sock_def)
      show "free_slots n' + 1 = free_slots n" using eq f by (simp add: free_slots_def)
      show "get_sock g n' = get_sock g n" if "g \<noteq> fd" for g
        using that eq by (auto simp: get_sock_def nth_list_update)
      show "descriptors n = (descriptors n')[nat fd := None]"
        using eq f list_update_same_conv [of i "descriptors n" None] by simp
    qed (use eq e d in auto)
  qed
qed

text \<open>A call on a descriptor changes at most its socket.\<close>

lemma on_sock_cases:
  assumes "on_sock f fd n = (rc, n')"
  obtains (failed) "rc = -1" "descriptors n' = descriptors n"
  | (changed) s s' where "rc = 0" "get_sock fd n = Some s" "f s = Some s'"
      "descriptors n' = (descriptors n)[nat fd := Some s']"
proof -
  obtain r n1 where r: "next_refused n = (r, n1)" by fastforce
  note d = next_refused_fields [OF r]
  have g1: "get_sock fd n1 = get_sock fd n" using d by (simp add: get_sock_def)
  show thesis
  proof (cases "r \<or> Option.bind (get_sock fd n) f = None")
    case True
    then show thesis using assms r d g1 by (intro failed) (auto simp: on_sock_def split: bool.splits)
  next
    case False
    then obtain s s' where s: "get_sock fd n = Some s" "f s = Some s'" by (auto split: Option.bind_splits)
    then show thesis
      using assms r d g1 False by (intro changed [OF _ s]) (auto simp: on_sock_def)
  qed
qed

lemma on_sock_schedule:
  assumes "on_sock f fd n = (rc, n')"
  shows "ephemeral n' = ephemeral n" "refused n = [] \<Longrightarrow> refused n' = []"
proof -
  obtain r n1 where r: "next_refused n = (r, n1)" by fastforce
  then show "ephemeral n' = ephemeral n"
    using assms next_refused_fields [OF r] by (auto simp: on_sock_def split: bool.splits option.splits)
  show "refused n = [] \<Longrightarrow> refused n' = []"
    using assms by (auto simp: on_sock_def next_refused_none split: option.splits)
qed

lemma on_sock_keeps:
  assumes "on_sock f fd n = (rc, n')"
  shows "free_slots n' = free_slots n" "\<And>g. g \<noteq> fd \<Longrightarrow> get_sock g n' = get_sock g n"
    "(descriptors n')[nat fd := None] = (descriptors n)[nat fd := None]"
proof -
  have "free_slots n' = free_slots n \<and> (\<forall>g. g \<noteq> fd \<longrightarrow> get_sock g n' = get_sock g n)
      \<and> (descriptors n')[nat fd := None] = (descriptors n)[nat fd := None]"
  proof (cases rule: on_sock_cases [OF assms])
    case (2 s s')
    note s = get_sock_SomeD [OF 2(2)]
    have "g \<noteq> fd \<Longrightarrow> get_sock g n' = get_sock g n" for g
      using 2(4) s by (auto simp: get_sock_def nth_list_update)
    moreover have "free_slots n' = free_slots n"
      using 2(4) s free_slots_used [of "descriptors n" "nat fd" s'] by (simp add: free_slots_def)
    ultimately show ?thesis using 2(4) by simp
  qed (auto simp: free_slots_def get_sock_def)
  then show "free_slots n' = free_slots n" "\<And>g. g \<noteq> fd \<Longrightarrow> get_sock g n' = get_sock g n"
    "(descriptors n')[nat fd := None] = (descriptors n)[nat fd := None]" by blast+
qed

lemma on_sock_result:
  assumes "on_sock f fd n = (rc, n')"
  shows "rc = -1 \<or> rc = 0 \<and> (\<exists>s s'. get_sock fd n = Some s \<and> f s = Some s' \<and> get_sock fd n' = Some s')"
proof (cases rule: on_sock_cases [OF assms])
  case (2 s s')
  then show ?thesis using get_sock_SomeD [OF 2(2)] by (auto simp: get_sock_def)
qed simp

lemma on_sock_succeeds:
  assumes "refused n = []" "get_sock fd n = Some s" "f s = Some s'"
  obtains n' where "on_sock f fd n = (0, n')" "get_sock fd n' = Some s'"
  using assms get_sock_SomeD [OF assms(2)] that
  by (simp add: on_sock_def next_refused_none get_sock_def)

section \<open>What the listeners and the client do\<close>

text \<open>A server is ready when its socket listens and the system refuses nothing.\<close>

definition listening :: "int \<Rightarrow> net \<Rightarrow> bool" where
  "listening fd n \<longleftrightarrow> refused n = [] \<and> (\<exists>s. get_sock fd n = Some s \<and> backlog s \<noteq> None)"

lemma reverse_2_involution [simp]: "reverse_2 (reverse_2 x) = x"
  by (rule bit_word_eqI) (auto simp: reverse_2_def and_FF bit_simps)

lemma reverse_2_0 [simp]: "reverse_2 0 = 0"
  by (simp add: reverse_2_def)

lemma ntohs_htons [simp]: "ntohs h (htons h x) = x"
  by (simp add: ntohs_def htons_def)

lemma create_server_ready:
  assumes "refused n = []"
  shows "if free_slots n = 0 then create_server h port n = Inl (Process_Exit 0)
    else \<exists>server n'. create_server h port n = Inr (server, n') \<and> listening (server_socket server) n'
      \<and> free_slots n' + 1 = free_slots n
      \<and> (port \<noteq> 0 \<longrightarrow> server_port server = port
          \<and> map_option local_address (get_sock (server_socket server) n') =
              Some (Some \<lparr>sin_addr = INADDR_ANY, sin_port = htons h port\<rparr>))"
proof -
  obtain fd n1 where n1: "socket_c n = (fd, n1)" by fastforce
  then have nd: "new_descriptor fresh_sock n = (fd, n1)" by (simp add: socket_c_def)
  show ?thesis
  proof (cases rule: new_descriptor_cases [OF nd])
    case 1
    then show ?thesis
      using assms n1 by (simp add: create_server_def Socket_def unix_error_def)
  next
    case 2
    note r1 = 2(6) [OF assms]
    obtain n2 where n2: "setsockopt_c fd n1 = (0, n2)"
      "get_sock fd n2 = Some (fresh_sock\<lparr>reuse_address := True\<rparr>)"
      using on_sock_succeeds [OF r1 2(3), of "\<lambda>s. Some (s\<lparr>reuse_address := True\<rparr>)"]
      unfolding setsockopt_c_def by blast
    note k2 = on_sock_schedule [OF n2(1) [unfolded setsockopt_c_def]]
      on_sock_keeps(1) [OF n2(1) [unfolded setsockopt_c_def]]
    let ?a = "\<lparr>sin_addr = INADDR_ANY, sin_port = htons h port\<rparr>"
    let ?b = "if sin_port ?a = 0 then ?a\<lparr>sin_port := ephemeral n2\<rparr> else ?a"
    let ?s = "fresh_sock\<lparr>reuse_address := True, local_address := Some ?b\<rparr>"
    obtain n3 where n3: "bind_c fd ?a n2 = (0, n3)" "get_sock fd n3 = Some ?s"
      using on_sock_succeeds [OF k2(2) [OF r1] n2(2), of "\<lambda>s. if local_address s = None
        then Some (s\<lparr>local_address := Some ?b\<rparr>) else None" ?s]
      unfolding bind_c_def by (auto simp: fresh_sock_def)
    note k3 = on_sock_schedule [OF n3(1) [unfolded bind_c_def]] on_sock_keeps(1) [OF n3(1) [unfolded bind_c_def]]
    have n3': "getsockname_c fd ?a n3 = (?b, n3)"
      using k3(2) [OF k2(2) [OF r1]] n3(2) by (simp add: getsockname_c_def next_refused_none)
    obtain n4 where n4: "listen_c fd 1 n3 = (0, n4)" "get_sock fd n4 = Some (?s\<lparr>backlog := Some 1\<rparr>)"
      using on_sock_succeeds [OF k3(2) [OF k2(2) [OF r1]] n3(2), of "\<lambda>s. Some (s\<lparr>backlog := Some 1\<rparr>)"]
      unfolding listen_c_def by blast
    note k4 = on_sock_schedule [OF n4(1) [unfolded listen_c_def]] on_sock_keeps(1) [OF n4(1) [unfolded listen_c_def]]
    have "htons h port = 0 \<Longrightarrow> port = 0" using ntohs_htons [of h port] by (auto simp: ntohs_def split: if_splits)
    moreover have "free_slots n4 + 1 = free_slots n" using 2(4) k2(3) k3(3) k4(3) by simp
    ultimately show ?thesis
      using n1 2(1,4) n2 n3 n3' n4 k4(2) [OF k3(2) [OF k2(2) [OF r1]]]
      by (auto simp: create_server_def Socket_def Setsockopt_def Bind_def Listen_def listening_def Let_def)
  qed
qed

lemma accept_ready:
  assumes "listening server n"
  shows "if free_slots n = 0 then fst (accept_c server n) = -1
    else \<exists>connection n' n''. accept_c server n = (connection, n') \<and> 0 \<le> connection
      \<and> shutdown_c connection n' = (0, n'') \<and> listening server n'' \<and> free_slots n'' + 1 = free_slots n"
proof -
  obtain s fd n1 where s: "get_sock server n = Some s" "backlog s \<noteq> None" "refused n = []"
    and a: "accept_c server n = (fd, n1)" "new_descriptor fresh_sock n = (fd, n1)"
    using assms by (fastforce simp: listening_def accept_c_def)
  show ?thesis
  proof (cases rule: new_descriptor_cases [OF a(2)])
    case 1
    then show ?thesis using a s by simp
  next
    case 2
    obtain n2 where n2: "shutdown_c fd n1 = (0, n2)"
      using on_sock_succeeds [OF 2(6) [OF s(3)] 2(3), of "\<lambda>s. Some (s\<lparr>is_shut := True\<rparr>)"]
      unfolding shutdown_c_def by blast
    note k = on_sock_keeps [OF n2 [unfolded shutdown_c_def]] on_sock_schedule [OF n2 [unfolded shutdown_c_def]]
    have "server \<noteq> fd" using 2(2) s(1) by auto
    then have "listening server n2"
      using s k(2) k(5) [OF 2(6) [OF s(3)]] 2(5) by (simp add: listening_def)
    moreover have "free_slots n \<noteq> 0" "free_slots n2 + 1 = free_slots n" using 2(4) k(1) by simp_all
    ultimately show ?thesis using a(1) 2(1) n2 by auto
  qed
qed







section \<open>The functions of the library\<close>

text \<open>The two functions that open a socket report exactly what happened: a negative result when a call
  was refused, -2 for a name that is not known, and otherwise the descriptor, connected to the address,
  or bound and listening. But whatever they report, once the first call has given a socket its
  descriptor stays open, so every failure after it loses a descriptor.\<close>

theorem opened_sockets:
  assumes "open_listenfd h port n = (l, n1)" "open_clientfd h resolve name port n = (c, n2)"
  shows "if fst (socket_c n) < 0
    then l = -1 \<and> c = -1 \<and> free_slots n1 = free_slots n \<and> free_slots n2 = free_slots n
    else free_slots n1 + 1 = free_slots n \<and> free_slots n2 + 1 = free_slots n
      \<and> (l = -1 \<or> l = fst (socket_c n) \<and> (\<exists>s. get_sock l n1 = Some s \<and> reuse_address s
          \<and> backlog s = Some LISTENQ
          \<and> (port \<noteq> 0 \<longrightarrow> local_address s = Some \<lparr>sin_addr = INADDR_ANY, sin_port = htons h port\<rparr>)))
      \<and> (case resolve name of
           None \<Rightarrow> c = -2
         | Some a \<Rightarrow> c = -1 \<or> c = fst (socket_c n) \<and>
             (\<exists>s. get_sock c n2 = Some s \<and> remote_address s = Some \<lparr>sin_addr = a, sin_port = htons h port\<rparr>))"
proof -
  obtain fd m where s: "socket_c n = (fd, m)" by fastforce
  then have nd: "new_descriptor fresh_sock n = (fd, m)" by (simp add: socket_c_def)
  show ?thesis
  proof (cases rule: new_descriptor_cases [OF nd])
    case 1
    then show ?thesis using assms s by (auto simp: open_listenfd_def open_clientfd_def free_slots_def)
  next
    case 2
    have client: "free_slots n2 + 1 = free_slots n \<and> (case resolve name of
           None \<Rightarrow> c = -2
         | Some a \<Rightarrow> c = -1 \<or> c = fd \<and>
             (\<exists>s. get_sock c n2 = Some s \<and> remote_address s = Some \<lparr>sin_addr = a, sin_port = htons h port\<rparr>))"
    proof (cases "resolve name")
      case (Some a)
      obtain rc k where k: "connect_c fd \<lparr>sin_addr = a, sin_port = htons h port\<rparr> m = (rc, k)" by fastforce
      note o = k [unfolded connect_c_def]
      show ?thesis
        using assms(2) s k Some 2(1,4) on_sock_keeps(1) [OF o] on_sock_result [OF o]
        by (auto simp: open_clientfd_def split: if_splits)
    qed (use assms(2) s 2(1,4) in \<open>simp add: open_clientfd_def\<close>)
    obtain r1 k1 where k1: "setsockopt_c fd m = (r1, k1)" by fastforce
    obtain r2 k2 where k2: "bind_c fd \<lparr>sin_addr = INADDR_ANY, sin_port = htons h port\<rparr> k1 = (r2, k2)" by fastforce
    obtain r3 k3 where k3: "listen_c fd LISTENQ k2 = (r3, k3)" by fastforce
    note o1 = k1 [unfolded setsockopt_c_def] and o2 = k2 [unfolded bind_c_def] and o3 = k3 [unfolded listen_c_def]
    have "htons h port = 0 \<Longrightarrow> port = 0" using ntohs_htons [of h port] by (auto simp: ntohs_def split: if_splits)
    moreover have "free_slots k1 = free_slots m" "free_slots k2 = free_slots m" "free_slots k3 = free_slots m"
      using on_sock_keeps(1) [OF o1] on_sock_keeps(1) [OF o2] on_sock_keeps(1) [OF o3] by simp_all
    ultimately have "free_slots n1 + 1 = free_slots n \<and> (l = -1 \<or> l = fd \<and> (\<exists>s. get_sock l n1 = Some s
          \<and> reuse_address s \<and> backlog s = Some LISTENQ
          \<and> (port \<noteq> 0 \<longrightarrow> local_address s = Some \<lparr>sin_addr = INADDR_ANY, sin_port = htons h port\<rparr>)))"
      using assms(1) s k1 k2 k3 2(1,4) on_sock_result [OF o1] on_sock_result [OF o2] on_sock_result [OF o3]
      by (auto simp: open_listenfd_def split: if_splits)
    then show ?thesis using client 2(1) unfolding s fst_conv by simp
  qed
qed

theorem opened_sockets_witness:
  "let n = \<lparr>descriptors = [Some fresh_sock, None, None], refused = [False, True], ephemeral = 4000\<rparr>;
       h = \<lparr>host_big_endian = False, host_masks_shifts = True\<rparr> in
     free_slots (snd (open_listenfd h 80 n)) + 1 = free_slots n
     \<and> free_slots (snd (open_clientfd h (\<lambda>_. None) ''localhost'' 80 n)) + 1 = free_slots n"
  unfolding Let_def
  using opened_sockets [where n = "\<lparr>descriptors = [Some fresh_sock, None, None], refused = [False, True],
      ephemeral = 4000\<rparr>" and h = "\<lparr>host_big_endian = False, host_masks_shifts = True\<rparr>" and port = 80
      and resolve = "\<lambda>_. None" and name = "''localhost''", OF prod.collapse [symmetric] prod.collapse [symmetric]]
  by (simp add: socket_c_def new_descriptor_def next_refused_def)

section \<open>From the client to the processor\<close>

lemma send_irq_main_sends:
  assumes "refused n = []" "free_slots n \<noteq> 0" "send_irq argv = Inr (Send name port irq)" "resolve name = Some a"
  obtains n' where "descriptors n' = descriptors n"
    "send_irq_main h resolve argv n = Inr (0, Some (\<lparr>sin_addr = a, sin_port = htons h port\<rparr>, [irq]), n')"
proof -
  obtain fd n1 where s: "socket_c n = (fd, n1)" "new_descriptor fresh_sock n = (fd, n1)"
    by (metis socket_c_def prod.exhaust)
  show thesis
  proof (cases rule: new_descriptor_cases [OF s(2)])
    case 2
    let ?a = "\<lparr>sin_addr = a, sin_port = htons h port\<rparr>"
    note sch = 2(6) [OF assms(1)]
    obtain n2 where n2: "setsockopt_c fd n1 = (0, n2)"
      "get_sock fd n2 = Some (fresh_sock\<lparr>reuse_address := True\<rparr>)"
      using on_sock_succeeds [OF sch 2(3), of "\<lambda>s. Some (s\<lparr>reuse_address := True\<rparr>)"]
      unfolding setsockopt_c_def by blast
    note o2 = n2(1) [unfolded setsockopt_c_def] and sch = on_sock_schedule(2) [OF n2(1) [unfolded setsockopt_c_def] sch]
    let ?s = "fresh_sock\<lparr>reuse_address := True, remote_address := Some ?a\<rparr>"
    obtain n3 where n3: "connect_c fd ?a n2 = (0, n3)" "get_sock fd n3 = Some ?s"
      using on_sock_succeeds [OF sch n2(2), of "\<lambda>s. Some (s\<lparr>remote_address := Some ?a\<rparr>)"]
      unfolding connect_c_def by auto
    note o3 = n3(1) [unfolded connect_c_def] and sch = on_sock_schedule(2) [OF n3(1) [unfolded connect_c_def] sch]
    obtain n4 where o4: "on_sock (\<lambda>s. if is_shut s then None else Some (s\<lparr>written := written s @ [irq]\<rparr>)) fd n3 = (0, n4)"
      and n4: "get_sock fd n4 = Some (?s\<lparr>written := [irq]\<rparr>)"
      using on_sock_succeeds [OF sch n3(2), of "\<lambda>s. if is_shut s then None else Some (s\<lparr>written := written s @ [irq]\<rparr>)"
          "?s\<lparr>written := [irq]\<rparr>"]
      by (auto simp: fresh_sock_def)
    note sch = on_sock_schedule(2) [OF o4 sch]
    obtain n5 where n5: "shutdown_c fd n4 = (0, n5)" "get_sock fd n5 = Some (?s\<lparr>written := [irq], is_shut := True\<rparr>)"
      using on_sock_succeeds [OF sch n4, of "\<lambda>s. Some (s\<lparr>is_shut := True\<rparr>)"]
      unfolding shutdown_c_def by auto
    note o5 = n5(1) [unfolded shutdown_c_def]
    have "(descriptors n5)[nat fd := None] = descriptors n"
      using on_sock_keeps(3) [OF o5] on_sock_keeps(3) [OF o4] on_sock_keeps(3) [OF o3] on_sock_keeps(3) [OF o2] 2(7)
      by simp
    then show thesis
      using assms s(1) 2(1) n2(1) n3(1) o4 n5
      by (intro that [of "n5\<lparr>descriptors := descriptors n\<rparr>"]) (simp_all add: send_irq_main_def Socket_def Setsockopt_def Gethostbyname_def Connect_socket_def write_c_def
          Write_def close_c_def Let_def)
  qed (use assms in simp)
qed

text \<open>C21: From the command line of the client to the processor. When the client and the simulator are given
  the same port, on machines of any byte order, the client connects to the port the listener is bound
  to, sends one byte, the number 4 of an interrupt, gives its descriptor back and returns 0; and the
  listener that receives a connection with this byte and nothing else brings an unmasked processor into IRQ mode, with the interrupted status saved and the
  return address in LR, and leaves a processor that masks interrupts as it was.\<close>

theorem interrupt_delivered:
  assumes "argv = [program, host, port] \<or> argv = [program, host, port, ''interrupt'']"
    "atoi port = Inr k" "(word_of_int k :: u16) \<noteq> 0" "resolve host = Some a"
    "refused nc = []" "free_slots nc \<noteq> 0" "refused ns = []" "free_slots ns \<noteq> 0"
    "process_option opens (CHR ''i'') (Some port) opts = Inr (Goes_On opts')"
    "wf_sim p" "cur_mode p \<noteq> FIQ" "raw p PC (cur_mode p) = Inr pc" "raw p SP (cur_mode p) = Inr sp"
  shows "\<exists>addr nc' server ns' b p'. send_irq_main hc resolve argv nc = Inr (0, Some (addr, [4]), nc')
    \<and> descriptors nc' = descriptors nc
    \<and> create_server hs (irq_port opts') ns = Inr (server, ns')
    \<and> Option.bind (get_sock (server_socket server) ns') local_address = Some b
    \<and> ntohs hs (sin_port b) = ntohs hc (sin_port addr)
    \<and> irq_read_loop [4] False p = Inr p'
    \<and> (if bit (arm_read_cpsr p) 7 then p' = p
       else cur_mode p' = IRQ \<and> raw p' SPSR IRQ = Inr (arm_read_cpsr p)
         \<and> raw p' LR IRQ = Inr ((pc + 4) AND 0xFFFFFFFD))"
proof -
  have "find_irq ''interrupt'' RESET = Inr (Some 4)"
    using find_irq_find [of 1 "''interrupt''"] by (simp add: arm_exception_names_def upt_rec)
  then have "send_irq argv = Inr (Send host (word_of_int k) 4)"
    using assms(1,2) by (auto simp: send_irq_def)
  from send_irq_main_sends [where h = hc and resolve = resolve and name = host, OF assms(5,6) this assms(4)]
  obtain nc' where c: "descriptors nc' = descriptors nc" "send_irq_main hc resolve argv nc =
      Inr (0, Some (\<lparr>sin_addr = a, sin_port = htons hc (word_of_int k)\<rparr>, [4]), nc')" by blast
  have o: "irq_port opts' = word_of_int k"
    using assms(2,9) by (auto simp: process_option_def argument_def)
  obtain server ns' where s: "create_server hs (irq_port opts') ns = Inr (server, ns')"
    "Option.bind (get_sock (server_socket server) ns') local_address =
      Some \<lparr>sin_addr = INADDR_ANY, sin_port = htons hs (word_of_int k)\<rparr>"
    using create_server_ready [OF assms(7), of hs "irq_port opts'"] assms(3,8) o by auto
  have "\<exists>p'. irq_read_loop [4] False p = Inr p' \<and> (if bit (arm_read_cpsr p) 7 then p' = p
       else cur_mode p' = IRQ \<and> raw p' SPSR IRQ = Inr (arm_read_cpsr p)
         \<and> raw p' LR IRQ = Inr ((pc + 4) AND 0xFFFFFFFD))"
  proof (cases "bit (arm_read_cpsr p) 7")
    case True
    then show ?thesis by (simp add: Read_def irq_masked)
  next
    case False
    from irq_entry_effect [OF assms(10,11) False assms(12,13)]
    show ?thesis using False by (fastforce simp: Read_def)
  qed
  then show ?thesis using c s by fastforce
qed

theorem interrupt_delivered_witness:
  "\<exists>addr nc' p'. send_irq_main \<lparr>host_big_endian = True, host_masks_shifts = True\<rparr> (\<lambda>_. Some 0x7F000001)
      [''send_irq'', ''localhost'', ''8099''] \<lparr>descriptors = [None], refused = [], ephemeral = 4000\<rparr>
      = Inr (0, Some (addr, [4]), nc')
    \<and> irq_read_loop [4] False (demo_sim []) = Inr p' \<and> cur_mode p' = IRQ \<and> raw p' LR IRQ = Inr 4"
proof -
  have r: "raw (demo_sim []) i SVC = Inr 0" if i: "i \<in> {SP, PC}" for i
  proof -
    obtain k where "cell i SVC = Inr k" using cell_low [of i SVC] i by auto
    then show ?thesis using i by (intro raw_demo_sim) auto
  qed
  have port: "atoi ''8099'' = Inr 8099" by code_simp
  let ?h = "\<lparr>host_big_endian = True, host_masks_shifts = True\<rparr>"
  let ?n = "\<lparr>descriptors = [None], refused = [], ephemeral = 4000\<rparr>"
  have "\<not> bit (0x153 :: u32) 7" by simp
  then show ?thesis
    using interrupt_delivered [where argv = "[''send_irq'', ''localhost'', ''8099'']"
        and program = "''send_irq''" and host = "''localhost''" and port = "''8099''" and k = 8099
        and resolve = "\<lambda>_. Some 0x7F000001" and a = "0x7F000001" and nc = ?n and ns = ?n and opens = "\<lambda>_. False"
        and opts = default_options and opts' = "default_options\<lparr>irq_port := 8099\<rparr>" and p = "demo_sim []"
        and pc = 0 and sp = 0 and hc = ?h and hs = ?h] port r wf_demo_sim [of "[]"]
    by (fastforce simp: demo_sim_simps free_slots_def process_option_def argument_def)
qed

text \<open>The thread of the debugger gives the socket of its server back, and keeps that of the connection.\<close>

lemma gdb_listener_descriptors:
  assumes "refused n = []" "gdb_listener h port session (n, p) = Some (Inr (d, n'))"
  shows "session p = Some (Inr d) \<and> free_slots n' + 1 = free_slots n"
proof -
  have "free_slots n \<noteq> 0"
  proof
    assume "free_slots n = 0"
    then have "create_server h port n = Inl (Process_Exit 0)"
      using create_server_ready [OF assms(1), of h port] by simp
    then show False using assms(2) by (simp add: gdb_listener_def)
  qed
  then obtain server n1 where s: "create_server h port n = Inr (server, n1)"
    "listening (server_socket server) n1" "free_slots n1 + 1 = free_slots n"
    using create_server_ready [OF assms(1), of h port] by auto
  have "free_slots n1 \<noteq> 0"
  proof
    assume "free_slots n1 = 0"
    then obtain n2 where "accept_c (server_socket server) n1 = (-1, n2)"
      using accept_ready [OF s(2)] by (cases "accept_c (server_socket server) n1") auto
    then show False using assms(2) s(1) by (simp add: gdb_listener_def Accept_def unix_error_def)
  qed
  then obtain c n2 n3 where a: "accept_c (server_socket server) n1 = (c, n2)" "0 \<le> c"
    "shutdown_c c n2 = (0, n3)" "listening (server_socket server) n3" "free_slots n3 + 1 = free_slots n1"
    using accept_ready [OF s(2)] by auto
  obtain x where x: "get_sock (server_socket server) n3 = Some x" using a(4) by (auto simp: listening_def)
  have "free_slots (snd (close_c (server_socket server) n3)) = free_slots n3 + 1"
    using get_sock_SomeD [OF x] free_slots_closed [of "descriptors n3" "nat (server_socket server)"] x
    by (simp add: close_c_def free_slots_def)
  then show ?thesis
    using assms(2) s a
    by (cases "close_c (server_socket server) n3") (auto simp: gdb_listener_def Accept_def bindR_eq_Inr)
qed

end
