(* ===== verification/Locking.thy ===== *)
theory Locking
  imports Simulator
begin

text \<open>
  The two threads of the simulator and the lock they share, in steps finer than those of
  \<open>Simulator\<close>: what a thread does before it takes the lock, each round of the continue command, and
  the release of the lock are steps of their own. The lock makes commands and interrupts atomic, and
  a continue command that does not end keeps every interrupt out.
\<close>

section \<open>The threads\<close>

text \<open>
  Where the thread of the debugger stands: between two packets, in front of the lock with a command
  (the packet, what follows it in the buffer, and the command with its data), in the handler with the
  lock held, after the handler with the lock still held. Where the thread of the interrupts stands:
  reading, in front of the lock with a byte, with the lock held before and after the exception.
\<close>

datatype debugger =
    Resting
  | At_Lock string string char string
  | Executing string string char string
  | Executed

datatype interrupter = Reading | Received u8 | Delivering u8 | Delivered

datatype thread = Debugger_Thread | Interrupt_Thread

record threads =
  shared :: phase
  holder :: "thread option"
  debugger :: debugger
  interrupter :: interrupter

definition at_rest :: "phase \<Rightarrow> threads" where
  "at_rest ph = \<lparr>shared = ph, holder = None, debugger = Resting, interrupter = Reading\<rparr>"

fun commanding :: "debugger \<Rightarrow> bool" where
  "commanding (Executing s rest c data) = True"
| "commanding Executed = True"
| "commanding d = False"

fun delivering :: "interrupter \<Rightarrow> bool" where
  "delivering (Delivering b) = True"
| "delivering Delivered = True"
| "delivering i = False"

definition is_continue :: "char \<Rightarrow> bool" where
  "is_continue c \<longleftrightarrow> c = CHR ''c'' \<or> c = CHR ''C''"

text \<open>
  The steps are labelled with the event they complete, if any. The handlers other than those of the
  continue commands are one step each: with the lock held nothing of theirs is seen from outside.
\<close>

inductive debugger_step :: "threads \<Rightarrow> event option \<Rightarrow> threads \<Rightarrow> bool" where
  no_command: "debugger s = Resting \<Longrightarrow> e \<in> {Connect, Repeat, Garbage, Echo, Disconnect} \<Longrightarrow>
    simulator_step (shared s) e ph \<Longrightarrow> debugger_step s (Some e) (s\<lparr>shared := ph\<rparr>)"
| refused: "debugger s = Resting \<Longrightarrow> shared s = Connected g \<Longrightarrow> 4 \<le> length pkt \<Longrightarrow>
    packet_check g (pkt @ NUL # rest) (length pkt) = Inr (g', None) \<Longrightarrow>
    debugger_step s (Some (Packet pkt)) (s\<lparr>shared := Connected g'\<rparr>)"
| unsupported: "debugger s = Resting \<Longrightarrow> shared s = Connected g \<Longrightarrow> 4 \<le> length pkt \<Longrightarrow>
    packet_check g (pkt @ NUL # rest) (length pkt) = Inr (g', Some (c, data)) \<Longrightarrow> handler c = None \<Longrightarrow>
    gdb_send_data g' [] = Inr g'' \<Longrightarrow>
    debugger_step s (Some (Packet pkt)) (s\<lparr>shared := Connected g''\<rparr>)"
| supported: "debugger s = Resting \<Longrightarrow> shared s = Connected g \<Longrightarrow> 4 \<le> length pkt \<Longrightarrow>
    packet_check g (pkt @ NUL # rest) (length pkt) = Inr (g', Some (c, data)) \<Longrightarrow> handler c \<noteq> None \<Longrightarrow>
    debugger_step s None (s\<lparr>shared := Connected g', debugger := At_Lock pkt rest c data\<rparr>)"
| take_lock: "debugger s = At_Lock pkt rest c data \<Longrightarrow> holder s = None \<Longrightarrow>
    debugger_step s None (s\<lparr>holder := Some Debugger_Thread, debugger := Executing pkt rest c data\<rparr>)"
| execute: "debugger s = Executing pkt rest c data \<Longrightarrow> shared s = Connected g \<Longrightarrow> \<not> is_continue c \<Longrightarrow>
    handler c = Some h \<Longrightarrow> h g data = Some (Inr g') \<Longrightarrow>
    debugger_step s (Some (Packet pkt)) (s\<lparr>shared := Connected g', debugger := Executed\<rparr>)"
| continue_round: "debugger s = Executing pkt rest c data \<Longrightarrow> shared s = Connected g \<Longrightarrow> is_continue c \<Longrightarrow>
    continues g g' \<Longrightarrow> debugger_step s None (s\<lparr>shared := Connected g'\<rparr>)"
| continue_stop: "debugger s = Executing pkt rest c data \<Longrightarrow> shared s = Connected g \<Longrightarrow> is_continue c \<Longrightarrow>
    halts g (Inr g') \<Longrightarrow> gdb_send_stop_reason g' = Inr g'' \<Longrightarrow>
    debugger_step s (Some (Packet pkt)) (s\<lparr>shared := Connected g'', debugger := Executed\<rparr>)"
| release_lock: "debugger s = Executed \<Longrightarrow>
    debugger_step s None (s\<lparr>holder := None, debugger := Resting\<rparr>)"

inductive interrupt_step :: "threads \<Rightarrow> event option \<Rightarrow> threads \<Rightarrow> bool" where
  receive: "interrupter s = Reading \<Longrightarrow> interrupt_step s None (s\<lparr>interrupter := Received b\<rparr>)"
| take: "interrupter s = Received b \<Longrightarrow> holder s = None \<Longrightarrow>
    interrupt_step s None (s\<lparr>holder := Some Interrupt_Thread, interrupter := Delivering b\<rparr>)"
| deliver: "interrupter s = Delivering b \<Longrightarrow> simulator_step (shared s) (Interrupt_Byte b) ph \<Longrightarrow>
    interrupt_step s (Some (Interrupt_Byte b)) (s\<lparr>shared := ph, interrupter := Delivered\<rparr>)"
| release: "interrupter s = Delivered \<Longrightarrow>
    interrupt_step s None (s\<lparr>holder := None, interrupter := Reading\<rparr>)"

definition thread_step :: "threads \<Rightarrow> event option \<Rightarrow> threads \<Rightarrow> bool" where
  "thread_step s l s' \<longleftrightarrow> debugger_step s l s' \<or> interrupt_step s l s'"

fun observed :: "event option \<Rightarrow> event list" where
  "observed None = []"
| "observed (Some e) = [e]"

inductive thread_runs :: "threads \<Rightarrow> event list \<Rightarrow> threads \<Rightarrow> bool" where
  stay: "thread_runs s [] s"
| go: "thread_step s l s' \<Longrightarrow> thread_runs s' es s'' \<Longrightarrow> thread_runs s (observed l @ es) s''"

section \<open>Mutual exclusion\<close>

definition lock_ok :: "threads \<Rightarrow> bool" where
  "lock_ok s \<longleftrightarrow> (holder s = Some Debugger_Thread \<longleftrightarrow> commanding (debugger s))
     \<and> (holder s = Some Interrupt_Thread \<longleftrightarrow> delivering (interrupter s))"

lemma lock_ok_at_rest [simp]: "lock_ok (at_rest ph)"
  by (simp add: lock_ok_def at_rest_def)

lemma mutual_exclusion: "lock_ok s \<Longrightarrow> \<not> (commanding (debugger s) \<and> delivering (interrupter s))"
  by (auto simp: lock_ok_def)

lemma thread_step_lock_ok: "thread_step s l s' \<Longrightarrow> lock_ok s \<Longrightarrow> lock_ok s'"
  unfolding thread_step_def lock_ok_def
  by (elim disjE debugger_step.cases interrupt_step.cases) auto

lemma thread_runs_lock_ok: "thread_runs s es s' \<Longrightarrow> lock_ok s \<Longrightarrow> lock_ok s'"
  by (induction rule: thread_runs.induct) (auto dest: thread_step_lock_ok)

section \<open>What an unfinished command stands for\<close>

text \<open>
  A state of the threads stands for a state of the process between two events: the one before the
  command, as long as the command has not completed. What the debugger has done of it so far does not
  depend on the processor until the lock is taken, and nothing else changes the processor afterwards.
\<close>

lemma Rio_writen_arm: "Rio_writen s (g\<lparr>arm := p\<rparr>) = bindR (Rio_writen s g) (\<lambda>g. Inr (g\<lparr>arm := p\<rparr>))"
  by (simp add: Rio_writen_def)

lemma packet_check_arm:
  "packet_check (g\<lparr>arm := p\<rparr>) pkt n = bindR (packet_check g pkt n) (\<lambda>(g, x). Inr (g\<lparr>arm := p\<rparr>, x))"
  unfolding packet_check_def gdb_send_ack_def gdb_require_retransmission_def Rio_writen_arm bindR_assoc
    bindR_if case_prod_beta bindR_simps prod.case fst_conv snd_conv by (rule refl)

lemma packet_check_keeps_arm: "packet_check g pkt n = Inr (g', x) \<Longrightarrow> arm g' = arm g"
  unfolding packet_check_def gdb_send_ack_def gdb_require_retransmission_def Rio_writen_def
  by (auto simp: bindR_eq_Inr split: if_splits)

inductive stands_for :: "debugger \<Rightarrow> phase \<Rightarrow> phase \<Rightarrow> bool" where
  resting: "stands_for Resting ph ph"
| executed: "stands_for Executed ph ph"
| at_lock: "4 \<le> length pkt \<Longrightarrow> packet_check g (pkt @ NUL # rest) (length pkt) = Inr (g', Some (c, data)) \<Longrightarrow>
    handler c \<noteq> None \<Longrightarrow> stands_for (At_Lock pkt rest c data) (Connected g') (Connected g)"
| executing: "4 \<le> length pkt \<Longrightarrow> packet_check g (pkt @ NUL # rest) (length pkt) = Inr (g0, Some (c, data)) \<Longrightarrow>
    handler c \<noteq> None \<Longrightarrow> continues\<^sup>*\<^sup>* g0 g' \<Longrightarrow> is_continue c \<or> g' = g0 \<Longrightarrow>
    stands_for (Executing pkt rest c data) (Connected g') (Connected g)"

inductive_cases stands_for_restE: "stands_for Resting ph a" "stands_for Executed ph a"
inductive_cases stands_for_lockE: "stands_for (At_Lock pkt rest c data) ph a"
inductive_cases stands_for_executingE: "stands_for (Executing pkt rest c data) ph a"

lemma handler_continue:
  assumes "is_continue c"
  shows "\<exists>h. handler c = Some h \<and> (\<forall>g d. h g d = cont g d)"
proof -
  have "handler (CHR ''c'') = Some cont" "handler (CHR ''C'') = Some cont_with_signal"
    by (simp_all add: handler_def)
  then show ?thesis using assms cont_with_signal_def by (auto simp: is_continue_def)
qed

lemma packet_stepI:
  assumes "4 \<le> length pkt" "packet_check g (pkt @ NUL # rest) (length pkt) = Inr (g0, Some (c, data))"
    "handler c = Some h" "h g0 data = Some (Inr g')"
  shows "simulator_step (Connected g) (Packet pkt) (Connected g')"
  using assms by (intro simulator_step.packet [where rest = rest]) (simp_all add: gdb_packet_analysis_def)

text \<open>A step of the threads is no step of the process, or the one of its label.\<close>

lemma debugger_step_refines:
  assumes "debugger_step s l s'" "stands_for (debugger s) (shared s) a"
  shows "\<exists>a'. runs a (observed l) a' \<and> stands_for (debugger s') (shared s') a' \<and> interrupter s' = interrupter s"
  using assms
proof (cases rule: debugger_step.cases)
  case (no_command e ph)
  then show ?thesis using assms(2) by (auto elim: stands_for_restE intro: stands_for.intros)
next
  case (refused g pkt rest g')
  then have "simulator_step (Connected g) (Packet pkt) (Connected g')"
    by (intro simulator_step.packet [where rest = rest]) (simp_all add: gdb_packet_analysis_def)
  then show ?thesis using refused assms(2) by (auto elim: stands_for_restE intro: stands_for.intros)
next
  case (unsupported g pkt rest g' c data g'')
  then have "simulator_step (Connected g) (Packet pkt) (Connected g'')"
    by (intro simulator_step.packet [where rest = rest]) (simp_all add: gdb_packet_analysis_def)
  then show ?thesis using unsupported assms(2) by (auto elim: stands_for_restE intro: stands_for.intros)
next
  case (supported g pkt rest g' c data)
  then show ?thesis using assms(2) by (auto elim: stands_for_restE intro: stands_for.intros)
next
  case (take_lock pkt rest c data)
  then show ?thesis using assms(2) by (auto elim!: stands_for_lockE intro!: stands_for.intros)
next
  case (execute pkt rest c data g h g')
  then obtain g1 where g1: "a = Connected g1" "4 \<le> length pkt"
    "packet_check g1 (pkt @ NUL # rest) (length pkt) = Inr (g, Some (c, data))"
    using assms(2) by (auto elim: stands_for_executingE)
  show ?thesis
    using execute g1 packet_stepI [OF g1(2,3)] by (auto intro: stands_for.intros)
next
  case (continue_round pkt rest c data g g')
  then show ?thesis using assms(2)
    by (auto elim!: stands_for_executingE intro!: stands_for.intros intro: rtranclp.rtrancl_into_rtrancl)
next
  case (continue_stop pkt rest c data g g' g'')
  then obtain g0 g1 where g1: "a = Connected g1" "4 \<le> length pkt"
    "packet_check g1 (pkt @ NUL # rest) (length pkt) = Inr (g0, Some (c, data))" "continues\<^sup>*\<^sup>* g0 g"
    using assms(2) by (auto elim!: stands_for_executingE)
  obtain h where h: "handler c = Some h" "\<And>g d. h g d = cont g d"
    using handler_continue [OF continue_stop(5)] by blast
  have "cont g0 data = Some (Inr g'')"
    using g1(4) continue_stop by (simp add: cont_def cont_loop_run cont_loop_halts)
  then show ?thesis
    using continue_stop g1 h(2) packet_stepI [OF g1(2,3) h(1)] by (auto intro: stands_for.intros)
next
  case release_lock
  then show ?thesis using assms(2) by (auto elim: stands_for_restE intro: stands_for.intros)
qed

lemma interrupt_arm:
  "simulator_step (Connected g) (Interrupt_Byte b) ph \<longleftrightarrow>
     (\<exists>rc p. arm_exception (unat b) (arm g) = Inr (rc, p) \<and> ph = Connected (g\<lparr>arm := p\<rparr>))"
  by (auto elim: connectedE intro: simulator_step.intros)

lemma interrupt_step_refines:
  assumes "interrupt_step s l s'" "lock_ok s" "stands_for (debugger s) (shared s) a"
  shows "\<exists>a'. runs a (observed l) a' \<and> stands_for (debugger s') (shared s') a'"
  using assms(1)
proof (cases rule: interrupt_step.cases)
  case (deliver b ph)
  then have free: "\<not> commanding (debugger s)" using mutual_exclusion [OF assms(2)] by auto
  show ?thesis
  proof (cases "debugger s")
    case (At_Lock pkt rest c data)
    then obtain g g' where g: "shared s = Connected g'" "a = Connected g" "4 \<le> length pkt"
      "packet_check g (pkt @ NUL # rest) (length pkt) = Inr (g', Some (c, data))" "handler c \<noteq> None"
      using assms(3) by (auto elim: stands_for_lockE)
    obtain rc p where p: "arm_exception (unat b) (arm g) = Inr (rc, p)" "ph = Connected (g'\<lparr>arm := p\<rparr>)"
      using deliver(4) g packet_check_keeps_arm [OF g(4)] by (auto simp: interrupt_arm)
    have "runs a [Interrupt_Byte b] (Connected (g\<lparr>arm := p\<rparr>))"
      using p(1) g(2) by (auto simp: interrupt_arm)
    moreover have "stands_for (debugger s') (shared s') (Connected (g\<lparr>arm := p\<rparr>))"
      using At_Lock deliver p(2) g by (auto intro!: stands_for.intros simp: packet_check_arm)
    ultimately show ?thesis using deliver by auto
  qed (use deliver free assms(3) in \<open>auto elim!: stands_for_restE intro: stands_for.intros\<close>)
qed (use assms(3) in auto)

lemma thread_runs_refine:
  assumes "thread_runs s es s'" "lock_ok s" "stands_for (debugger s) (shared s) a"
  shows "\<exists>a'. runs a es a' \<and> stands_for (debugger s') (shared s') a'"
  using assms
proof (induction arbitrary: a rule: thread_runs.induct)
  case (go s l s' es s'')
  obtain b where "runs a (observed l) b" "stands_for (debugger s') (shared s') b"
    using go.hyps(1) go.prems debugger_step_refines interrupt_step_refines unfolding thread_step_def by blast
  then show ?case using go.IH [OF thread_step_lock_ok [OF go.hyps(1)]] go.prems(1) runs_append by blast
qed (auto intro: runs.none)

section \<open>Every sequence of events is a run of the threads\<close>

lemma thread_runs_append: "thread_runs s es s' \<Longrightarrow> thread_runs s' fs s'' \<Longrightarrow> thread_runs s (es @ fs) s''"
  by (induction rule: thread_runs.induct) (auto intro: thread_runs.go)

lemma debugger_run: "debugger_step s l s' \<Longrightarrow> thread_runs s (observed l) s'"
  and interrupt_run: "interrupt_step s l s' \<Longrightarrow> thread_runs s (observed l) s'"
  using thread_runs.go [of s l s' "[]" s'] thread_runs.stay [of s'] by (auto simp: thread_step_def)

lemma at_rest_fields [simp]:
  "shared (at_rest ph) = ph" "holder (at_rest ph) = None"
  "debugger (at_rest ph) = Resting" "interrupter (at_rest ph) = Reading"
  by (simp_all add: at_rest_def)

lemma interrupt_realized:
  assumes "simulator_step a (Interrupt_Byte b) a'"
  shows "thread_runs (at_rest a) [Interrupt_Byte b] (at_rest a')"
proof -
  let ?s1 = "(at_rest a)\<lparr>interrupter := Received b\<rparr>"
  let ?s2 = "?s1\<lparr>holder := Some Interrupt_Thread, interrupter := Delivering b\<rparr>"
  let ?s3 = "?s2\<lparr>shared := a', interrupter := Delivered\<rparr>"
  have "thread_runs (at_rest a) [] ?s1" using interrupt_run [OF receive [of "at_rest a" b]] by simp
  moreover have "thread_runs ?s1 [] ?s2" using interrupt_run [OF take [of ?s1 b]] by simp
  moreover have "thread_runs ?s2 [Interrupt_Byte b] ?s3"
    using interrupt_run [OF deliver [of ?s2 b a']] assms by simp
  moreover have "thread_runs ?s3 [] (at_rest a')"
    using interrupt_run [OF release [of ?s3]] by (simp add: at_rest_def)
  ultimately show ?thesis by (metis thread_runs_append append_Nil append_Nil2)
qed

text \<open>The state of the threads with the debugger in its handler.\<close>

definition in_handler :: "gdb_protocol_data \<Rightarrow> string \<Rightarrow> string \<Rightarrow> char \<Rightarrow> string \<Rightarrow> threads" where
  "in_handler g pkt rest c data =
     \<lparr>shared = Connected g, holder = Some Debugger_Thread, debugger = Executing pkt rest c data,
      interrupter = Reading\<rparr>"

lemma enter_handler:
  assumes "4 \<le> length pkt" "packet_check g (pkt @ NUL # rest) (length pkt) = Inr (g', Some (c, data))"
    "handler c \<noteq> None"
  shows "thread_runs (at_rest (Connected g)) [] (in_handler g' pkt rest c data)"
proof -
  let ?s1 = "(at_rest (Connected g))\<lparr>shared := Connected g', debugger := At_Lock pkt rest c data\<rparr>"
  have "thread_runs (at_rest (Connected g)) [] ?s1"
    using debugger_run [OF supported [of "at_rest (Connected g)" g pkt rest g' c data]] assms by simp
  moreover have "thread_runs ?s1 [] (in_handler g' pkt rest c data)"
    using debugger_run [OF take_lock [of ?s1 pkt rest c data]] by (simp add: at_rest_def in_handler_def)
  ultimately show ?thesis using thread_runs_append by fastforce
qed

lemma leave_handler:
  assumes "debugger_step (in_handler g pkt rest c data) l
    ((in_handler g pkt rest c data)\<lparr>shared := Connected g', debugger := Executed\<rparr>)"
  shows "thread_runs (in_handler g pkt rest c data) (observed l) (at_rest (Connected g'))"
proof -
  let ?s = "(in_handler g pkt rest c data)\<lparr>shared := Connected g', debugger := Executed\<rparr>"
  have "thread_runs ?s [] (at_rest (Connected g'))"
    using debugger_run [OF release_lock [of ?s]] by (simp add: at_rest_def in_handler_def)
  then show ?thesis using thread_runs_append [OF debugger_run [OF assms]] by fastforce
qed

lemma continue_rounds:
  assumes "continues\<^sup>*\<^sup>* g g'" "is_continue c"
  shows "thread_runs (in_handler g pkt rest c data) [] (in_handler g' pkt rest c data)"
  using assms(1)
proof (induction rule: rtranclp_induct)
  case (step g1 g2)
  have "debugger_step (in_handler g1 pkt rest c data) None (in_handler g2 pkt rest c data)"
    using continue_round [of "in_handler g1 pkt rest c data"] step.hyps(2) assms(2)
    by (simp add: in_handler_def)
  then show ?case using thread_runs_append [OF step.IH debugger_run] by fastforce
qed (rule thread_runs.stay)

lemma command_realized:
  assumes "handler c = Some h" "h g data = Some (Inr g')"
  shows "thread_runs (in_handler g pkt rest c data) [Packet pkt] (at_rest (Connected g'))"
proof (cases "is_continue c")
  case False
  then show ?thesis
    using leave_handler [OF execute [of "in_handler g pkt rest c data"]] assms by (simp add: in_handler_def)
next
  case True
  then have "cont g data = Some (Inr g')" using handler_continue [OF True] assms by auto
  then obtain g1 g2 where g: "continues\<^sup>*\<^sup>* g g1" "halts g1 (Inr g2)" "gdb_send_stop_reason g2 = Inr g'"
    by (auto simp: cont_def cont_loop_Some_iff bindR_eq_Inr)
  have "thread_runs (in_handler g1 pkt rest c data) [Packet pkt] (at_rest (Connected g'))"
    using leave_handler [OF continue_stop [of "in_handler g1 pkt rest c data"]] True g(2,3)
    by (simp add: in_handler_def)
  then show ?thesis using thread_runs_append [OF continue_rounds [OF g(1) True]] by fastforce
qed

lemma event_realized:
  assumes "simulator_step a e a'"
  shows "thread_runs (at_rest a) [e] (at_rest a')"
  using assms
proof (cases rule: simulator_step.cases)
  case (packet s g rest g')
  let ?check = "packet_check g (s @ NUL # rest) (length s)"
  consider (refused) "?check = Inr (g', None)"
    | (unsupported) g1 c data where "?check = Inr (g1, Some (c, data))" "handler c = None"
        "gdb_send_data g1 [] = Inr g'"
    | (supported) g1 c data h where "?check = Inr (g1, Some (c, data))" "handler c = Some h"
        "h g1 data = Some (Inr g')"
    using packet(5) by (auto simp: gdb_packet_analysis_def split: sum.splits prod.splits option.splits)
  then show ?thesis
  proof cases
    case refused
    then show ?thesis using debugger_run [OF debugger_step.refused [of "at_rest a"]] packet
      by (simp add: at_rest_def)
  next
    case (unsupported g1 c data)
    then show ?thesis using debugger_run [OF debugger_step.unsupported [of "at_rest a"]] packet
      by (simp add: at_rest_def)
  next
    case (supported g1 c data h)
    then show ?thesis
      using thread_runs_append [OF enter_handler command_realized] packet by fastforce
  qed
qed (use assms interrupt_realized debugger_run [OF no_command [of "at_rest a" e]]
  in \<open>auto simp: at_rest_def\<close>)

text \<open>C11: The lock makes commands and interrupts atomic. The threads, in steps as fine as the code before the
  lock, the lock and its release, and the rounds of the continue command, get the process from one
  state between two events to another exactly by the sequences of events of the process, whatever the
  interleaving.\<close>

theorem threads_are_atomic:
  "thread_runs (at_rest ph) es (at_rest ph') \<longleftrightarrow> runs ph es ph'"
proof
  assume r: "thread_runs (at_rest ph) es (at_rest ph')"
  obtain a where "runs ph es a" "stands_for Resting ph' a"
    using thread_runs_refine [OF r, of ph] by (auto intro: stands_for.intros)
  then show "runs ph es ph'" by (auto elim: stands_for_restE)
next
  assume "runs ph es ph'"
  then show "thread_runs (at_rest ph) es (at_rest ph')"
  proof (induction rule: runs.induct)
    case (more s e s' es s'')
    then show ?case using thread_runs_append [OF event_realized [OF more.hyps(1)]] by fastforce
  qed (rule thread_runs.stay)
qed

section \<open>A continue command keeps the interrupts out\<close>

lemma continuing_step:
  assumes "thread_step s l s'" "lock_ok s" "debugger s = Executing pkt rest c data" "is_continue c"
    "shared s = Connected g" "cont_loop g = None"
  shows "l = None \<and> debugger s' = debugger s
    \<and> (interrupter s' = interrupter s \<or> interrupter s = Reading \<and> (\<exists>b. interrupter s' = Received b))
    \<and> (\<exists>g'. shared s' = Connected g' \<and> continues\<^sup>*\<^sup>* g g' \<and> cont_loop g' = None)"
proof -
  have h: "holder s = Some Debugger_Thread" "\<not> delivering (interrupter s)"
    using assms(2,3) by (auto simp: lock_ok_def)
  consider "debugger_step s l s'" | "interrupt_step s l s'" using assms(1) by (auto simp: thread_step_def)
  then show ?thesis
  proof cases
    case 1
    then show ?thesis
    proof cases
      case (continue_round pkt' rest' c' data' g1 g')
      then show ?thesis using assms(5,6) cont_loop_continues [of g g'] by auto
    next
      case (continue_stop pkt' rest' c' data' g1 g' g'')
      then show ?thesis using assms(5,6) cont_loop_halts [of g] by auto
    qed (use assms(3-5) in auto)
  next
    case 2
    then show ?thesis by cases (use h assms(5,6) in auto)
  qed
qed

text \<open>C12: While a continue command runs that does not end, its thread holds the lock for ever and no interrupt
  is ever delivered: whatever the threads do, no event completes, the debugger stays in its handler,
  and the thread of the interrupts gets at most as far as the lock, with the first byte it has read.
  The processor only makes the rounds of the command.\<close>

theorem continue_keeps_interrupts_out:
  assumes "thread_runs (at_rest ph) es s" "debugger s = Executing pkt rest c data" "is_continue c"
    "shared s = Connected g" "cont_loop g = None" "thread_runs s fs s'"
  shows "fs = [] \<and> holder s' = Some Debugger_Thread \<and> debugger s' = debugger s
    \<and> (interrupter s' = interrupter s \<or> interrupter s = Reading \<and> (\<exists>b. interrupter s' = Received b))
    \<and> \<not> delivering (interrupter s') \<and> (\<exists>g'. shared s' = Connected g' \<and> continues\<^sup>*\<^sup>* g g')"
proof -
  have "lock_ok s" using thread_runs_lock_ok [OF assms(1)] by simp
  from assms(6) this assms(2,4,5)
  have "fs = [] \<and> debugger s' = debugger s \<and> lock_ok s'
    \<and> (interrupter s' = interrupter s \<or> interrupter s = Reading \<and> (\<exists>b. interrupter s' = Received b))
    \<and> (\<exists>g'. shared s' = Connected g' \<and> continues\<^sup>*\<^sup>* g g')"
  proof (induction arbitrary: g rule: thread_runs.induct)
    case (go s l s1 fs s2)
    obtain g1 where g1: "l = None" "debugger s1 = debugger s" "shared s1 = Connected g1" "continues\<^sup>*\<^sup>* g g1"
      "cont_loop g1 = None"
      "interrupter s1 = interrupter s \<or> interrupter s = Reading \<and> (\<exists>b. interrupter s1 = Received b)"
      using continuing_step [OF go.hyps(1) go.prems(1,2) assms(3) go.prems(3,4)] by blast
    have "debugger s1 = Executing pkt rest c data" using g1(2) go.prems(2) by simp
    from go.IH [OF thread_step_lock_ok [OF go.hyps(1) go.prems(1)] this g1(3,5)] g1
    show ?case by (auto intro: rtranclp_trans)
  qed auto
  then show ?thesis using assms(2) by (auto simp: lock_ok_def)
qed

theorem continue_keeps_interrupts_out_witness:
  "\<exists>s. thread_runs (at_rest (Connected (demo_gdb [0xEA, 0xFF, 0xFF, 0xFE]))) [] s \<and> interrupter s = Received 6
    \<and> (\<forall>fs s'. thread_runs s fs s' \<longrightarrow> fs = [] \<and> interrupter s' = Received 6)"
proof -
  let ?g = "demo_gdb [0xEA, 0xFF, 0xFF, 0xFE]" and ?pkt = "''$c#63''" and ?data = "[NUL, CHR ''6'', CHR ''3'', NUL]"
  let ?g1 = "?g\<lparr>sent := ''+''\<rparr>"
  let ?s = "in_handler ?g1 ?pkt [] (CHR ''c'') ?data"
  let ?s1 = "?s\<lparr>interrupter := Received 6\<rparr>"
  have sum: "checksum ''c'' = 99" and digits: "hex_fixed hex_digit 2 99 = ''63''" by code_simp+
  have len: "length ?pkt = 5" by simp
  have "\<not> shut_down ?g" by (simp add: demo_gdb_def)
  then have "packet_check ?g (?pkt @ [NUL]) (length ?pkt) = Inr (?g1, Some (CHR ''c'', ?data))"
    unfolding len using packet_check_framed [of 99 ?g "''c''"] by (simp add: sum digits demo_gdb_simps)
  then have r: "thread_runs (at_rest (Connected ?g)) [] ?s"
    by (intro enter_handler) (simp_all add: handler_def)
  moreover have i: "thread_runs ?s [] ?s1"
    using interrupt_run [OF receive [of ?s 6]] by (simp add: in_handler_def)
  ultimately have run: "thread_runs (at_rest (Connected ?g)) [] ?s1" using thread_runs_append by fastforce
  have "at_self_branch 0 ?g1" using demo_at_self_branch
    by (simp add: at_self_branch_def wf_table_def breakpoint_set_def active_def)
  then have "cont ?g1 [] = None" by (rule continue_at_self_branch_never_returns) simp_all
  then have none: "cont_loop ?g1 = None" by (simp add: cont_def)
  have "fs = [] \<and> interrupter s' = Received 6" if "thread_runs ?s1 fs s'" for fs s'
    using continue_keeps_interrupts_out [OF run _ _ _ none that, of ?pkt "[]" "CHR ''c''" ?data]
    by (simp add: in_handler_def is_continue_def)
  with run show ?thesis by (intro exI [of _ ?s1]) (simp add: in_handler_def)
qed
end
