(* ===== verification/Traced.thy ===== *)
theory Traced
  imports Trace Arm_Exception
begin

text \<open>
  The accesses of \<^verbatim>\<open>arm_core.c\<close> with the calls of \<^verbatim>\<open>trace.c\<close> they make, and the macros of
  \<^verbatim>\<open>trace_location.h\<close> that note where in the sources an access comes from: tracing only observes, and
  what it writes.
\<close>

section \<open>Accesses with their trace\<close>

abbreviation WRITE :: nat where "WRITE \<equiv> 0"
abbreviation READ :: nat where "READ \<equiv> 1"
abbreviation OTHER_ACCESS :: nat where "OTHER_ACCESS \<equiv> 0"
abbreviation OPCODE_FETCH :: nat where "OPCODE_FETCH \<equiv> 1"

type_synonym traced = "sim \<times> trace_data"

definition traced_read_register_internal :: "nat \<Rightarrow> nat \<Rightarrow> traced \<Rightarrow> (u32 \<times> traced) res" where
  "traced_read_register_internal i mode = (\<lambda>(p, t).
     bindR (arm_read_register_internal i mode p) (\<lambda>v.
     bindR (trace_register (cycle_count p) READ i mode v t) (\<lambda>t. Inr (v, p, t))))"

definition traced_read_register :: "nat \<Rightarrow> traced \<Rightarrow> (u32 \<times> traced) res" where
  "traced_read_register i = (\<lambda>(p, t).
     traced_read_register_internal i (registers_get_mode (reg p)) (p, t))"

definition traced_read_usr_register :: "nat \<Rightarrow> traced \<Rightarrow> (u32 \<times> traced) res" where
  "traced_read_usr_register i = traced_read_register_internal i USR"

definition traced_read_cpsr :: "traced \<Rightarrow> (u32 \<times> traced) res" where
  "traced_read_cpsr = (\<lambda>(p, t).
     let v = arm_read_cpsr p in
     bindR (trace_register (cycle_count p) READ CPSR 0 v t) (\<lambda>t. Inr (v, p, t)))"

definition traced_read_spsr :: "traced \<Rightarrow> (u32 \<times> traced) res" where
  "traced_read_spsr = (\<lambda>(p, t).
     bindR (arm_read_spsr p) (\<lambda>v.
     bindR (trace_register (cycle_count p) READ SPSR (registers_get_mode (reg p)) v t) (\<lambda>t.
     Inr (v, p, t))))"

definition traced_write_register_internal :: "nat \<Rightarrow> nat \<Rightarrow> u32 \<Rightarrow> traced \<Rightarrow> traced res" where
  "traced_write_register_internal i mode v = (\<lambda>(p, t).
     bindR (arm_write_register_internal i mode v p) (\<lambda>p.
     bindR (trace_register (cycle_count p) WRITE i mode v t) (\<lambda>t. Inr (p, t))))"

definition traced_write_register :: "nat \<Rightarrow> u32 \<Rightarrow> traced \<Rightarrow> traced res" where
  "traced_write_register i v = (\<lambda>(p, t).
     traced_write_register_internal i (registers_get_mode (reg p)) v (p, t))"

definition traced_write_usr_register :: "nat \<Rightarrow> u32 \<Rightarrow> traced \<Rightarrow> traced res" where
  "traced_write_usr_register i = traced_write_register_internal i USR"

definition traced_write_cpsr :: "u32 \<Rightarrow> traced \<Rightarrow> traced res" where
  "traced_write_cpsr v = (\<lambda>(p, t).
     let p = arm_write_cpsr v p in
     bindR (trace_register (cycle_count p) WRITE CPSR 0 v t) (\<lambda>t. Inr (p, t)))"

definition traced_write_spsr :: "u32 \<Rightarrow> traced \<Rightarrow> traced res" where
  "traced_write_spsr v = (\<lambda>(p, t).
     bindR (arm_write_spsr v p) (\<lambda>p.
     bindR (trace_register (cycle_count p) WRITE SPSR (registers_get_mode (reg p)) v t) (\<lambda>t.
     Inr (p, t))))"

text \<open>
  A read traces what the variable of its caller holds afterwards: the value read, or, when the read is
  refused, what was in the variable before, here the argument \<open>old\<close>.
\<close>

definition traced_read_byte :: "u8 \<Rightarrow> u32 \<Rightarrow> traced \<Rightarrow> (u8 option \<times> traced) res" where
  "traced_read_byte old address = (\<lambda>(p, t).
     bindR (arm_read_byte address p) (\<lambda>result.
     bindR (trace_memory (cycle_count p) READ 1 OTHER_ACCESS address
              (ucast (case result of None \<Rightarrow> old | Some v \<Rightarrow> v)) t) (\<lambda>t.
     Inr (result, p, t))))"

definition traced_read_half :: "u16 \<Rightarrow> u32 \<Rightarrow> traced \<Rightarrow> (u16 option \<times> traced) res" where
  "traced_read_half old address = (\<lambda>(p, t).
     bindR (arm_read_half address p) (\<lambda>result.
     bindR (trace_memory (cycle_count p) READ 2 OTHER_ACCESS address
              (ucast (case result of None \<Rightarrow> old | Some v \<Rightarrow> v)) t) (\<lambda>t.
     Inr (result, p, t))))"

definition traced_read_word :: "u32 \<Rightarrow> u32 \<Rightarrow> traced \<Rightarrow> (u32 option \<times> traced) res" where
  "traced_read_word old address = (\<lambda>(p, t).
     bindR (arm_read_word address p) (\<lambda>result.
     bindR (trace_memory (cycle_count p) READ 4 OTHER_ACCESS address
              (case result of None \<Rightarrow> old | Some v \<Rightarrow> v) t) (\<lambda>t.
     Inr (result, p, t))))"

definition traced_fetch :: "u32 \<Rightarrow> traced \<Rightarrow> (u32 option \<times> traced) res" where
  "traced_fetch old = (\<lambda>(p, t).
     bindR (registers_read (sim_host p) (reg p) 15 (registers_get_mode (reg p))) (\<lambda>address.
     bindR (arm_fetch p) (\<lambda>(result, p).
     bindR (trace_memory (cycle_count p) READ 4 OPCODE_FETCH address
              (case result of None \<Rightarrow> old | Some v \<Rightarrow> v) t) (\<lambda>t.
     Inr (result, p, t)))))"

definition traced_write_byte :: "u32 \<Rightarrow> u8 \<Rightarrow> traced \<Rightarrow> (int \<times> traced) res" where
  "traced_write_byte address v = (\<lambda>(p, t).
     bindR (arm_write_byte address v p) (\<lambda>(result, p).
     bindR (trace_memory (cycle_count p) WRITE 1 OTHER_ACCESS address (ucast v) t) (\<lambda>t.
     Inr (result, p, t))))"

definition traced_write_half :: "u32 \<Rightarrow> u16 \<Rightarrow> traced \<Rightarrow> (int \<times> traced) res" where
  "traced_write_half address v = (\<lambda>(p, t).
     bindR (arm_write_half address v p) (\<lambda>(result, p).
     bindR (trace_memory (cycle_count p) WRITE 2 OTHER_ACCESS address (ucast v) t) (\<lambda>t.
     Inr (result, p, t))))"

definition traced_write_word :: "u32 \<Rightarrow> u32 \<Rightarrow> traced \<Rightarrow> (int \<times> traced) res" where
  "traced_write_word address v = (\<lambda>(p, t).
     bindR (arm_write_word address v p) (\<lambda>(result, p).
     bindR (trace_memory (cycle_count p) WRITE 4 OTHER_ACCESS address v t) (\<lambda>t.
     Inr (result, p, t))))"

section \<open>Locations\<close>

text \<open>
  A place in the sources: the file and the line. The macros of the reads, and of the writes to memory, add
  \<^verbatim>\<open>END_LOCATION\<close> to the result of the call: C leaves open which of the two operands is evaluated
  first, \<open>end_first\<close> is what the compiler does. The macros of the writes to registers use the comma.
\<close>

type_synonym site = "string \<times> int"

definition located_sum :: "bool \<Rightarrow> site \<Rightarrow> (traced \<Rightarrow> ('a \<times> traced) res) \<Rightarrow> traced \<Rightarrow> ('a \<times> traced) res" where
  "located_sum end_first s call = (\<lambda>(p, t).
     bindR (trace_start_location (fst s) (snd s) t) (\<lambda>t.
     if end_first then call (p, trace_end_location t)
     else bindR (call (p, t)) (\<lambda>(v, p, t). Inr (v, p, trace_end_location t))))"

definition located_comma :: "site \<Rightarrow> (traced \<Rightarrow> traced res) \<Rightarrow> traced \<Rightarrow> traced res" where
  "located_comma s call = (\<lambda>(p, t).
     bindR (trace_start_location (fst s) (snd s) t) (\<lambda>t.
     bindR (call (p, t)) (\<lambda>(p, t). Inr (p, trace_end_location t))))"

section \<open>Code as its accesses\<close>

text \<open>
  The accesses with their arguments, and their results. The \<open>old\<close> contents of a variable are an
  argument of the reads, without influence on anything but the trace.
\<close>

datatype access =
    Read_Register nat | Read_Usr_Register nat | Read_Cpsr | Read_Spsr
  | Write_Register nat u32 | Write_Usr_Register nat u32 | Write_Cpsr u32 | Write_Spsr u32
  | Read_Byte u8 u32 | Read_Half u16 u32 | Read_Word u32 u32 | Fetch u32
  | Write_Byte u32 u8 | Write_Half u32 u16 | Write_Word u32 u32

datatype answer = Value u32 | Loaded "u32 option" | Code int | Done

abbreviation widen :: "('a::len) word option \<Rightarrow> u32 option" where
  "widen \<equiv> map_option ucast"

fun perform :: "access \<Rightarrow> sim \<Rightarrow> (answer \<times> sim) res" where
  "perform (Read_Register i) p = bindR (arm_read_register i p) (\<lambda>v. Inr (Value v, p))"
| "perform (Read_Usr_Register i) p = bindR (arm_read_usr_register i p) (\<lambda>v. Inr (Value v, p))"
| "perform Read_Cpsr p = Inr (Value (arm_read_cpsr p), p)"
| "perform Read_Spsr p = bindR (arm_read_spsr p) (\<lambda>v. Inr (Value v, p))"
| "perform (Write_Register i v) p = bindR (arm_write_register i v p) (\<lambda>p. Inr (Done, p))"
| "perform (Write_Usr_Register i v) p = bindR (arm_write_usr_register i v p) (\<lambda>p. Inr (Done, p))"
| "perform (Write_Cpsr v) p = Inr (Done, arm_write_cpsr v p)"
| "perform (Write_Spsr v) p = bindR (arm_write_spsr v p) (\<lambda>p. Inr (Done, p))"
| "perform (Read_Byte old a) p = bindR (arm_read_byte a p) (\<lambda>r. Inr (Loaded (widen r), p))"
| "perform (Read_Half old a) p = bindR (arm_read_half a p) (\<lambda>r. Inr (Loaded (widen r), p))"
| "perform (Read_Word old a) p = bindR (arm_read_word a p) (\<lambda>r. Inr (Loaded r, p))"
| "perform (Fetch old) p = bindR (arm_fetch p) (\<lambda>(r, p). Inr (Loaded r, p))"
| "perform (Write_Byte a v) p = bindR (arm_write_byte a v p) (\<lambda>(r, p). Inr (Code r, p))"
| "perform (Write_Half a v) p = bindR (arm_write_half a v p) (\<lambda>(r, p). Inr (Code r, p))"
| "perform (Write_Word a v) p = bindR (arm_write_word a v p) (\<lambda>(r, p). Inr (Code r, p))"

definition answers :: "('a \<Rightarrow> answer) \<Rightarrow> ('a \<times> traced) res \<Rightarrow> (answer \<times> traced) res" where
  "answers f m = bindR m (\<lambda>(v, s). Inr (f v, s))"

definition finished :: "traced res \<Rightarrow> (answer \<times> traced) res" where
  "finished m = bindR m (\<lambda>s. Inr (Done, s))"

fun perform_traced :: "bool \<Rightarrow> site \<Rightarrow> access \<Rightarrow> traced \<Rightarrow> (answer \<times> traced) res" where
  "perform_traced e s (Read_Register i) x = answers Value (located_sum e s (traced_read_register i) x)"
| "perform_traced e s (Read_Usr_Register i) x = answers Value (located_sum e s (traced_read_usr_register i) x)"
| "perform_traced e s Read_Cpsr x = answers Value (located_sum e s traced_read_cpsr x)"
| "perform_traced e s Read_Spsr x = answers Value (located_sum e s traced_read_spsr x)"
| "perform_traced e s (Write_Register i v) x = finished (located_comma s (traced_write_register i v) x)"
| "perform_traced e s (Write_Usr_Register i v) x = finished (located_comma s (traced_write_usr_register i v) x)"
| "perform_traced e s (Write_Cpsr v) x = finished (located_comma s (traced_write_cpsr v) x)"
| "perform_traced e s (Write_Spsr v) x = finished (located_comma s (traced_write_spsr v) x)"
| "perform_traced e s (Read_Byte old a) x =
     answers (\<lambda>r. Loaded (widen r)) (located_sum e s (traced_read_byte old a) x)"
| "perform_traced e s (Read_Half old a) x =
     answers (\<lambda>r. Loaded (widen r)) (located_sum e s (traced_read_half old a) x)"
| "perform_traced e s (Read_Word old a) x = answers Loaded (located_sum e s (traced_read_word old a) x)"
| "perform_traced e s (Fetch old) x = answers Loaded (located_sum e s (traced_fetch old) x)"
| "perform_traced e s (Write_Byte a v) x = answers Code (located_sum e s (traced_write_byte a v) x)"
| "perform_traced e s (Write_Half a v) x = answers Code (located_sum e s (traced_write_half a v) x)"
| "perform_traced e s (Write_Word a v) x = answers Code (located_sum e s (traced_write_word a v) x)"

text \<open>
  What the code does besides: it prints on the standard output, reads a number from the standard input,
  asks whether the mode has a saved status register, and depends on the host it runs on. None of this
  is traced.
\<close>

datatype quiet = Print string | Scan | Ask_Spsr | Ask_Host

datatype reply = Printed | Scanned "int option" | Has_Spsr bool | On_Host host

fun do_quiet :: "quiet \<Rightarrow> sim \<Rightarrow> reply \<times> sim" where
  "do_quiet (Print s) p = (Printed, p\<lparr>stdout := stdout p @ s\<rparr>)"
| "do_quiet Scan p = (let (x, rest) = scan_d (stdin p) in (Scanned x, p\<lparr>stdin := rest\<rparr>))"
| "do_quiet Ask_Spsr p = (Has_Spsr (arm_current_mode_has_spsr p), p)"
| "do_quiet Ask_Host p = (On_Host (sim_host p), p)"

text \<open>
  Code that uses the processor through its accesses only is a tree: an access at a place of the sources,
  or something quiet, and what follows for each answer. Its result, or a fault of its own, are the
  leaves.
\<close>

datatype 'a code =
    Return "'a res"
  | Access site access "answer \<Rightarrow> 'a code"
  | Quiet quiet "reply \<Rightarrow> 'a code"

primrec run :: "'a code \<Rightarrow> sim \<Rightarrow> ('a \<times> sim) res" where
  "run (Return r) = (\<lambda>p. bindR r (\<lambda>v. Inr (v, p)))"
| "run (Access s a k) = (\<lambda>p. bindR (perform a p) (\<lambda>(x, p). run (k x) p))"
| "run (Quiet q k) = (\<lambda>p. case do_quiet q p of (x, p) \<Rightarrow> run (k x) p)"

primrec run_traced :: "bool \<Rightarrow> 'a code \<Rightarrow> traced \<Rightarrow> ('a \<times> traced) res" where
  "run_traced e (Return r) = (\<lambda>x. bindR r (\<lambda>v. Inr (v, x)))"
| "run_traced e (Access s a k) = (\<lambda>x. bindR (perform_traced e s a x) (\<lambda>(y, x). run_traced e (k y) x))"
| "run_traced e (Quiet q k) = (\<lambda>(p, t). case do_quiet q p of (x, p) \<Rightarrow> run_traced e (k x) (p, t))"

section \<open>What is written\<close>

text \<open>The entries of the trace, and the line each is written as.\<close>

datatype entry =
    Memory_Entry u32 nat nat nat u32 u32
  | Register_Entry u32 nat nat nat u32

fun entry_line :: "entry \<Rightarrow> string" where
  "entry_line (Memory_Entry cycle type size' cause address val) =
     ''Cycle '' @ format_d cycle @ '', Mem '' @ trace_memory_seq ! 0 @ trace_memory_type ! type
       @ '' ('' @ show_dec size' @ '' bytes'' @ trace_memory_cause ! cause @ '') addr: '' @ format_08X address
       @ '', val: '' @ format_08X val @ [CHR 0x0A]"
| "entry_line (Register_Entry cycle type i mode val) =
     ''Cycle '' @ format_d cycle @ '', Register '' @ arm_register_names ! i @ '', '' @ trace_register_type ! type
       @ (case arm_mode_names ! mode of None \<Rightarrow> [] | Some n \<Rightarrow> ''_'' @ n)
       @ '', val: '' @ format_08X val @ [CHR 0x0A]"

fun wanted :: "trace_data \<Rightarrow> entry \<Rightarrow> bool" where
  "wanted t (Memory_Entry cycle type size' cause address val) = (enabled t \<and> trace_flags t AND MEMORY \<noteq> 0)"
| "wanted t (Register_Entry cycle type i mode val) = (enabled t \<and> trace_flags t AND REGISTERS \<noteq> 0)"

fun entry_ok :: "entry \<Rightarrow> bool" where
  "entry_ok (Memory_Entry cycle type size' cause address val) = (type < 2 \<and> cause < 2)"
| "entry_ok (Register_Entry cycle type i mode val) = (type < 2 \<and> i < 18 \<and> mode < 32)"

fun entry_address :: "entry \<Rightarrow> u32 \<Rightarrow> u32" where
  "entry_address (Memory_Entry cycle type size' cause address val) a = address"
| "entry_address (Register_Entry cycle type i mode val) a = a"

definition site_text :: "site \<Rightarrow> string" where
  "site_text s = fst s @ '', '' @ format_d (word_of_int (snd s)) @ '': ''"

text \<open>The location that is printed: the innermost one, if positions are traced.\<close>

definition here :: "trace_data \<Rightarrow> string" where
  "here t = (if trace_flags t AND POSITION \<noteq> 0 \<and> location_stack_top t \<ge> 0
     then site_text (location_file_stack t ! nat (location_stack_top t), location_line_stack t ! nat (location_stack_top t))
     else [])"

definition written :: "entry \<Rightarrow> trace_data \<Rightarrow> trace_data" where
  "written en t =
     (if wanted t en then fprint (here t @ entry_line en) (t\<lparr>last_address := entry_address en (last_address t)\<rparr>)
      else t)"

definition pushed :: "site \<Rightarrow> trace_data \<Rightarrow> trace_data" where
  "pushed s t =
     (if enabled t
      then t\<lparr>location_stack_top := location_stack_top t + 1,
             location_file_stack := (location_file_stack t)[nat (location_stack_top t + 1) := fst s],
             location_line_stack := (location_line_stack t)[nat (location_stack_top t + 1) := snd s]\<rparr>
      else t)"

definition logged :: "bool \<Rightarrow> site \<Rightarrow> entry \<Rightarrow> trace_data \<Rightarrow> trace_data" where
  "logged e s en t =
     (if e then written en (trace_end_location (pushed s t)) else trace_end_location (written en (pushed s t)))"

text \<open>There is room for \<open>k\<close> more locations.\<close>

definition room :: "int \<Rightarrow> trace_data \<Rightarrow> bool" where
  "room k t \<longleftrightarrow> length (location_file_stack t) = 128 \<and> length (location_line_stack t) = 128
     \<and> -1 \<le> location_stack_top t \<and> location_stack_top t + k < 128"

lemma room_initial: "room 1 trace_initial"
  by (simp add: room_def trace_initial_def)

lemma trace_print_location_eq:
  "room 0 t \<Longrightarrow> enabled t \<Longrightarrow> trace_print_location t = Inr (fprint (here t) t)"
  by (auto simp: trace_print_location_def here_def site_text_def room_def fprint_def)

lemma trace_memory_eq:
  assumes "room 0 t" "type < 2" "cause < 2"
  shows "trace_memory cycle type size' cause address val t =
    Inr (written (Memory_Entry cycle type size' cause address val) t)"
proof -
  let ?t = "t\<lparr>last_address := address\<rparr>"
  have r: "room 0 ?t" "here ?t = here t" using assms(1) by (simp_all add: room_def here_def)
  show ?thesis
    using assms trace_print_location_eq [OF r(1)] r(2)
    by (auto simp: trace_memory_def Let_def written_def fprint_fprint trace_memory_seq_def trace_memory_type_def
        trace_memory_cause_def)
qed

lemma trace_register_eq:
  assumes "room 0 t" "type < 2" "i < 18"
  shows "trace_register cycle type i mode val t =
    (if wanted t (Register_Entry cycle type i mode val) \<and> mode \<ge> 32 then Inl Out_Of_Bounds
     else Inr (written (Register_Entry cycle type i mode val) t))"
  using assms trace_print_location_eq [OF assms(1)]
  by (auto simp: trace_register_def Let_def written_def fprint_fprint arm_get_mode_name_def
      arm_get_register_name_def arm_register_names_def trace_register_type_def)

lemma written_fields [simp]:
  "enabled (written en t) = enabled t" "trace_flags (written en t) = trace_flags t"
  "location_stack_top (written en t) = location_stack_top t" "room k (written en t) = room k t"
  "wanted (written en t) = wanted t" "states (written en t) = states t"
  "location_file_stack (written en t) = location_file_stack t"
  "location_line_stack (written en t) = location_line_stack t"
proof -
  show "wanted (written en t) = wanted t"
  proof
    show "wanted (written en t) x = wanted t x" for x by (cases x) (simp_all add: written_def fprint_def)
  qed
qed (simp_all add: written_def fprint_def room_def)

lemma pushed_fields [simp]:
  "enabled (pushed s t) = enabled t" "trace_flags (pushed s t) = trace_flags t"
  "trace_output (pushed s t) = trace_output t" "states (pushed s t) = states t"
  "trace_end_location (pushed s t) = (if enabled t then (pushed s t)\<lparr>location_stack_top := location_stack_top t\<rparr> else t)"
  by (simp_all add: pushed_def trace_end_location_def)

lemma trace_start_location_eq: "room 1 t \<Longrightarrow> trace_start_location file line t = Inr (pushed (file, line) t)"
  by (auto simp: trace_start_location_def pushed_def room_def Let_def)

lemma room_pushed: "room 1 t \<Longrightarrow> room 0 (pushed s t)" "room 1 t \<Longrightarrow> room 0 (trace_end_location (pushed s t))"
  by (auto simp: room_def pushed_def trace_end_location_def)

lemma here_pushed: "room 1 t \<Longrightarrow> enabled t \<Longrightarrow>
    here (pushed s t) = (if trace_flags t AND POSITION \<noteq> 0 then site_text s else [])"
  by (auto simp: here_def pushed_def room_def)

lemma here_popped: "room 1 t \<Longrightarrow> here (trace_end_location (pushed s t)) = here t"
  by (auto simp: here_def pushed_def room_def trace_end_location_def)

text \<open>What an access at a place leaves: the stack as it was, and a line of text if it is traced.\<close>

lemma logged_fields:
  assumes "room 1 t"
  shows "enabled (logged e s en t) = enabled t" "trace_flags (logged e s en t) = trace_flags t"
    "location_stack_top (logged e s en t) = location_stack_top t" "room 1 (logged e s en t)"
    "states (logged e s en t) = states t"
    "trace_output (logged e s en t) = trace_output t @
      (if wanted t en then (if e then here t else if trace_flags t AND POSITION \<noteq> 0 then site_text s else [])
         @ entry_line en else [])"
proof -
  have w: "wanted (pushed s t) en = wanted t en" "wanted (trace_end_location (pushed s t)) en = wanted t en"
    "wanted t en \<Longrightarrow> enabled t"
    by (cases en; simp)+
  show "trace_output (logged e s en t) = trace_output t @
      (if wanted t en then (if e then here t else if trace_flags t AND POSITION \<noteq> 0 then site_text s else [])
         @ entry_line en else [])"
    using w here_pushed [OF assms] here_popped [OF assms, of s]
    by (auto simp: logged_def written_def fprint_def trace_end_location_def)
  show "room 1 (logged e s en t)"
    using assms by (auto simp: logged_def room_def trace_end_location_def pushed_def)
qed (auto simp: logged_def trace_end_location_def pushed_def)

lemma wanted_logged: "room 1 t \<Longrightarrow> wanted (logged e s en t) x = wanted t x"
  using logged_fields [of t e s en] by (cases x) simp_all

lemma here_logged: "room 1 t \<Longrightarrow> here (logged e s en t) = here t"
  by (auto simp: here_def logged_fields)
    (auto simp: logged_def pushed_def trace_end_location_def room_def)

text \<open>The macros around a call that writes its entry and does nothing else to the trace.\<close>

lemma located_sum_eq:
  assumes "room 1 t"
    "\<And>t'. room 0 t' \<Longrightarrow> wanted t' = wanted t \<Longrightarrow>
      call (p, t') = bindR m (\<lambda>(v, p'). Inr (v, p', written (en v p') t'))"
  shows "located_sum e s call (p, t) = bindR m (\<lambda>(v, p'). Inr (v, p', logged e s (en v p') t))"
proof -
  have w: "wanted (pushed s t) = wanted t" "wanted (trace_end_location (pushed s t)) = wanted t"
    by (rule ext; case_tac x; simp)+
  note c = assms(2) [OF room_pushed(1) [OF assms(1)] w(1)] assms(2) [OF room_pushed(2) [OF assms(1)] w(2)]
  show ?thesis
    using assms(1) c
    by (cases m) (simp_all add: located_sum_def trace_start_location_eq logged_def split: prod.splits)
qed

lemma located_comma_eq:
  assumes "room 1 t"
    "\<And>t'. room 0 t' \<Longrightarrow> wanted t' = wanted t \<Longrightarrow>
      call (p, t') = bindR m (\<lambda>p'. Inr (p', written (en p') t'))"
  shows "located_comma s call (p, t) = bindR m (\<lambda>p'. Inr (p', logged False s (en p') t))"
proof -
  have w: "wanted (pushed s t) = wanted t" by (rule ext; case_tac x; simp)
  show ?thesis
    using assms(1) assms(2) [OF room_pushed(1) [OF assms(1)] w]
    by (cases m) (simp_all add: located_comma_def trace_start_location_eq logged_def)
qed

section \<open>The entry of an access\<close>

fun entry_of :: "access \<Rightarrow> sim \<Rightarrow> answer \<Rightarrow> sim \<Rightarrow> entry" where
  "entry_of (Read_Register i) p x p' =
     Register_Entry (cycle_count p) READ i (cur_mode p) (case x of Value v \<Rightarrow> v | _ \<Rightarrow> 0)"
| "entry_of (Read_Usr_Register i) p x p' =
     Register_Entry (cycle_count p) READ i USR (case x of Value v \<Rightarrow> v | _ \<Rightarrow> 0)"
| "entry_of Read_Cpsr p x p' = Register_Entry (cycle_count p) READ CPSR 0 (arm_read_cpsr p)"
| "entry_of Read_Spsr p x p' =
     Register_Entry (cycle_count p) READ SPSR (cur_mode p) (case x of Value v \<Rightarrow> v | _ \<Rightarrow> 0)"
| "entry_of (Write_Register i v) p x p' = Register_Entry (cycle_count p) WRITE i (cur_mode p) v"
| "entry_of (Write_Usr_Register i v) p x p' = Register_Entry (cycle_count p) WRITE i USR v"
| "entry_of (Write_Cpsr v) p x p' = Register_Entry (cycle_count p) WRITE CPSR 0 v"
| "entry_of (Write_Spsr v) p x p' = Register_Entry (cycle_count p) WRITE SPSR (cur_mode p') v"
| "entry_of (Read_Byte old a) p x p' = Memory_Entry (cycle_count p) READ 1 OTHER_ACCESS a
     (case x of Loaded (Some v) \<Rightarrow> v | _ \<Rightarrow> ucast old)"
| "entry_of (Read_Half old a) p x p' = Memory_Entry (cycle_count p) READ 2 OTHER_ACCESS a
     (case x of Loaded (Some v) \<Rightarrow> v | _ \<Rightarrow> ucast old)"
| "entry_of (Read_Word old a) p x p' = Memory_Entry (cycle_count p) READ 4 OTHER_ACCESS a
     (case x of Loaded (Some v) \<Rightarrow> v | _ \<Rightarrow> old)"
| "entry_of (Fetch old) p x p' = Memory_Entry (cycle_count p') READ 4 OPCODE_FETCH
     (case raw p PC (cur_mode p) of Inl e \<Rightarrow> 0 | Inr a \<Rightarrow> a) (case x of Loaded (Some v) \<Rightarrow> v | _ \<Rightarrow> old)"
| "entry_of (Write_Byte a v) p x p' = Memory_Entry (cycle_count p) WRITE 1 OTHER_ACCESS a (ucast v)"
| "entry_of (Write_Half a v) p x p' = Memory_Entry (cycle_count p) WRITE 2 OTHER_ACCESS a (ucast v)"
| "entry_of (Write_Word a v) p x p' = Memory_Entry (cycle_count p) WRITE 4 OTHER_ACCESS a v"

text \<open>Which accesses have a macro with a sum.\<close>

fun sums :: "access \<Rightarrow> bool" where
  "sums (Write_Register i v) = False"
| "sums (Write_Usr_Register i v) = False"
| "sums (Write_Cpsr v) = False"
| "sums (Write_Spsr v) = False"
| "sums a = True"

definition tracing_registers :: "trace_data \<Rightarrow> bool" where
  "tracing_registers t \<longleftrightarrow> enabled t \<and> trace_flags t AND REGISTERS \<noteq> 0"

lemma trace_register_ok:
  assumes "room 0 t'" "wanted t' = wanted t" "tracing_registers t \<longrightarrow> mode < 32" "type < 2" "i < 18"
  shows "trace_register cycle type i mode val t' = Inr (written (Register_Entry cycle type i mode val) t')"
proof -
  have "wanted t' (Register_Entry cycle type i mode val) = tracing_registers t"
    using assms(2) by (simp add: tracing_registers_def)
  then show ?thesis using trace_register_eq [OF assms(1,4,5)] assms(3) by auto
qed

lemma register_exists:
  assumes "wf_registers r"
  shows "registers_read h r i mode = Inr v \<Longrightarrow> i < 18" "registers_write h r i mode v = Inr r' \<Longrightarrow> i < 18"
  using assms cell_in_range [of i mode]
  by (auto simp: registers_read_cell registers_write_cell bindR_eq_Inr)

lemma modes_low: "USR < 32" "(0 :: nat) < 32" by simp_all

lemma traced_register_read_eq:
  assumes "wf_registers (reg p)" "tracing_registers t \<longrightarrow> mode < 32" "room 0 t'" "wanted t' = wanted t"
  shows "traced_read_register_internal i mode (p, t') =
    bindR (arm_read_register_internal i mode p) (\<lambda>v.
      Inr (v, p, written (Register_Entry (cycle_count p) READ i mode v) t'))"
proof (cases "arm_read_register_internal i mode p")
  case (Inr v)
  then have "i < 18"
    using register_exists(1) [OF assms(1)] by (auto simp: arm_read_register_internal_def bindR_eq_Inr)
  with Inr show ?thesis
    using trace_register_ok [OF assms(3,4,2)] by (simp add: traced_read_register_internal_def)
qed (simp add: traced_read_register_internal_def)

lemma traced_register_write_eq:
  assumes "wf_registers (reg p)" "tracing_registers t \<longrightarrow> mode < 32" "room 0 t'" "wanted t' = wanted t"
  shows "traced_write_register_internal i mode v (p, t') =
    bindR (arm_write_register_internal i mode v p) (\<lambda>p'.
      Inr (p', written (Register_Entry (cycle_count p) WRITE i mode v) t'))"
proof (cases "arm_write_register_internal i mode v p")
  case (Inr p')
  then have "i < 18" "cycle_count p' = cycle_count p"
    using register_exists(2) [OF assms(1)] by (auto simp: arm_write_register_internal_def bindR_eq_Inr)
  with Inr show ?thesis
    using trace_register_ok [OF assms(3,4,2)] by (simp add: traced_write_register_internal_def)
qed (simp add: traced_write_register_internal_def)

lemma write_spsr_mode:
  assumes "wf_registers (reg p)" "arm_write_spsr v p = Inr p'"
  shows "cur_mode p' = cur_mode p" "cycle_count p' = cycle_count p"
proof -
  obtain r' where r: "registers_write_spsr (sim_host p) (reg p) (cur_mode p) v = Inr r'" "p' = p\<lparr>reg := r'\<rparr>"
    using assms(2) by (auto simp: arm_write_spsr_def bindR_eq_Inr registers_get_mode_cur)
  have "registers_read_cpsr r' = registers_read_cpsr (reg p)"
    using r(1) read_cpsr_write [OF assms(1)]
    by (auto simp: registers_write_spsr_def split: if_splits)
  then show "cur_mode p' = cur_mode p" "cycle_count p' = cycle_count p"
    using r(2) by (simp_all add: cur_mode_def arm_read_cpsr_def)
qed

lemma answers_sum:
  assumes "room 1 t" "sums a" "perform a p = bindR m (\<lambda>(v, p'). Inr (f v, p'))"
    "\<And>t'. room 0 t' \<Longrightarrow> wanted t' = wanted t \<Longrightarrow>
      call (p, t') = bindR m (\<lambda>(v, p'). Inr (v, p', written (entry_of a p (f v) p') t'))"
  shows "answers f (located_sum e s call (p, t)) =
    bindR (perform a p) (\<lambda>(x, p'). Inr (x, p', logged (e \<and> sums a) s (entry_of a p x p') t))"
proof -
  have "located_sum e s call (p, t) = bindR m (\<lambda>(v, p'). Inr (v, p', logged e s (entry_of a p (f v) p') t))"
    by (rule located_sum_eq [OF assms(1,4)])
  then show ?thesis using assms(2,3) by (cases m) (auto simp: answers_def)
qed

lemma finished_comma:
  assumes "room 1 t" "\<not> sums a" "perform a p = bindR m (\<lambda>p'. Inr (Done, p'))"
    "\<And>t'. room 0 t' \<Longrightarrow> wanted t' = wanted t \<Longrightarrow>
      call (p, t') = bindR m (\<lambda>p'. Inr (p', written (entry_of a p Done p') t'))"
  shows "finished (located_comma s call (p, t)) =
    bindR (perform a p) (\<lambda>(x, p'). Inr (x, p', logged (e \<and> sums a) s (entry_of a p x p') t))"
proof -
  have "located_comma s call (p, t) = bindR m (\<lambda>p'. Inr (p', logged False s (entry_of a p Done p') t))"
    by (rule located_comma_eq [OF assms(1,4)])
  then show ?thesis using assms(2,3) by (cases m) (auto simp: finished_def)
qed

lemma bindR_pair: "bindR (bindR m (\<lambda>v. Inr (v, p))) f = bindR m (\<lambda>v. f (v, p))"
  by (simp add: bindR_assoc)

lemma perform_traced_registers:
  assumes "room 1 t" "wf_registers (reg p)" "tracing_registers t \<longrightarrow> cur_mode p < 32"
    "a \<in> {Read_Register i, Read_Usr_Register i, Read_Cpsr, Read_Spsr, Write_Register i v,
      Write_Usr_Register i v, Write_Cpsr v, Write_Spsr v}"
  shows "perform_traced e s a (p, t) =
    bindR (perform a p) (\<lambda>(x, p'). Inr (x, p', logged (e \<and> sums a) s (entry_of a p x p') t))"
proof -
  note rd = traced_register_read_eq [OF assms(2)] and wr = traced_register_write_eq [OF assms(2)]
  note cur = registers_get_mode_cur
  have low: "tracing_registers t \<longrightarrow> USR < 32" "tracing_registers t \<longrightarrow> (0 :: nat) < 32" by simp_all
  consider "a = Read_Register i" | "a = Read_Usr_Register i" | "a = Read_Cpsr" | "a = Read_Spsr"
    | "a = Write_Register i v" | "a = Write_Usr_Register i v" | "a = Write_Cpsr v" | "a = Write_Spsr v"
    using assms(4) by blast
  then show ?thesis
  proof cases
    case 1
    show ?thesis unfolding 1 perform_traced.simps(1)
      by (rule answers_sum [OF assms(1), where m = "bindR (arm_read_register i p) (\<lambda>v. Inr (v, p))"])
        (simp_all add: bindR_pair rd [OF assms(3)] traced_read_register_def arm_read_register_def cur)
  next
    case 2
    show ?thesis unfolding 2 perform_traced.simps(2)
      by (rule answers_sum [OF assms(1), where m = "bindR (arm_read_usr_register i p) (\<lambda>v. Inr (v, p))"])
        (simp_all add: bindR_pair rd [OF low(1)] traced_read_usr_register_def arm_read_usr_register_def)
  next
    case 3
    show ?thesis unfolding 3 perform_traced.simps(3)
      by (rule answers_sum [OF assms(1), where m = "Inr (arm_read_cpsr p, p)"])
        (simp_all add: traced_read_cpsr_def Let_def trace_register_ok [OF _ _ low(2)])
  next
    case 4
    show ?thesis unfolding 4 perform_traced.simps(4)
      by (rule answers_sum [OF assms(1), where m = "bindR (arm_read_spsr p) (\<lambda>v. Inr (v, p))"])
        (simp_all add: bindR_pair traced_read_spsr_def cur trace_register_ok [OF _ _ assms(3)])
  next
    case 5
    show ?thesis unfolding 5 perform_traced.simps(5)
      by (rule finished_comma [OF assms(1), where m = "arm_write_register i v p"])
        (simp_all add: traced_write_register_def arm_write_register_def wr [OF assms(3)] cur)
  next
    case 6
    show ?thesis unfolding 6 perform_traced.simps(6)
      by (rule finished_comma [OF assms(1), where m = "arm_write_usr_register i v p"])
        (simp_all add: traced_write_usr_register_def arm_write_usr_register_def wr [OF low(1)])
  next
    case 7
    have "cycle_count (arm_write_cpsr v p) = cycle_count p" by (simp add: arm_write_cpsr_def)
    then show ?thesis unfolding 7 perform_traced.simps(7)
      by (intro finished_comma [OF assms(1), where m = "Inr (arm_write_cpsr v p)"])
        (simp_all add: traced_write_cpsr_def Let_def trace_register_ok [OF _ _ low(2)])
  next
    case 8
    show ?thesis unfolding 8 perform_traced.simps(8)
    proof (rule finished_comma [OF assms(1), where m = "arm_write_spsr v p"])
      fix t' assume t': "room 0 t'" "wanted t' = wanted t"
      show "traced_write_spsr v (p, t') = bindR (arm_write_spsr v p) (\<lambda>p'.
          Inr (p', written (entry_of (Write_Spsr v) p Done p') t'))"
      proof (cases "arm_write_spsr v p")
        case (Inr p')
        note k = write_spsr_mode [OF assms(2) Inr]
        have "trace_register (cycle_count p) WRITE SPSR (cur_mode p) v t' =
            Inr (written (Register_Entry (cycle_count p) WRITE SPSR (cur_mode p) v) t')"
          using trace_register_ok [OF t' assms(3)] by simp
        then show ?thesis using Inr k by (simp add: traced_write_spsr_def cur)
      qed (simp add: traced_write_spsr_def)
    qed simp_all
  qed
qed

lemma cycle_kept:
  "arm_write_byte a b p = Inr (r, p') \<Longrightarrow> cycle_count p' = cycle_count p"
  "arm_write_half a c p = Inr (r, p') \<Longrightarrow> cycle_count p' = cycle_count p"
  "arm_write_word a d p = Inr (r, p') \<Longrightarrow> cycle_count p' = cycle_count p"
  by (auto simp: arm_write_byte_def arm_write_half_def arm_write_word_def bindR_eq_Inr)

lemma perform_traced_memory:
  assumes "room 1 t" "a \<in> {Read_Byte b ad, Read_Half c ad, Read_Word d ad, Fetch d, Write_Byte ad b,
      Write_Half ad c, Write_Word ad d}"
  shows "perform_traced e s a (p, t) =
    bindR (perform a p) (\<lambda>(x, p'). Inr (x, p', logged (e \<and> sums a) s (entry_of a p x p') t))"
proof -
  note cur = registers_get_mode_cur
  consider "a = Read_Byte b ad" | "a = Read_Half c ad" | "a = Read_Word d ad" | "a = Fetch d"
    | "a = Write_Byte ad b" | "a = Write_Half ad c" | "a = Write_Word ad d" using assms(2) by blast
  then show ?thesis
  proof cases
    case 1
    have o: "ucast (case r of None \<Rightarrow> b | Some v \<Rightarrow> v) = (case widen r of None \<Rightarrow> ucast b | Some v \<Rightarrow> v)" for r
      by (cases r) simp_all
    show ?thesis unfolding 1 perform_traced.simps
      by (rule answers_sum [OF assms(1), where m = "bindR (arm_read_byte ad p) (\<lambda>v. Inr (v, p))"])
        (simp_all add: bindR_pair traced_read_byte_def trace_memory_eq o)
  next
    case 2
    have o: "ucast (case r of None \<Rightarrow> c | Some v \<Rightarrow> v) = (case widen r of None \<Rightarrow> ucast c | Some v \<Rightarrow> v)" for r
      by (cases r) simp_all
    show ?thesis unfolding 2 perform_traced.simps
      by (rule answers_sum [OF assms(1), where m = "bindR (arm_read_half ad p) (\<lambda>v. Inr (v, p))"])
        (simp_all add: bindR_pair traced_read_half_def trace_memory_eq o)
  next
    case 3
    show ?thesis unfolding 3 perform_traced.simps
      by (rule answers_sum [OF assms(1), where m = "bindR (arm_read_word ad p) (\<lambda>v. Inr (v, p))"])
        (simp_all add: bindR_pair traced_read_word_def trace_memory_eq)
  next
    case 4
    show ?thesis unfolding 4 perform_traced.simps
    proof (rule answers_sum [OF assms(1), where m = "arm_fetch p"])
      fix t' assume t': "room 0 t'"
      have f: "arm_fetch p = Inl e" if "raw p PC (cur_mode p) = Inl e" for e
        using that by (simp add: arm_fetch_def raw_def cur)
      show "traced_fetch d (p, t') = bindR (arm_fetch p) (\<lambda>(v, p').
          Inr (v, p', written (entry_of (Fetch d) p (Loaded v) p') t'))"
        using f trace_memory_eq [OF t'] unfolding traced_fetch_def cur raw_def [symmetric]
        by (cases "raw p PC (cur_mode p)"; cases "arm_fetch p") auto
    qed (simp_all add: case_prod_beta)
  next
    case 5
    show ?thesis unfolding 5 perform_traced.simps
      by (rule answers_sum [OF assms(1), where m = "arm_write_byte ad b p"])
        (simp_all, cases "arm_write_byte ad b p", auto simp: traced_write_byte_def trace_memory_eq cycle_kept(1))
  next
    case 6
    show ?thesis unfolding 6 perform_traced.simps
      by (rule answers_sum [OF assms(1), where m = "arm_write_half ad c p"])
        (simp_all, cases "arm_write_half ad c p", auto simp: traced_write_half_def trace_memory_eq cycle_kept(2))
  next
    case 7
    show ?thesis unfolding 7 perform_traced.simps
      by (rule answers_sum [OF assms(1), where m = "arm_write_word ad d p"])
        (simp_all, cases "arm_write_word ad d p", auto simp: traced_write_word_def trace_memory_eq cycle_kept(3))
  qed
qed

lemma perform_traced_eq:
  assumes "room 1 t" "wf_registers (reg p)" "tracing_registers t \<longrightarrow> cur_mode p < 32"
  shows "perform_traced e s a (p, t) =
    bindR (perform a p) (\<lambda>(x, p'). Inr (x, p', logged (e \<and> sums a) s (entry_of a p x p') t))"
  by (cases a; ((rule perform_traced_registers [OF assms], blast) | (rule perform_traced_memory [OF assms(1)], blast)))

section \<open>Tracing only observes\<close>

lemma perform_wf:
  assumes "wf_registers (reg p)" "perform a p = Inr (x, p')"
  shows "wf_registers (reg p')"
proof -
  have w: "wf_registers r" if "registers_write h (reg p) i mode v = Inr r" for h i mode v r
    using wf_registers_write [OF assms(1) that] .
  show ?thesis
    using assms
    by (cases a) (auto simp: bindR_eq_Inr arm_write_register_def arm_write_register_internal_def
        arm_write_usr_register_def arm_write_cpsr_def arm_write_spsr_def registers_write_spsr_def arm_fetch_def Let_def
        arm_write_byte_def arm_write_half_def arm_write_word_def split: if_splits dest: w)
qed

text \<open>The entries of a run, with the place of each access and whether its macro has a sum.\<close>

primrec entries :: "'a code \<Rightarrow> sim \<Rightarrow> (site \<times> bool \<times> entry) list" where
  "entries (Return r) = (\<lambda>p. [])"
| "entries (Access s a k) = (\<lambda>p.
     case perform a p of
       Inl f \<Rightarrow> []
     | Inr (x, p') \<Rightarrow> (s, sums a, entry_of a p x p') # entries (k x) p')"
| "entries (Quiet q k) = (\<lambda>p. case do_quiet q p of (x, p') \<Rightarrow> entries (k x) p')"

fun entry_text :: "bool \<Rightarrow> trace_data \<Rightarrow> site \<times> bool \<times> entry \<Rightarrow> string" where
  "entry_text e t (s, added, en) =
     (if wanted t en
      then (if e \<and> added then here t else if trace_flags t AND POSITION \<noteq> 0 then site_text s else []) @ entry_line en
      else [])"

text \<open>The condition holds before every access of a run.\<close>

primrec within :: "(sim \<Rightarrow> bool) \<Rightarrow> 'a code \<Rightarrow> sim \<Rightarrow> bool" where
  "within P (Return r) = (\<lambda>p. True)"
| "within P (Access s a k) = (\<lambda>p.
     P p \<and> (case perform a p of Inl f \<Rightarrow> True | Inr (x, p') \<Rightarrow> within P (k x) p'))"
| "within P (Quiet q k) = (\<lambda>p. case do_quiet q p of (x, p') \<Rightarrow> within P (k x) p')"

lemma do_quiet_reg [simp]: "reg (snd (do_quiet q p)) = reg p"
  by (cases q) (simp_all add: case_prod_beta)

lemma run_traced_eq:
  assumes "room 1 t" "wf_registers (reg p)" "tracing_registers t \<longrightarrow> within (\<lambda>p. cur_mode p < 32) c p"
  shows "\<exists>t'. run_traced e c (p, t) = bindR (run c p) (\<lambda>(v, p'). Inr (v, p', t'))
    \<and> location_stack_top t' = location_stack_top t
    \<and> trace_output t' = trace_output t @ concat (map (entry_text e t) (entries c p))"
  using assms
proof (induction c arbitrary: p t)
  case (Return r)
  then show ?case by (intro exI [of _ t]) (cases r; simp)
next
  case (Access s a k)
  have eq: "perform_traced e s a (p, t) =
      bindR (perform a p) (\<lambda>(x, p'). Inr (x, p', logged (e \<and> sums a) s (entry_of a p x p') t))"
    using perform_traced_eq [OF Access.prems(1,2)] Access.prems(3) by simp
  show ?case
  proof (cases "perform a p")
    case (Inl f)
    then show ?thesis using eq by (intro exI [of _ t]) simp
  next
    case (Inr r)
    obtain x p' where r: "r = (x, p')" by fastforce
    let ?t = "logged (e \<and> sums a) s (entry_of a p x p') t"
    note f = logged_fields [OF Access.prems(1), of "e \<and> sums a" s "entry_of a p x p'"]
    have w: "wanted ?t = wanted t" using wanted_logged [OF Access.prems(1)] by blast
    have h: "here ?t = here t" by (rule here_logged [OF Access.prems(1)])
    have same: "entry_text e ?t = entry_text e t"
    proof
      fix z show "entry_text e ?t z = entry_text e t z" by (cases z) (simp only: entry_text.simps w h f(2))
    qed
    have "tracing_registers ?t \<longrightarrow> within (\<lambda>p. cur_mode p < 32) (k x) p'"
      using Access.prems(3) Inr r f(1,2) by (simp add: tracing_registers_def)
    from Access.IH [OF rangeI f(4) perform_wf [OF Access.prems(2) Inr [unfolded r]] this]
    obtain t' where t': "run_traced e (k x) (p', ?t) = bindR (run (k x) p') (\<lambda>(v, p'). Inr (v, p', t'))"
      "location_stack_top t' = location_stack_top ?t"
      "trace_output t' = trace_output ?t @ concat (map (entry_text e ?t) (entries (k x) p'))" by blast
    then show ?thesis
      using eq Inr r f(3,6) same by (intro exI [of _ t']) simp
  qed
next
  case (Quiet q k)
  obtain x p' where q: "do_quiet q p = (x, p')" by fastforce
  then have "wf_registers (reg p')" using Quiet.prems(2) do_quiet_reg [of q p] by simp
  then show ?case using Quiet.IH [OF rangeI Quiet.prems(1), of p' x] Quiet.prems(3) q by simp
qed

text \<open>C22: Tracing only observes: whatever options of the trace are on, code that uses the processor through its
  accesses gives the same result, leaves the same processor and faults in the same way with the trace
  as without it, the stack of locations is balanced, and what is written are the lines of the accesses
  in their order, each with its own place if positions are traced and the compiler evaluates the call
  before \<^verbatim>\<open>END_LOCATION\<close>, and with the enclosing place if it does not. Tracing registers asks for a mode
  that has an entry in the table of names, that is, not with the T bit set.\<close>

theorem tracing_observes:
  assumes "room 1 t" "wf_sim p" "tracing_registers t \<longrightarrow> within (\<lambda>p. cur_mode p < 32) c p"
  shows "\<exists>t'. run_traced e c (p, t) = bindR (run c p) (\<lambda>(v, p'). Inr (v, p', t'))
    \<and> location_stack_top t' = location_stack_top t
    \<and> trace_output t' = trace_output t @ concat (map (entry_text e t) (entries c p))"
  using run_traced_eq [OF assms(1) _ assms(3)] assms(2) by (simp add: wf_sim_def)

text \<open>Beyond the table of names the trace of a register leaves it.\<close>

lemma register_trace_beyond_modes:
  assumes "room 1 t" "wf_sim p" "tracing_registers t" "32 \<le> cur_mode p" "arm_read_register i p = Inr v"
  shows "perform_traced False s (Read_Register i) (p, t) = Inl Out_Of_Bounds"
proof -
  have i: "i < 18"
    using register_exists(1) assms(2,5)
    by (auto simp: arm_read_register_def arm_read_register_internal_def bindR_eq_Inr wf_sim_def)
  have "wanted (pushed s t) (Register_Entry (cycle_count p) READ i (cur_mode p) v)"
    using assms(3) by (simp add: tracing_registers_def)
  then have "trace_register (cycle_count p) READ i (cur_mode p) v (pushed s t) = Inl Out_Of_Bounds"
    using trace_register_eq [OF room_pushed(1) [OF assms(1)] _ i, of READ] assms(4) by simp
  then show ?thesis
    using assms(1,5)
    by (simp add: located_sum_def trace_start_location_eq traced_read_register_def answers_def
        traced_read_register_internal_def registers_get_mode_cur arm_read_register_def)
qed

section \<open>The entry of an interrupt as its accesses\<close>

definition with_value :: "(u32 \<Rightarrow> 'a code) \<Rightarrow> answer \<Rightarrow> 'a code" where
  "with_value k x = (case x of Value v \<Rightarrow> k v | _ \<Rightarrow> Return (Inl Uninitialised))"

definition irq_code :: "int code" where
  "irq_code =
     (let at = \<lambda>line. (''arm_exception.c'', line) in
      Access (at 103) Read_Cpsr (with_value (\<lambda>cpsr.
      if get_bit cpsr 7 = 0 then
        Access (at 107) (Read_Register SP) (with_value (\<lambda>sp_adr.
        Access (at 108) (Read_Register PC) (with_value (\<lambda>R14_irq.
        Access (at 113) (Write_Cpsr (set_bit_c (clr_bit (set_bits cpsr 4 0 (of_nat IRQ)) 5) 7)) (\<lambda>_.
        Access (at 114) (Write_Spsr cpsr) (\<lambda>_.
        Access (at 115) (Write_Register PC (IRQ_vector_ADR - 4)) (\<lambda>_.
        Access (at 116) (Write_Register LR R14_irq) (\<lambda>_.
        Access (at 117) (Write_Register SP sp_adr) (\<lambda>_.
        Return (Inr (int INTERRUPT)))))))))))
      else Return (Inr 1))))"

lemma irq_code_run: "run irq_code p = arm_exception INTERRUPT p"
  by (simp add: irq_code_def arm_exception_def enter_irq_def Let_def with_value_def bindR_assoc)

fun stays_low :: "access \<Rightarrow> bool" where
  "stays_low (Write_Cpsr v) = (mode_of v < 32)"
| "stays_low (Write_Register i v) = (i < 16)"
| "stays_low (Write_Usr_Register i v) = (i < 16)"
| "stays_low a = True"

lemma perform_mode:
  assumes "wf_registers (reg p)" "cur_mode p < 32" "stays_low a" "perform a p = Inr (x, p')"
  shows "cur_mode p' < 32"
proof -
  have w: "registers_read_cpsr r = registers_read_cpsr (reg p)"
    if "registers_write h (reg p) i mode v = Inr r" "i \<noteq> CPSR" for h i mode v r
    using read_cpsr_write [OF assms(1) that] .
  have same: "registers_read_cpsr (reg p') = registers_read_cpsr (reg p) \<Longrightarrow> ?thesis"
    using assms(2) by (simp add: cur_mode_def arm_read_cpsr_def)
  show ?thesis
  proof (cases a)
    case (Write_Spsr v)
    then show ?thesis using assms(2,4) write_spsr_mode(1) [OF assms(1), of v p'] by (auto simp: bindR_eq_Inr)
  next
    case (Write_Cpsr v)
    then show ?thesis
      using assms(1,3,4) by (auto simp: cur_mode_def arm_read_cpsr_def arm_write_cpsr_def read_cpsr_write_cpsr)
  next
    case (Fetch old)
    show ?thesis using assms(4) unfolding Fetch
      by (intro same) (auto simp: bindR_eq_Inr arm_fetch_def Let_def dest!: w)
  next
    case (Write_Register i v)
    show ?thesis using assms(3,4) unfolding Write_Register
      by (intro same) (auto simp: bindR_eq_Inr arm_write_register_def arm_write_register_internal_def dest!: w)
  next
    case (Write_Usr_Register i v)
    show ?thesis using assms(3,4) unfolding Write_Usr_Register
      by (intro same) (auto simp: bindR_eq_Inr arm_write_usr_register_def arm_write_register_internal_def dest!: w)
  qed (use assms(4) in \<open>intro same; auto simp: bindR_eq_Inr arm_write_byte_def arm_write_half_def arm_write_word_def\<close>)+
qed

lemma within_low:
  assumes "wf_registers (reg p) \<and> cur_mode p < 32" "stays_low a"
    "\<And>x p'. wf_registers (reg p') \<and> cur_mode p' < 32 \<Longrightarrow> within (\<lambda>p. cur_mode p < 32) (k x) p'"
  shows "within (\<lambda>p. cur_mode p < 32) (Access s a k) p"
proof -
  have "within (\<lambda>p. cur_mode p < 32) (k x) p'" if "perform a p = Inr (x, p')" for x p'
    using assms perform_wf [OF _ that] perform_mode [OF _ _ assms(2) that] by blast
  then show ?thesis using assms(1) by (auto split: sum.split)
qed

lemma within_value:
  assumes "\<And>v. within P (k v) p"
  shows "within P (with_value k x) p"
  using assms by (cases x) (simp_all add: with_value_def)

lemma irq_code_low: "wf_registers (reg p) \<and> cur_mode p < 32 \<Longrightarrow> within (\<lambda>p. cur_mode p < 32) irq_code p"
  unfolding irq_code_def Let_def
  by (rule within_low; simp?; (intro within_value)?; (simp split: if_split del: within.simps(2))?)
    (auto intro!: within_low within_value simp del: within.simps(2))

theorem tracing_observes_witness:
  "\<exists>t' p'. run_traced False irq_code (demo_sim [], trace_add POSITION (trace_add REGISTERS trace_initial))
      = Inr (int INTERRUPT, p', t')
    \<and> arm_exception INTERRUPT (demo_sim []) = Inr (int INTERRUPT, p') \<and> location_stack_top t' = -1"
proof -
  have r: "raw (demo_sim []) i SVC = Inr 0" if i: "i \<in> {SP, PC}" for i
  proof -
    obtain k where "cell i SVC = Inr k" using cell_low [of i SVC] i by auto
    then show ?thesis using i by (intro raw_demo_sim) auto
  qed
  let ?t = "trace_add POSITION (trace_add REGISTERS trace_initial)"
  have t: "room 1 ?t" "location_stack_top ?t = -1" by (simp_all add: room_def trace_add_def trace_initial_def)
  have w: "wf_sim (demo_sim [])" "cur_mode (demo_sim []) < 32" using wf_demo_sim [of "[]"] by (simp_all add: demo_sim_simps)
  have "\<not> bit (0x153 :: u32) 7" by simp
  then obtain p' where p': "arm_exception INTERRUPT (demo_sim []) = Inr (int INTERRUPT, p')"
    using irq_entry_effect [of "demo_sim []" 0 0] r w(1) by (auto simp: demo_sim_simps)
  have "within (\<lambda>p. cur_mode p < 32) irq_code (demo_sim [])"
    using irq_code_low w by (simp add: wf_sim_def)
  then show ?thesis
    using tracing_observes [OF t(1) w(1), of irq_code False] p' t(2) by (auto simp: irq_code_run)
qed

end
