(* ===== verification/Showcase.thy ===== *)
theory Showcase
  imports Stdio "HOL-Library.Multiset"
begin

text \<open>
  The programs of \<^verbatim>\<open>Showcase\<close> as C programs: what they compute and print through the routines of
  \<^verbatim>\<open>my_syscalls.h\<close>. A char, an int and an array are those of the compiler: ints have 32 bits, their
  overflow and accesses outside an array are faults.
\<close>

section \<open>Arithmetic and output\<close>

definition c_int :: "int \<Rightarrow> int res" where
  "c_int n = (if - (2 ^ 31) \<le> n \<and> n < 2 ^ 31 then Inr n else Inl Signed_Overflow)"

lemma c_int_ok [simp]: "- (2 ^ 31) \<le> n \<Longrightarrow> n < 2 ^ 31 \<Longrightarrow> c_int n = Inr n"
  by (simp add: c_int_def)

definition print_int :: "int \<Rightarrow> string" where
  "print_int n = format_d (word_of_int n)"

abbreviation LF :: char where "LF \<equiv> CHR 0x0A"

section \<open>my_utils.c\<close>

text \<open>A string is the array that holds it; reading past its end is a fault.\<close>

function strlen_loop :: "string \<Rightarrow> nat \<Rightarrow> nat res" where
  "strlen_loop str i =
     (if i < length str then (if str ! i \<noteq> NUL then strlen_loop str (i + 1) else Inr i)
      else Inl Out_Of_Bounds)"
  by pat_completeness auto
termination by (relation "measure (\<lambda>(str, i). length str - i)") auto

declare strlen_loop.simps [simp del]

definition my_strlen :: "string \<Rightarrow> int res" where
  "my_strlen str = bindR (strlen_loop str 0) (\<lambda>i. c_int (int i + 1))"

text \<open>The loop may run for ever, when \<open>b\<close> is 0: then there is no result.\<close>

partial_function (option) my_modulo :: "int \<Rightarrow> int \<Rightarrow> int res option" where
  "my_modulo a b =
     (if a \<ge> b then
        (case c_int (a - b) of
           Inl e \<Rightarrow> Some (Inl e)
         | Inr a \<Rightarrow> my_modulo a b)
      else Some (Inr a))"

text \<open>The delay counts and does nothing.\<close>

function my_clock :: "int \<Rightarrow> int \<Rightarrow> unit res" where
  "my_clock i x = (if i < x then bindR (c_int (i + 1)) (\<lambda>i. my_clock i x) else Inr ())"
  by pat_completeness auto
termination
  by (relation "measure (\<lambda>(i, x). nat (x - i))") (auto simp: c_int_def split: if_splits)

declare my_clock.simps [simp del]

lemma strlen_loop_eq:
  "k < length str \<Longrightarrow> str ! k = NUL \<Longrightarrow> \<forall>j < k. str ! j \<noteq> NUL \<Longrightarrow> i \<le> k \<Longrightarrow> strlen_loop str i = Inr k"
proof (induction "k - i" arbitrary: i)
  case (Suc n)
  then show ?case by (subst strlen_loop.simps) auto
qed (subst strlen_loop.simps, auto)

lemma my_modulo_eq:
  assumes "0 < b" "b < 2 ^ 31" "0 \<le> a" "a < 2 ^ 31"
  shows "my_modulo a b = Some (Inr (a mod b))"
  using assms(3,4)
proof (induction "nat a" arbitrary: a rule: less_induct)
  case less
  show ?case
  proof (cases "a \<ge> b")
    case True
    have "my_modulo a b = my_modulo (a - b) b"
      using True less.prems assms(1) by (subst my_modulo.simps) simp
    also have "\<dots> = Some (Inr ((a - b) mod b))"
      using less.hyps [of "a - b"] True less.prems assms(1) by simp
    finally show ?thesis by simp
  qed (use less.prems in \<open>subst my_modulo.simps; simp\<close>)
qed

text \<open>The other cases: below \<open>b\<close> nothing is done, for \<open>b = 0\<close> the loop does not end, and for a negative
  \<open>b\<close> the int overflows.\<close>

lemma my_modulo_small: "a < b \<Longrightarrow> my_modulo a b = Some (Inr a)"
  by (subst my_modulo.simps) simp

lemma my_modulo_zero:
  assumes "0 \<le> a" "a < 2 ^ 31"
  shows "my_modulo a 0 = None"
proof -
  have "my_modulo a 0 \<noteq> Some r" for r
  proof
    assume r: "my_modulo a 0 = Some r"
    have "(0 :: int) = 0 \<longrightarrow> 0 \<le> a \<longrightarrow> a < 2 ^ 31 \<longrightarrow> False"
      by (rule my_modulo.raw_induct [where P = "\<lambda>a b r. b = 0 \<longrightarrow> 0 \<le> a \<longrightarrow> a < 2 ^ 31 \<longrightarrow> False", OF _ r])
        (auto split: if_splits sum.splits)
    then show False using assms by simp
  qed
  then show ?thesis using assms by (cases "my_modulo a 0") auto
qed

lemma my_modulo_negative:
  assumes "b < 0" "b \<le> a" "a < 2 ^ 31"
  shows "my_modulo a b = Some (Inl Signed_Overflow)"
  using assms(2,3)
proof (induction "nat (2 ^ 31 - a)" arbitrary: a rule: less_induct)
  case less
  show ?case
  proof (cases "a - b < 2 ^ 31")
    case True
    then have "my_modulo a b = my_modulo (a - b) b"
      using less.prems assms(1) by (subst my_modulo.simps) simp
    then show ?thesis using less.hyps [of "a - b"] True less.prems assms(1) by simp
  qed (use less.prems in \<open>subst my_modulo.simps; simp add: c_int_def\<close>)
qed

text \<open>Together: for which arguments the loop ends, and with what.\<close>

lemma my_modulo_returns:
  assumes "- (2 ^ 31) \<le> a" "a < 2 ^ 31" "b < 2 ^ 31"
  shows "my_modulo a b =
    (if a < b then Some (Inr a)
     else if b > 0 then Some (Inr (a mod b))
     else if b = 0 then None
     else Some (Inl Signed_Overflow))"
  using assms my_modulo_small [of a b] my_modulo_eq [of b a] my_modulo_zero [of a] my_modulo_negative [of b a]
  by auto

section \<open>insertion_sort.c\<close>

fun print_array :: "int list \<Rightarrow> string" where
  "print_array [] = [LF]"
| "print_array (v # t) = char_of (unat (word_of_int (48 + v) :: 8 word)) # CHR '' '' # print_array t"

text \<open>The inner loop, from \<open>j\<close> down, and the outer one.\<close>

fun sift :: "nat \<Rightarrow> int list \<Rightarrow> int list res" where
  "sift 0 t = Inr t"
| "sift (Suc j) t =
     bindR (load t j) (\<lambda>x. bindR (load t (Suc j)) (\<lambda>y.
     bindR (if x > y
            then bindR (store t j y) (\<lambda>t. store t (Suc j) x)
            else Inr t) (\<lambda>t.
     sift j t)))"

function sort_loop :: "nat \<Rightarrow> nat \<Rightarrow> int list \<Rightarrow> int list res" where
  "sort_loop i size' t = (if i < size' then bindR (sift i t) (sort_loop (i + 1) size') else Inr t)"
  by pat_completeness auto
termination by (relation "measure (\<lambda>(i, size', t). size' - i)") auto

declare sort_loop.simps [simp del]

definition insertion_sort_main :: "string res" where
  "insertion_sort_main =
     (let t = [3, 6, 2, 0, 4, 1, 9, 8, 5, 7] in
      bindR (sort_loop 0 10 t) (\<lambda>t'. Inr (print_array t @ print_array t')))"

lemma insort_before_last: "y < z \<Longrightarrow> insort y (xs @ [z]) = insort y xs @ [z]"
  by (induction xs) auto

text \<open>
  Going down from \<open>j\<close>, the element at \<open>j\<close> is brought to its place in the sorted part before it, and
  what follows \<open>j\<close> stays.
\<close>

lemma sift_insert:
  assumes "j < length t" "sorted (take j t)"
  shows "\<exists>t'. sift j t = Inr t' \<and> length t' = length t \<and> drop (Suc j) t' = drop (Suc j) t
    \<and> take (Suc j) t' = insort (t ! j) (take j t)"
  using assms
proof (induction j arbitrary: t)
  case 0
  then show ?case by (simp add: take_Suc_conv_app_nth)
next
  case (Suc j)
  have l: "j < length t" "Suc j < length t" using Suc.prems(1) by simp_all
  have tk: "take (Suc j) t = take j t @ [t ! j]" using l(1) by (simp add: take_Suc_conv_app_nth)
  have srt: "sorted (take j t)" "\<forall>x \<in> set (take j t). x \<le> t ! j"
    using Suc.prems(2) by (simp_all add: tk sorted_append)
  show ?case
  proof (cases "t ! j > t ! Suc j")
    case True
    let ?t = "t[j := t ! Suc j, Suc j := t ! j]"
    have eq: "sift (Suc j) t = sift j ?t" using True l by simp
    have tj: "take j ?t = take j t" "?t ! j = t ! Suc j" "drop (Suc j) ?t = t ! j # drop (Suc (Suc j)) t"
      using l by (simp_all add: nth_list_update drop_update_cancel Cons_nth_drop_Suc [symmetric])
    obtain t' where t': "sift j ?t = Inr t'" "length t' = length ?t" "drop (Suc j) t' = drop (Suc j) ?t"
      "take (Suc j) t' = insort (?t ! j) (take j ?t)"
      using Suc.IH [of ?t] l srt(1) tj(1) by auto
    have l': "Suc j < length t'" using t'(2) l by simp
    have "t' ! Suc j = t ! j"
      using t'(3) tj(3) l' by (metis Cons_nth_drop_Suc list.inject)
    moreover have "drop (Suc (Suc j)) t' = drop (Suc (Suc j)) t"
      using t'(3) tj(3) l' by (metis Cons_nth_drop_Suc list.inject)
    ultimately have "take (Suc (Suc j)) t' = insort (t ! Suc j) (take j t) @ [t ! j]"
      using l' t'(4) tj(1,2) by (simp add: take_Suc_conv_app_nth [of "Suc j"])
    also have "\<dots> = insort (t ! Suc j) (take (Suc j) t)"
      using True by (simp add: tk insort_before_last)
    finally show ?thesis
      using eq t'(1,2) \<open>drop (Suc (Suc j)) t' = drop (Suc (Suc j)) t\<close> by auto
  next
    case False
    then have eq: "sift (Suc j) t = sift j t" using l by simp
    obtain t' where t': "sift j t = Inr t'" "length t' = length t" "drop (Suc j) t' = drop (Suc j) t"
      "take (Suc j) t' = insort (t ! j) (take j t)" using Suc.IH [OF l(1) srt(1)] by blast
    have "take (Suc j) t' = take (Suc j) t"
      using t'(4) sorted_insort_is_snoc [OF srt(1)] srt(2) tk by simp
    then have "t' = t" using t'(3) by (metis append_take_drop_id)
    moreover have "insort (t ! Suc j) (take (Suc j) t) = take (Suc j) t @ [t ! Suc j]"
      using False srt tk Suc.prems(2) by (intro sorted_insort_is_snoc) auto
    ultimately show ?thesis using eq t'(1) l by (simp add: take_Suc_conv_app_nth [of "Suc j"])
  qed
qed

lemma sort_loop_sorts:
  assumes "i \<le> length t" "sorted (take i t)"
  shows "\<exists>t'. sort_loop i (length t) t = Inr t' \<and> sorted t' \<and> mset t' = mset t"
  using assms
proof (induction "length t - i" arbitrary: i t)
  case 0
  then show ?case by (subst sort_loop.simps) simp
next
  case (Suc n)
  then have i: "i < length t" by simp
  obtain t1 where t1: "sift i t = Inr t1" "length t1 = length t" "drop (Suc i) t1 = drop (Suc i) t"
    "take (Suc i) t1 = insort (t ! i) (take i t)" using sift_insert [OF i Suc.prems(2)] by blast
  have "mset t1 = mset (take (Suc i) t1) + mset (drop (Suc i) t1)"
    by (metis append_take_drop_id mset_append)
  also have "\<dots> = mset (take i t @ t ! i # drop (Suc i) t)" using t1(3,4) by simp
  also have "\<dots> = mset t" using id_take_nth_drop [OF i] by simp
  finally have m: "mset t1 = mset t" .
  obtain t' where "sort_loop (i + 1) (length t1) t1 = Inr t'" "sorted t'" "mset t' = mset t1"
  proof -
    have "n = length t1 - (i + 1)" using Suc.hyps(2) t1(2) by simp
    moreover have "i + 1 \<le> length t1" "sorted (take (i + 1) t1)"
      using i t1(2,4) Suc.prems(2) by (simp_all add: sorted_insort)
    ultimately show thesis using Suc.hyps(1) [of t1 "i + 1"] that by blast
  qed
  then show ?case using t1(1,2) i m by (subst sort_loop.simps) auto
qed

lemma sort_loop_is_sort: "sort_loop 0 (length t) t = Inr (sort t)"
proof -
  obtain t' where t': "sort_loop 0 (length t) t = Inr t'" "sorted t'" "mset t' = mset t"
    using sort_loop_sorts [of 0 t] by auto
  then have "sort t = t'" by (intro properties_for_sort) simp_all
  with t'(1) show ?thesis by simp
qed

text \<open>The insertion sort sorts: for every array its result is the sorted arrangement of the elements, no
  access leaves the array, and the program prints its ten numbers before and after.\<close>

theorem insertion_sort_correct:
  "sort_loop 0 (length t) t = Inr (sort t)
    \<and> insertion_sort_main =
        Inr (print_array [3, 6, 2, 0, 4, 1, 9, 8, 5, 7] @ print_array [0, 1, 2, 3, 4, 5, 6, 7, 8, 9])"
proof -
  have "length [3, 6, 2, 0, 4, 1, 9, 8, 5, 7 :: int] = 10" by simp
  then have "sort_loop 0 10 [3, 6, 2, 0, 4, 1, 9, 8, 5, 7] = Inr (sort [3, 6, 2, 0, 4, 1, 9, 8, 5, 7])"
    using sort_loop_is_sort [of "[3, 6, 2, 0, 4, 1, 9, 8, 5, 7]"] by (simp only:)
  moreover have "sort [3, 6, 2, 0, 4, 1, 9, 8, 5, 7 :: int] = [0, 1, 2, 3, 4, 5, 6, 7, 8, 9]" by simp
  ultimately show ?thesis
    using sort_loop_is_sort [of t] unfolding insertion_sort_main_def Let_def by (simp only: bindR_simps simp_thms)
qed

section \<open>fibonacci.c\<close>

function fibo :: "int \<Rightarrow> int \<Rightarrow> int \<Rightarrow> string res" where
  "fibo a b x =
     (if x = 0 then Inr []
      else
        bindR (c_int (a + b)) (\<lambda>c. bindR (c_int (x - 1)) (\<lambda>x.
        bindR (fibo b c x) (\<lambda>rest. Inr (print_int a @ [LF] @ rest)))))"
  by pat_completeness auto
termination
  by (relation "measure (\<lambda>(a, b, x). nat (x + 2 ^ 31))") (auto simp: c_int_def split: if_splits)

declare fibo.simps [simp del]

definition fibonacci_main :: "string res" where
  "fibonacci_main = fibo 1 1 20"

fun fib :: "nat \<Rightarrow> int" where
  "fib 0 = 0"
| "fib (Suc 0) = 1"
| "fib (Suc (Suc n)) = fib n + fib (Suc n)"

lemma fib_nonneg: "0 \<le> fib n"
  by (induction n rule: fib.induct) auto

lemma fib_mono: "m \<le> n \<Longrightarrow> fib m \<le> fib n"
proof (induction rule: dec_induct)
  case (step n)
  have "fib n \<le> fib (Suc n)" using fib_nonneg by (cases n) auto
  with step.IH show ?case by simp
qed simp

lemma fibo_prints:
  assumes "fib (k + x + 1) < 2 ^ 31" "x < 2 ^ 31"
  shows "fibo (fib k) (fib (k + 1)) (int x) = Inr (concat (map (\<lambda>i. print_int (fib i) @ [LF]) [k..<k + x]))"
  using assms
proof (induction x arbitrary: k)
  case 0
  then show ?case by (subst fibo.simps) simp
next
  case (Suc x)
  have "fib k + fib (k + 1) = fib (k + 2)" by (simp add: numeral_2_eq_2)
  moreover have "fib (k + 2) < 2 ^ 31"
    using Suc.prems(1) fib_mono [of "k + 2" "k + Suc x + 1"] by simp
  moreover have "0 \<le> fib (k + 2)" by (rule fib_nonneg)
  moreover have "fibo (fib (k + 1)) (fib (k + 2)) (int x) =
      Inr (concat (map (\<lambda>i. print_int (fib i) @ [LF]) [k + 1..<k + 1 + x]))"
    using Suc.IH [of "k + 1"] Suc.prems by (simp add: numeral_2_eq_2)
  moreover have "[k..<k + Suc x] = k # [k + 1..<k + 1 + x]" by (simp add: upt_conv_Cons del: upt_Suc)
  ultimately show ?case
    using Suc.prems(2) by (subst fibo.simps) (simp del: upt_Suc)
qed

lemma fibonacci_main_prints:
  "fibonacci_main = Inr (concat (map (\<lambda>i. print_int (fib i) @ [LF]) [1..<21]))"
proof -
  have "fib (1 + 20 + 1) < 2 ^ 31" by (simp add: eval_nat_numeral)
  from fibo_prints [OF this]
  have "fibo (fib 1) (fib (1 + 1)) (int 20) = Inr (concat (map (\<lambda>i. print_int (fib i) @ [LF]) [1..<1 + 20]))" by simp
  moreover have "fib 1 = 1" "fib (1 + 1) = 1" "(1 :: nat) + 20 = 21" by simp_all
  ultimately show ?thesis unfolding fibonacci_main_def by (simp only: of_nat_numeral)
qed

section \<open>Running texts\<close>

text \<open>
  The loop that fills the window of the texts of \<^verbatim>\<open>chenillion.c\<close>, \<^verbatim>\<open>chenillion_rainbow.c\<close> and \<^verbatim>\<open>test.c\<close>,
  from \<open>j\<close> on, for position \<open>i\<close> of a text of length \<open>len\<close>, its final null character included.
\<close>

definition load_at :: "'a list \<Rightarrow> int \<Rightarrow> 'a res" where
  "load_at xs x = (if x < 0 then Inl Out_Of_Bounds else load xs (nat x))"

function fill :: "string \<Rightarrow> int \<Rightarrow> int \<Rightarrow> nat \<Rightarrow> nat \<Rightarrow> string \<Rightarrow> string res option" where
  "fill txt len i n j temp =
     (if j < n then
        (case my_modulo (i + int j) (len - 1) of
           None \<Rightarrow> None
         | Some r \<Rightarrow>
             (case bindR r (\<lambda>x. bindR (load_at txt x) (store temp j)) of
                Inl e \<Rightarrow> Some (Inl e)
              | Inr temp \<Rightarrow> fill txt len i n (j + 1) temp))
      else Some (Inr temp))"
  by pat_completeness auto
termination by (relation "measure (\<lambda>(txt, len, i, n, j, temp). n - j)") auto

declare fill.simps [simp del]

text \<open>What \<^verbatim>\<open>my_printstr\<close> prints of an array: its characters up to a null character, which must be there.\<close>

definition my_printstr_of :: "string \<Rightarrow> string res" where
  "my_printstr_of temp = bindR (strlen_loop temp 0) (\<lambda>k. Inr (take k temp))"

definition chenillion_text :: string where
  "chenillion_text =
     ''SE DEMANDE SI ELEVER DES CHEVRES EN ARDECHE EST UNE BONNE SITUATION. '' @ [NUL]"

definition test_text :: string where
  "test_text = ''PROCHAIN ARRET : PONTCHARRA SUR BREDA. '' @ [NUL]"

text \<open>One round of the loop over the positions: the window, and what is printed.\<close>

definition chenillion_round :: "int \<Rightarrow> int \<Rightarrow> string \<Rightarrow> (string \<times> string) res option" where
  "chenillion_round len i temp =
     map_option (\<lambda>r. bindR r (\<lambda>temp. bindR (my_printstr_of temp) (\<lambda>out.
       bindR (my_clock 0 50000) (\<lambda>_. Inr (temp, out @ [CHR 0x0D])))))
       (fill chenillion_text len i 30 0 temp)"

definition colour :: "int \<Rightarrow> string res option" where
  "colour i =
     map_option (\<lambda>r. bindR r (\<lambda>c.
       Inr ([CHR 0x1B] @ ''['' @ print_int (if c = 0 then 93 else c + 90) @ ''m''))) (my_modulo i 7)"

definition rainbow_round :: "int \<Rightarrow> int \<Rightarrow> string \<Rightarrow> (string \<times> string) res option" where
  "rainbow_round len i temp =
     (case fill chenillion_text len i 30 0 temp of
        None \<Rightarrow> None
      | Some (Inl e) \<Rightarrow> Some (Inl e)
      | Some (Inr temp) \<Rightarrow>
          map_option (\<lambda>r. bindR r (\<lambda>c. bindR (my_printstr_of temp) (\<lambda>out.
            bindR (my_clock 0 50000) (\<lambda>_. Inr (temp, c @ out @ [CHR 0x0D]))))) (colour i))"

text \<open>The test writes the end of the string behind the window. (What it prints for each character is left out.)\<close>

definition test_round :: "int \<Rightarrow> int \<Rightarrow> string \<Rightarrow> string res option" where
  "test_round len i temp =
     map_option (\<lambda>r. bindR r (\<lambda>temp. bindR (store temp 20 NUL) (\<lambda>temp.
       bindR (my_clock 0 50000) (\<lambda>_. Inr temp)))) (fill test_text len i 20 0 temp)"

text \<open>The window holds the text from position \<open>i\<close> on, which begins again after its end.\<close>

lemma fill_window:
  assumes "txt = body @ [NUL]" "body \<noteq> []" "len = int (length body) + 1" "i + n < 2 ^ 31" "length body < 2 ^ 31"
    "length temp = n" "j \<le> n" "take j temp = map (\<lambda>k. body ! ((i + k) mod length body)) [0..<j]"
  shows "fill txt len (int i) n j temp = Some (Inr (map (\<lambda>k. body ! ((i + k) mod length body)) [0..<n]))"
  using assms(6-8)
proof (induction "n - j" arbitrary: j temp)
  case 0
  then show ?case by (subst fill.simps) simp
next
  case (Suc m)
  let ?x = "(i + j) mod length body"
  have j: "j < n" using Suc.hyps(2) by simp
  have x: "?x < length body" using assms(2) by simp
  have "my_modulo (int i + int j) (len - 1) = Some (Inr (int ?x))"
    using my_modulo_eq [of "int (length body)" "int (i + j)"] assms(2-5) j by (simp add: zmod_int)
  moreover have "load_at txt (int ?x) = Inr (body ! ?x)"
    using x assms(1) by (simp add: load_at_def nth_append)
  ultimately have "fill txt len (int i) n j temp = fill txt len (int i) n (j + 1) (temp[j := body ! ?x])"
    using j Suc.prems(1) by (subst fill.simps) simp
  also have "\<dots> = Some (Inr (map (\<lambda>k. body ! ((i + k) mod length body)) [0..<n]))"
  proof (rule Suc.hyps(1))
    show "take (j + 1) (temp[j := body ! ?x]) = map (\<lambda>k. body ! ((i + k) mod length body)) [0..<j + 1]"
      using j Suc.prems(1,3) by (simp add: take_Suc_conv_app_nth)
  qed (use Suc.hyps(2) Suc.prems(1) j in simp_all)
  finally show ?case .
qed

lemma unterminated: "NUL \<notin> set xs \<Longrightarrow> strlen_loop xs i = Inl Out_Of_Bounds"
proof (induction xs i rule: strlen_loop.induct)
  case (1 str i)
  then show ?case by (subst strlen_loop.simps) (auto dest: nth_mem)
qed

definition bare :: "string \<Rightarrow> string" where
  "bare txt = butlast txt"

lemma texts_bare:
  "chenillion_text = bare chenillion_text @ [NUL]" "length (bare chenillion_text) = 69" "NUL \<notin> set (bare chenillion_text)"
  "test_text = bare test_text @ [NUL]" "length (bare test_text) = 39" "NUL \<notin> set (bare test_text)"
  by (simp_all add: bare_def chenillion_text_def test_text_def)

lemma my_strlen_terminated:
  assumes "txt = body @ [NUL]" "NUL \<notin> set body" "length body + 1 < 2 ^ 31"
  shows "my_strlen txt = Inr (int (length body) + 1)"
proof -
  have "strlen_loop txt 0 = Inr (length body)"
    using assms(1,2) by (intro strlen_loop_eq) (auto simp: nth_append dest: nth_mem)
  then show ?thesis using assms(3) by (simp add: my_strlen_def)
qed

lemma window_unterminated:
  assumes "NUL \<notin> set body" "body \<noteq> []"
  shows "NUL \<notin> set (map (\<lambda>k. body ! ((i + k) mod length body)) ks)"
proof
  assume "NUL \<in> set (map (\<lambda>k. body ! ((i + k) mod length body)) ks)"
  then obtain k where "NUL = body ! ((i + k) mod length body)" by auto
  then show False using assms nth_mem [of "(i + k) mod length body" body] by simp
qed

text \<open>The running texts show the right window and then leave their arrays: at every position of the text
  the window is filled with the characters from there on, beginning again behind the last; but nothing
  ends the string, so printing it reads past the window, and the test writes the null character behind
  it.\<close>

theorem running_texts_overrun:
  assumes "length temp = 30" "length temp' = 20" "i < 70"
  shows "fill chenillion_text 70 (int i) 30 0 temp =
      Some (Inr (map (\<lambda>k. chenillion_text ! ((i + k) mod 69)) [0..<30]))
    \<and> my_strlen chenillion_text = Inr 70
    \<and> chenillion_round 70 (int i) temp = Some (Inl Out_Of_Bounds)
    \<and> rainbow_round 70 (int i) temp = Some (Inl Out_Of_Bounds)
    \<and> my_strlen test_text = Inr 40 \<and> test_round 40 (int i) temp' = Some (Inl Out_Of_Bounds)"
proof -
  note c = texts_bare(1-3) and t = texts_bare(4-6)
  have ne: "bare chenillion_text \<noteq> []" "bare test_text \<noteq> []" using c(2) t(2) by auto
  let ?w = "map (\<lambda>k. bare chenillion_text ! ((i + k) mod 69)) [0..<30]"
  let ?v = "map (\<lambda>k. bare test_text ! ((i + k) mod 39)) [0..<20]"
  have w: "fill chenillion_text 70 (int i) 30 0 temp = Some (Inr ?w)"
    using fill_window [OF c(1) ne(1), of 70 i 30 temp 0] c(2) assms(1,3) by simp
  have v: "fill test_text 40 (int i) 20 0 temp' = Some (Inr ?v)"
    using fill_window [OF t(1) ne(2), of 40 i 20 temp' 0] t(2) assms(2,3) by simp
  have w': "?w = map (\<lambda>k. chenillion_text ! ((i + k) mod 69)) [0..<30]"
    using c(2) by (subst c(1)) (simp add: nth_append)
  have out: "my_printstr_of ?w = Inl Out_Of_Bounds"
    using unterminated [OF window_unterminated [OF c(3) ne(1), of i "[0..<30]"]] c(2)
    by (simp add: my_printstr_of_def)
  obtain cl where cl: "colour (int i) = Some (Inr cl)"
    using my_modulo_eq [of 7 "int i"] assms(3) by (simp add: colour_def)
  have "my_strlen chenillion_text = Inr 70" "my_strlen test_text = Inr 40"
    using my_strlen_terminated [OF c(1,3)] my_strlen_terminated [OF t(1,3)] c(2) t(2) by simp_all
  moreover have "chenillion_round 70 (int i) temp = Some (Inl Out_Of_Bounds)"
    unfolding chenillion_round_def w by (simp only: option.map bindR_simps out)
  moreover have "rainbow_round 70 (int i) temp = Some (Inl Out_Of_Bounds)"
    unfolding rainbow_round_def w cl by (simp only: option.case sum.case option.map bindR_simps out)
  moreover have "test_round 40 (int i) temp' = Some (Inl Out_Of_Bounds)"
    unfolding test_round_def v by (simp del: upt_rec_numeral)
  ultimately show ?thesis using w w' by simp
qed

theorem running_texts_overrun_witness:
  "chenillion_round 70 68 (replicate 30 NUL) = Some (Inl Out_Of_Bounds)"
  using running_texts_overrun [of "replicate 30 NUL" "replicate 20 NUL" 68] by simp

end
