(* ===== verification/Tictactoe.thy ===== *)
theory Tictactoe
  imports Showcase
begin

text \<open>
  The game of \<^verbatim>\<open>tictactoe.c\<close>: the board, its checks and moves, and the loop of the game over the
  numbers the players type.
\<close>

section \<open>The board\<close>

type_synonym board = "char list list"

abbreviation SIZE :: nat where "SIZE \<equiv> 3"

definition cell_of :: "board \<Rightarrow> nat \<Rightarrow> nat \<Rightarrow> char res" where
  "cell_of b i j = bindR (load b i) (\<lambda>row. load row j)"

definition set_cell :: "board \<Rightarrow> nat \<Rightarrow> nat \<Rightarrow> char \<Rightarrow> board res" where
  "set_cell b i j c = bindR (load b i) (\<lambda>row. bindR (store row j c) (\<lambda>row. store b i row))"

text \<open>The two loops over the cells, in the order of the code.\<close>

definition positions :: "(nat \<times> nat) list" where
  "positions = concat (map (\<lambda>i. map (\<lambda>j. (i, j)) [0..<SIZE]) [0..<SIZE])"

fun set_cells :: "(nat \<times> nat) list \<Rightarrow> char \<Rightarrow> board \<Rightarrow> board res" where
  "set_cells [] c b = Inr b"
| "set_cells ((i, j) # ps) c b = bindR (set_cell b i j c) (set_cells ps c)"

definition initializeBoard :: "board \<Rightarrow> board res" where
  "initializeBoard = set_cells positions (CHR '' '')"

definition rule_line :: string where
  "rule_line = ''-------------'' @ [LF]"

fun print_rows :: "nat list \<Rightarrow> board \<Rightarrow> string res" where
  "print_rows [] b = Inr []"
| "print_rows (i # is) b =
     bindR (cell_of b i 0) (\<lambda>x. bindR (cell_of b i 1) (\<lambda>y. bindR (cell_of b i 2) (\<lambda>z.
     bindR (print_rows is b) (\<lambda>rest.
     Inr (''| '' @ [x] @ '' | '' @ [y] @ '' | '' @ [z] @ '' |'' @ [LF] @ rule_line @ rest)))))"

definition printBoard :: "board \<Rightarrow> string res" where
  "printBoard b = bindR (print_rows [0..<SIZE] b) (\<lambda>s. Inr (rule_line @ s))"

fun no_space :: "(nat \<times> nat) list \<Rightarrow> board \<Rightarrow> bool res" where
  "no_space [] b = Inr True"
| "no_space ((i, j) # ps) b = bindR (cell_of b i j) (\<lambda>c. if c = CHR '' '' then Inr False else no_space ps b)"

definition isBoardFull :: "board \<Rightarrow> bool res" where
  "isBoardFull = no_space positions"

text \<open>A line of cells that all hold the player's sign, tested from left to right.\<close>

fun all_cells :: "char \<Rightarrow> board \<Rightarrow> (nat \<times> nat) list \<Rightarrow> bool res" where
  "all_cells player b [] = Inr True"
| "all_cells player b ((i, j) # ps) =
     bindR (cell_of b i j) (\<lambda>c. if c = player then all_cells player b ps else Inr False)"

fun any_line :: "char \<Rightarrow> board \<Rightarrow> (nat \<times> nat) list list \<Rightarrow> bool res" where
  "any_line player b [] = Inr False"
| "any_line player b (l # ls) =
     bindR (all_cells player b l) (\<lambda>w. if w then Inr True else any_line player b ls)"

definition rows :: "(nat \<times> nat) list list" where
  "rows = map (\<lambda>i. [(i, 0), (i, 1), (i, 2)]) [0..<SIZE]"

definition columns :: "(nat \<times> nat) list list" where
  "columns = map (\<lambda>j. [(0, j), (1, j), (2, j)]) [0..<SIZE]"

definition diagonals :: "(nat \<times> nat) list list" where
  "diagonals = [[(0, 0), (1, 1), (2, 2)], [(0, 2), (1, 1), (2, 0)]]"

definition isWinner :: "char \<Rightarrow> board \<Rightarrow> bool res" where
  "isWinner player b = any_line player b (rows @ columns @ diagonals)"

definition makeMove :: "int \<Rightarrow> int \<Rightarrow> char \<Rightarrow> board \<Rightarrow> (bool \<times> board) res" where
  "makeMove row col player b =
     (if row < 0 \<or> row \<ge> int SIZE \<or> col < 0 \<or> col \<ge> int SIZE then Inr (False, b)
      else
        bindR (cell_of b (nat row) (nat col)) (\<lambda>c.
        if c \<noteq> CHR '' '' then Inr (False, b)
        else bindR (set_cell b (nat row) (nat col) player) (\<lambda>b. Inr (True, b))))"

section \<open>The game\<close>

text \<open>
  The loop of \<^verbatim>\<open>main\<close> over the pairs of numbers that are typed: the game is won, a draw, or waits for
  the next number of a player.
\<close>

datatype game = Won char | Draw | Waits char

definition turn_text :: "char \<Rightarrow> string" where
  "turn_text player =
     ''It's  '' @ [player] @ CHR 0x27 # ''s turn.'' @ [LF] @ '' '' @ ''Enter row (1 - 3) : ''"

fun play :: "(int \<times> int) list \<Rightarrow> char \<Rightarrow> board \<Rightarrow> (string \<times> game \<times> board) res" where
  "play [] player b = bindR (printBoard b) (\<lambda>s. Inr (s @ turn_text player, Waits player, b))"
| "play ((r, c) # typed) player b =
     bindR (printBoard b) (\<lambda>s.
     bindR (c_int (r - 1)) (\<lambda>row.
     bindR (c_int (c - 1)) (\<lambda>col.
     let s = s @ turn_text player @ ''Enter column (1 - 3) : '' in
     bindR (makeMove row col player b) (\<lambda>(ok, b).
     if ok then
       bindR (isWinner player b) (\<lambda>won.
       if won then Inr (s @ ''Player '' @ [player] @ '' wins!'' @ [LF], Won player, b)
       else
         bindR (isBoardFull b) (\<lambda>full.
         if full then Inr (s @ ''It's a draw!'' @ [LF], Draw, b)
         else
           bindR (play typed (if player = CHR ''X'' then CHR ''O'' else CHR ''X'') b) (\<lambda>(s', g, b).
           Inr (s @ s', g, b))))
     else
       bindR (play typed player b) (\<lambda>(s', g, b).
       Inr (s @ ''Invalid move. Try again.'' @ [LF] @ s', g, b))))))"

definition tictactoe_main :: "(int \<times> int) list \<Rightarrow> board \<Rightarrow> (string \<times> game \<times> board) res" where
  "tictactoe_main typed board0 = bindR (initializeBoard board0) (play typed (CHR ''X''))"

section \<open>The rules\<close>

text \<open>A board is three rows of three cells, and a player has won with three cells in a line.\<close>

definition wf_board :: "board \<Rightarrow> bool" where
  "wf_board b \<longleftrightarrow> length b = 3 \<and> (\<forall>row \<in> set b. length row = 3)"

definition has_line :: "char \<Rightarrow> board \<Rightarrow> bool" where
  "has_line c b \<longleftrightarrow> (\<exists>l \<in> set (rows @ columns @ diagonals). \<forall>(i, j) \<in> set l. b ! i ! j = c)"

definition full :: "board \<Rightarrow> bool" where
  "full b \<longleftrightarrow> (\<forall>(i, j) \<in> set positions. b ! i ! j \<noteq> CHR '' '')"

definition signs :: "char \<Rightarrow> board \<Rightarrow> nat" where
  "signs c b = length (filter (\<lambda>(i, j). b ! i ! j = c) positions)"

lemma positions_eq: "positions = [(0, 0), (0, 1), (0, 2), (1, 0), (1, 1), (1, 2), (2, 0), (2, 1), (2, 2)]"
  by (simp add: positions_def upt_rec)

lemma lines_eq: "rows @ columns @ diagonals =
    [[(0, 0), (0, 1), (0, 2)], [(1, 0), (1, 1), (1, 2)], [(2, 0), (2, 1), (2, 2)],
     [(0, 0), (1, 0), (2, 0)], [(0, 1), (1, 1), (2, 1)], [(0, 2), (1, 2), (2, 2)],
     [(0, 0), (1, 1), (2, 2)], [(0, 2), (1, 1), (2, 0)]]"
  by (simp add: rows_def columns_def diagonals_def upt_rec)

lemma wf_board_nine:
  assumes "wf_board b"
  obtains p q r s t u v w x where "b = [[p, q, r], [s, t, u], [v, w, x]]"
proof -
  have three: "\<exists>x y z. xs = [x, y, z]" if "length xs = 3" for xs :: "'x list"
    using that by (auto simp: length_Suc_conv numeral_3_eq_3)
  obtain a1 a2 a3 where b: "b = [a1, a2, a3]" using three [of b] assms by (auto simp: wf_board_def)
  then show thesis using three [of a1] three [of a2] three [of a3] assms that by (fastforce simp: wf_board_def)
qed

lemma cell_of_eq: "wf_board b \<Longrightarrow> i < 3 \<Longrightarrow> j < 3 \<Longrightarrow> cell_of b i j = Inr (b ! i ! j)"
  by (simp add: cell_of_def wf_board_def)

lemma all_cells_eq:
  "wf_board b \<Longrightarrow> \<forall>(i, j) \<in> set ps. i < 3 \<and> j < 3 \<Longrightarrow>
    all_cells c b ps = Inr (\<forall>(i, j) \<in> set ps. b ! i ! j = c)"
  by (induction ps) (auto simp: cell_of_eq)

lemma any_line_eq:
  "wf_board b \<Longrightarrow> \<forall>l \<in> set ls. \<forall>(i, j) \<in> set l. i < 3 \<and> j < 3 \<Longrightarrow>
    any_line c b ls = Inr (\<exists>l \<in> set ls. \<forall>(i, j) \<in> set l. b ! i ! j = c)"
  by (induction ls) (auto simp: all_cells_eq)

lemma isWinner_eq: "wf_board b \<Longrightarrow> isWinner c b = Inr (has_line c b)"
  unfolding isWinner_def has_line_def by (rule any_line_eq) (auto simp: lines_eq)

lemma no_space_eq:
  "wf_board b \<Longrightarrow> \<forall>(i, j) \<in> set ps. i < 3 \<and> j < 3 \<Longrightarrow>
    no_space ps b = Inr (\<forall>(i, j) \<in> set ps. b ! i ! j \<noteq> CHR '' '')"
  by (induction ps) (auto simp: cell_of_eq)

lemma isBoardFull_eq: "wf_board b \<Longrightarrow> isBoardFull b = Inr (full b)"
  unfolding isBoardFull_def full_def by (rule no_space_eq) (auto simp: positions_eq)

lemma printBoard_ok: "wf_board b \<Longrightarrow> \<exists>s. printBoard b = Inr s"
  by (simp add: printBoard_def upt_rec cell_of_eq)

lemma initializeBoard_eq:
  "wf_board b \<Longrightarrow> initializeBoard b = Inr (replicate 3 (replicate 3 (CHR '' '')))"
  by (erule wf_board_nine)
    (simp add: initializeBoard_def positions_eq set_cell_def numeral_3_eq_3 store_def load_def)

section \<open>Moves\<close>

lemma makeMove_cases:
  assumes "wf_board b"
  obtains (refused) "makeMove row col c b = Inr (False, b)"
  | (moved) i j b' where "i < 3" "j < 3" "b ! i ! j = CHR '' ''" "makeMove row col c b = Inr (True, b')"
      "wf_board b'" "\<And>k l. k < 3 \<Longrightarrow> l < 3 \<Longrightarrow> b' ! k ! l = (if k = i \<and> l = j then c else b ! k ! l)"
proof (cases "row < 0 \<or> row \<ge> 3 \<or> col < 0 \<or> col \<ge> 3 \<or> b ! nat row ! nat col \<noteq> CHR '' ''")
  case True
  then show thesis
    using assms by (intro refused) (auto simp: makeMove_def cell_of_eq)
next
  case False
  let ?i = "nat row" and ?j = "nat col"
  have ij: "?i < 3" "?j < 3" using False by auto
  have l: "length b = 3" "length (b ! ?i) = 3" using assms ij by (auto simp: wf_board_def)
  let ?b = "b[?i := (b ! ?i)[?j := c]]"
  have s: "set_cell b ?i ?j c = Inr ?b" using ij l by (simp add: set_cell_def)
  have "wf_board ?b"
    using assms l by (auto simp: wf_board_def dest!: set_update_subset_insert [THEN subsetD])
  then show thesis
    using False ij assms s l
    by (intro moved [of ?i ?j ?b]) (auto simp: makeMove_def cell_of_eq nth_list_update)
qed

text \<open>
  The state of a game that goes on: nobody has a line, a cell is free, and the players have moved in
  turns, X first.
\<close>

definition going :: "char \<Rightarrow> board \<Rightarrow> bool" where
  "going player b \<longleftrightarrow> wf_board b \<and> \<not> has_line (CHR ''X'') b \<and> \<not> has_line (CHR ''O'') b \<and> \<not> full b
     \<and> player \<in> {CHR ''X'', CHR ''O''}
     \<and> signs (CHR ''X'') b = signs (CHR ''O'') b + (if player = CHR ''O'' then 1 else 0)"

lemma lines_bounds: "l \<in> set (rows @ columns @ diagonals) \<Longrightarrow> (k, m) \<in> set l \<Longrightarrow> k < 3 \<and> m < 3"
  by (auto simp: rows_def columns_def diagonals_def)

lemma positions_iff: "(i, j) \<in> set positions \<longleftrightarrow> i < 3 \<and> j < 3"
proof -
  have "set positions = {0..<3} \<times> {0..<3}" by (simp add: positions_def) blast
  then show ?thesis by simp
qed

lemma has_line_mono:
  assumes "has_line d b'" "d \<noteq> c"
    "\<And>k l. k < 3 \<Longrightarrow> l < 3 \<Longrightarrow> b' ! k ! l = (if k = i \<and> l = j then c else b ! k ! l)"
  shows "has_line d b"
proof -
  have cell: "b ! k ! l = d" if "b' ! k ! l = d" "k < 3" "l < 3" for k l
    using assms(2) assms(3) [OF that(2,3)] that(1) by (auto split: if_splits)
  obtain l where l: "l \<in> set (rows @ columns @ diagonals)" "\<forall>(k, m) \<in> set l. b' ! k ! m = d"
    using assms(1) unfolding has_line_def by blast
  have "\<forall>(k, m) \<in> set l. b ! k ! m = d"
  proof clarify
    fix k m assume km: "(k, m) \<in> set l"
    then have "b' ! k ! m = d" using l(2) by blast
    then show "b ! k ! m = d" using cell lines_bounds [OF l(1) km] by blast
  qed
  then show ?thesis using l(1) unfolding has_line_def by blast
qed

lemma filter_change:
  assumes "distinct ps" "z \<in> set ps" "\<not> P z" "Q z" "\<And>y. y \<in> set ps \<Longrightarrow> y \<noteq> z \<Longrightarrow> Q y = P y"
  shows "length (filter Q ps) = length (filter P ps) + 1"
  using assms
proof (induction ps)
  case (Cons y ps)
  show ?case
  proof (cases "y = z")
    case True
    then have "filter Q ps = filter P ps" using Cons.prems by (intro filter_cong) auto
    then show ?thesis using True Cons.prems by simp
  next
    case False
    then have "length (filter Q ps) = length (filter P ps) + 1"
      using Cons.prems by (intro Cons.IH) auto
    then show ?thesis using False Cons.prems(5) [of y] by simp
  qed
qed simp

lemma signs_after:
  assumes "i < 3" "j < 3" "b ! i ! j = CHR '' ''" "c \<noteq> CHR '' ''"
    "\<And>k l. k < 3 \<Longrightarrow> l < 3 \<Longrightarrow> b' ! k ! l = (if k = i \<and> l = j then c else b ! k ! l)"
  shows "signs c b' = signs c b + 1" "d \<noteq> c \<Longrightarrow> d \<noteq> CHR '' '' \<Longrightarrow> signs d b' = signs d b"
proof -
  have p: "distinct positions" "(i, j) \<in> set positions" "\<And>k l. (k, l) \<in> set positions \<Longrightarrow> k < 3 \<and> l < 3"
    using assms(1,2) by (simp_all only: positions_iff) (simp add: positions_eq)
  show "signs c b' = signs c b + 1"
    unfolding signs_def using p(3) assms
    by (intro filter_change [OF p(1,2)]) (auto split: if_splits)
  show "signs d b' = signs d b" if "d \<noteq> c" "d \<noteq> CHR '' ''"
    unfolding signs_def using p(3) assms(3,5) that
    by (intro arg_cong [of _ _ length] filter_cong) (auto split: if_splits)
qed

section \<open>The end of a game\<close>

definition other :: "char \<Rightarrow> char" where
  "other player = (if player = CHR ''X'' then CHR ''O'' else CHR ''X'')"

definition game_ok :: "game \<Rightarrow> board \<Rightarrow> bool" where
  "game_ok g b =
     (case g of
        Won player \<Rightarrow> player \<in> {CHR ''X'', CHR ''O''} \<and> has_line player b \<and> \<not> has_line (other player) b
      | Draw \<Rightarrow> full b \<and> \<not> has_line (CHR ''X'') b \<and> \<not> has_line (CHR ''O'') b
      | Waits player \<Rightarrow> going player b)"

lemma going_step:
  assumes "going player b" "i < 3" "j < 3" "b ! i ! j = CHR '' ''" "wf_board b'"
    "\<And>k l. k < 3 \<Longrightarrow> l < 3 \<Longrightarrow> b' ! k ! l = (if k = i \<and> l = j then player else b ! k ! l)"
  shows "\<not> has_line (other player) b'"
    "\<not> has_line player b' \<Longrightarrow> \<not> full b' \<Longrightarrow> going (other player) b'"
    "signs (CHR ''X'') b' + signs (CHR ''O'') b' = signs (CHR ''X'') b + signs (CHR ''O'') b + 1"
proof -
  have pl: "player = CHR ''X'' \<or> player = CHR ''O''" "player \<noteq> CHR '' ''" "other player \<noteq> CHR '' ''"
    "other player \<noteq> player"
    using assms(1) by (auto simp: going_def other_def)
  show l: "\<not> has_line (other player) b'"
    using has_line_mono [OF _ pl(4) assms(6)] pl(1) assms(1) by (auto simp: going_def other_def)
  note s = signs_after(1) [OF assms(2-4) pl(2) assms(6)]
    signs_after(2) [OF assms(2-4) pl(2) assms(6), of "other player"]
  show "signs (CHR ''X'') b' + signs (CHR ''O'') b' = signs (CHR ''X'') b + signs (CHR ''O'') b + 1"
    using s pl by (auto simp: other_def)
  show "going (other player) b'" if "\<not> has_line player b'" "\<not> full b'"
    using that l s pl assms(1,5) by (auto simp: going_def other_def)
qed

lemma play_ok:
  assumes "going player b" "\<forall>(r, c) \<in> set typed. - (2 ^ 31) < r \<and> r < 2 ^ 31 \<and> - (2 ^ 31) < c \<and> c < 2 ^ 31"
  shows "\<exists>out g b'. play typed player b = Inr (out, g, b') \<and> wf_board b' \<and> game_ok g b'"
  using assms
proof (induction typed player b rule: play.induct)
  case (1 player b)
  then show ?case using printBoard_ok [of b] by (auto simp: going_def game_ok_def)
next
  case outer: (2 r c typed player b)
  note go = outer.prems(1)
  have w: "wf_board b" using go by (simp add: going_def)
  obtain s where s: "printBoard b = Inr s" using printBoard_ok [OF w] by blast
  have ci: "c_int (r - 1) = Inr (r - 1)" "c_int (c - 1) = Inr (c - 1)" using outer.prems(2) by simp_all
  have rest: "\<forall>(r, c) \<in> set typed. - (2 ^ 31) < r \<and> r < 2 ^ 31 \<and> - (2 ^ 31) < c \<and> c < 2 ^ 31"
    using outer.prems(2) by simp
  show ?case
  proof (cases rule: makeMove_cases [OF w, of "r - 1" "c - 1" player])
    case 1
    from outer.IH(2) [OF s ci refl 1 refl _ go rest]
    show ?thesis using s ci 1 by auto
  next
    case (2 i j b1)
    have st: "\<not> has_line (other player) b1"
      "\<not> has_line player b1 \<Longrightarrow> \<not> full b1 \<Longrightarrow> going (other player) b1"
      using going_step(1,2) [OF go 2(1-3,5)] 2(6) by blast+
    have pl: "player \<in> {CHR ''X'', CHR ''O''}" "\<not> has_line (CHR ''X'') b1 \<and> \<not> has_line (CHR ''O'') b1"
      if "\<not> has_line player b1"
      using go st(1) that by (auto simp: going_def other_def)
    consider "has_line player b1" | "\<not> has_line player b1" "full b1" | "\<not> has_line player b1" "\<not> full b1" by blast
    then show ?thesis
    proof cases
      case 1
      then show ?thesis
        using s ci 2(4,5) st(1) go by (auto simp: isWinner_eq game_ok_def going_def)
    next
      case w: 2
      then show ?thesis
        using s ci 2(4,5) pl by (auto simp: isWinner_eq isBoardFull_eq game_ok_def)
    next
      case g: 3
      have iw: "isWinner player b1 = Inr False" "isBoardFull b1 = Inr False"
        using g by (simp_all add: isWinner_eq [OF 2(5)] isBoardFull_eq [OF 2(5)])
      from outer.IH(1) [OF s ci refl 2(4) refl _ iw(1) _ iw(2) _ _ rest]  st(2) [OF g]
      show ?thesis using s ci 2(4) iw by (auto simp: other_def)
    qed
  qed
qed

lemma going_initial: "going (CHR ''X'') (replicate 3 (replicate 3 (CHR '' '')))"
proof -
  let ?b = "replicate 3 (replicate 3 (CHR '' ''))"
  have c: "?b ! i ! j = CHR '' ''" if "i < 3" "j < 3" for i j using that by simp
  have "\<not> has_line d ?b" if "d \<noteq> CHR '' ''" for d
    unfolding has_line_def lines_eq using that by (simp add: c)
  moreover have "\<not> full ?b" unfolding full_def positions_eq by (simp add: c)
  moreover have "signs d ?b = 0" if "d \<noteq> CHR '' ''" for d
    unfolding signs_def positions_eq using that by (simp add: c)
  ultimately show ?thesis by (simp add: going_def wf_board_def)
qed

text \<open>C18: The game keeps its rules whatever the players type: it never leaves the board, a player is told to have
  won exactly with three signs in a line, which the other then does not have, a draw is a full board
  without a line, and as long as the game goes on nobody has a line, a cell is free and the players have
  placed their signs in turns, X first.\<close>

theorem tictactoe_game:
  assumes "wf_board board0"
    "\<forall>(r, c) \<in> set typed. - (2 ^ 31) < r \<and> r < 2 ^ 31 \<and> - (2 ^ 31) < c \<and> c < 2 ^ 31"
  shows "\<exists>out g b. tictactoe_main typed board0 = Inr (out, g, b) \<and> wf_board b
    \<and> (case g of
         Won player \<Rightarrow> player \<in> {CHR ''X'', CHR ''O''} \<and> has_line player b \<and> \<not> has_line (other player) b
       | Draw \<Rightarrow> full b \<and> \<not> has_line (CHR ''X'') b \<and> \<not> has_line (CHR ''O'') b
       | Waits player \<Rightarrow> \<not> has_line (CHR ''X'') b \<and> \<not> has_line (CHR ''O'') b \<and> \<not> full b
           \<and> player \<in> {CHR ''X'', CHR ''O''}
           \<and> signs (CHR ''X'') b = signs (CHR ''O'') b + (if player = CHR ''O'' then 1 else 0))"
proof -
  obtain out g b where "play typed (CHR ''X'') (replicate 3 (replicate 3 (CHR '' ''))) = Inr (out, g, b)"
    and b: "wf_board b" "game_ok g b"
    using play_ok [OF going_initial assms(2)] by blast
  then have "tictactoe_main typed board0 = Inr (out, g, b)"
    using initializeBoard_eq [OF assms(1)] by (simp add: tictactoe_main_def)
  with b show ?thesis by (cases g) (auto simp: game_ok_def going_def)
qed

theorem tictactoe_game_witness:
  "\<exists>out g b. tictactoe_main [(1, 1), (1, 1), (2, 5), (2, 2), (1, 2), (0, 0), (3, 3), (1, 3)] (replicate 3 (replicate 3 NUL))
    = Inr (out, g, b) \<and> wf_board b"
  using tictactoe_game [of "replicate 3 (replicate 3 NUL)"
      "[(1, 1), (1, 1), (2, 5), (2, 2), (1, 2), (0, 0), (3, 3), (1, 3)]"]
  by (auto simp: wf_board_def)

end
