(* ===== verification/Clock.thy ===== *)
theory Clock
  imports Showcase
begin

text \<open>
  \<^verbatim>\<open>Showcase/clock.c\<close>: a count down shown by the program and driven by interrupts. The number is kept in
  the register r8, which the interrupt handler decreases and the loop of \<^verbatim>\<open>main\<close> reads once a round; it
  is a value of its own here, on the assumption that the compiler uses r8 for nothing else. The
  constraint of the first statement makes its operand an output, so that nothing says what the
  register gets from it: \<open>start\<close>, which is 5 if the compiler has left the number where it then looks.
\<close>

section \<open>The handler and one round\<close>

definition irq_handler :: "u32 \<Rightarrow> u32" where
  "irq_handler r8 = r8 - 1"

definition clock_text :: "int \<Rightarrow> string" where
  "clock_text n_min =
     (let e = [CHR 0xC3, CHR 0xA9] in
      if n_min = -1 then ''Et oh j'' @ [CHR 0x27] @ ''ai dit que c'' @ [CHR 0x27] @ e @ ''tait fini !'' @ [LF]
      else if n_min = 0 then ''La pr'' @ e @ ''sentation est finie !'' @ [CHR 0x0D]
      else if n_min = 1 then
        ''Il ne reste plus que '' @ print_int n_min @ '' minute de pr'' @ e @ ''sentation...'' @ [CHR 0x0D]
      else ''Il ne reste plus que '' @ print_int n_min @ '' minutes de pr'' @ e @ ''sentation...'' @ [CHR 0x0D])"

text \<open>A round prints and says whether the program has ended.\<close>

definition clock_round :: "u32 \<Rightarrow> (string \<times> bool) res option" where
  "clock_round r8 =
     (let n_min = sint r8 in
      map_option (\<lambda>r. bindR r (\<lambda>c.
        Inr ([CHR 0x1B] @ ''[2K'' @ c @ clock_text n_min, n_min = -1))) (colour n_min))"

text \<open>What happens one after the other: rounds of the loop and interrupts.\<close>

datatype tick = Round | Tick

fun clock_main :: "tick list \<Rightarrow> u32 \<Rightarrow> (string \<times> bool) res option" where
  "clock_main [] r8 = Some (Inr ([], False))"
| "clock_main (Tick # ts) r8 = clock_main ts (irq_handler r8)"
| "clock_main (Round # ts) r8 =
     (case clock_round r8 of
        None \<Rightarrow> None
      | Some (Inl e) \<Rightarrow> Some (Inl e)
      | Some (Inr (out, ended)) \<Rightarrow>
          if ended then Some (Inr (out, True))
          else map_option (\<lambda>r. bindR r (\<lambda>(rest, ended). Inr (out @ rest, ended))) (clock_main ts r8))"

section \<open>When the count down ends\<close>

text \<open>A round never faults, whatever the register holds.\<close>

lemma sint_range: "- (2 ^ 31) \<le> sint (r :: u32)" "sint (r :: u32) < 2 ^ 31"
  using sint_ge [of r] sint_lt [of r] by simp_all

lemma clock_round_total: "\<exists>out. clock_round r8 = Some (Inr (out, r8 = -1))"
proof -
  have m: "my_modulo (sint r8) 7 = Some (Inr (if sint r8 < 7 then sint r8 else sint r8 mod 7))"
    using my_modulo_returns [of "sint r8" 7] sint_range [of r8] by simp
  have "sint r8 = -1 \<longleftrightarrow> r8 = -1" by (metis sint_n1 signed_word_eqI)
  then show ?thesis unfolding clock_round_def colour_def Let_def m by simp
qed

text \<open>The value a round reads is that of the start, less the interrupts that came before it.\<close>

fun reads :: "tick list \<Rightarrow> u32 \<Rightarrow> u32 set" where
  "reads [] r8 = {}"
| "reads (Tick # ts) r8 = reads ts (r8 - 1)"
| "reads (Round # ts) r8 = insert r8 (reads ts r8)"

lemma clock_main_outcome: "\<exists>out. clock_main ts r8 = Some (Inr (out, -1 \<in> reads ts r8))"
proof (induction ts arbitrary: r8)
  case (Cons t ts)
  show ?case
  proof (cases t)
    case Tick
    then show ?thesis using Cons.IH [of "r8 - 1"] by (simp add: irq_handler_def)
  next
    case Round
    obtain out where o: "clock_round r8 = Some (Inr (out, r8 = -1))" using clock_round_total by blast
    obtain rest where "clock_main ts r8 = Some (Inr (rest, -1 \<in> reads ts r8))" using Cons.IH by blast
    then show ?thesis using Round o by auto
  qed
qed simp

lemma reads_member:
  "v \<in> reads ts r8 \<longleftrightarrow> (\<exists>us vs. ts = us @ Round # vs \<and> v = r8 - of_nat (count_list us Tick))"
proof (induction ts arbitrary: r8)
  case (Cons t ts)
  show ?case
  proof (cases t)
    case Tick
    then have "v \<in> reads (t # ts) r8 \<longleftrightarrow>
        (\<exists>us vs. ts = us @ Round # vs \<and> v = r8 - of_nat (count_list (Tick # us) Tick))"
      using Cons.IH [of "r8 - 1"] by (simp add: algebra_simps)
    also have "\<dots> \<longleftrightarrow> (\<exists>us vs. t # ts = us @ Round # vs \<and> v = r8 - of_nat (count_list us Tick))"
    proof
      assume "\<exists>us vs. ts = us @ Round # vs \<and> v = r8 - of_nat (count_list (Tick # us) Tick)"
      then obtain us vs where "ts = us @ Round # vs" "v = r8 - of_nat (count_list (Tick # us) Tick)" by blast
      then show "\<exists>us vs. t # ts = us @ Round # vs \<and> v = r8 - of_nat (count_list us Tick)"
        using Tick by (intro exI [of _ "Tick # us"] exI [of _ vs]) simp
    next
      assume "\<exists>us vs. t # ts = us @ Round # vs \<and> v = r8 - of_nat (count_list us Tick)"
      then obtain us vs where u: "t # ts = us @ Round # vs" "v = r8 - of_nat (count_list us Tick)" by blast
      then show "\<exists>us vs. ts = us @ Round # vs \<and> v = r8 - of_nat (count_list (Tick # us) Tick)"
        using Tick by (cases us) auto
    qed
    finally show ?thesis .
  next
    case Round
    have "(\<exists>us vs. t # ts = us @ Round # vs \<and> v = r8 - of_nat (count_list us Tick)) \<longleftrightarrow>
        v = r8 \<or> (\<exists>us vs. ts = us @ Round # vs \<and> v = r8 - of_nat (count_list us Tick))" (is "?l \<longleftrightarrow> ?r")
    proof
      assume ?l
      then obtain us vs where u: "t # ts = us @ Round # vs" "v = r8 - of_nat (count_list us Tick)" by blast
      then show ?r using Round by (cases us) auto
    next
      assume ?r
      then show ?l
      proof
        assume "v = r8"
        then show ?l using Round by (intro exI [of _ "[]"] exI [of _ ts]) simp
      next
        assume "\<exists>us vs. ts = us @ Round # vs \<and> v = r8 - of_nat (count_list us Tick)"
        then obtain us vs where "ts = us @ Round # vs" "v = r8 - of_nat (count_list us Tick)" by blast
        then show ?l using Round by (intro exI [of _ "Round # us"] exI [of _ vs]) simp
      qed
    qed
    then show ?thesis using Round Cons.IH [of r8] by simp
  qed
qed simp

text \<open>
  The program ends exactly when a round reads -1: after a number of interrupts that is one more than the
  start, modulo the size of the register. When the interrupt after that one comes before the round, the
  end is missed and the display goes on with negative minutes.
\<close>

theorem clock_ends:
  "\<exists>out. clock_main ts start = Some (Inr (out,
     \<exists>us vs. ts = us @ Round # vs \<and> (of_nat (count_list us Tick) :: u32) = start + 1))"
proof -
  have eq: "- 1 = start - c \<longleftrightarrow> c = start + 1" for c :: u32 by (auto simp: algebra_simps)
  show ?thesis using clock_main_outcome [of ts start] unfolding reads_member eq .
qed

lemma clock_misses_end: "\<exists>out. clock_main [Tick, Tick, Tick, Tick, Tick, Round, Tick, Tick, Round] 5 = Some (Inr (out, False))"
  using clock_main_outcome [of "[Tick, Tick, Tick, Tick, Tick, Round, Tick, Tick, Round]" 5] by simp

end
