(* ===== verification/Debug_Macros.thy ===== *)
theory Debug_Macros
  imports Debug_Messages Stdio
begin

text \<open>
  The macros of \<^verbatim>\<open>debug.h\<close> when it is compiled with \<^verbatim>\<open>DEBUG\<close>: what they print on the standard error for a
  message \<open>msg\<close> (already formatted) at a line of a file. With \<^verbatim>\<open>CACHE_DEBUG_FLAG\<close> each file keeps the answer
  of the table to its first message.
\<close>

section \<open>Without the cache\<close>

definition debug_raw :: "string \<Rightarrow> string \<Rightarrow> debug_data \<Rightarrow> string res" where
  "debug_raw source msg d = bindR (is_debugged source d) (\<lambda>r. Inr (if r \<noteq> 0 then msg else []))"

definition debug :: "string \<Rightarrow> int \<Rightarrow> string \<Rightarrow> debug_data \<Rightarrow> string res" where
  "debug source line msg d =
     bindR (is_debugged source d) (\<lambda>r.
     Inr (if r \<noteq> 0 then ''[DEBUG] '' @ source @ '','' @ format_d (word_of_int line) @ '': '' @ msg else []))"

definition debug_binary :: "string \<Rightarrow> string \<Rightarrow> nat \<Rightarrow> debug_data \<Rightarrow> string res" where
  "debug_binary source data len d =
     bindR (is_debugged source d) (\<lambda>r. if r \<noteq> 0 then debug_raw_binary data len else Inr [])"

definition warning :: "string \<Rightarrow> int \<Rightarrow> string \<Rightarrow> string" where
  "warning source line msg = ''[WARNING] '' @ source @ '', '' @ format_d (word_of_int line) @ '': '' @ msg"

section \<open>With the cache\<close>

record debug_flag =
  is_debugged_first :: bool
  is_debugged_result :: int

definition flag_initial :: debug_flag where
  "flag_initial = \<lparr>is_debugged_first = True, is_debugged_result = 0\<rparr>"

definition is_debugged_cached :: "string \<Rightarrow> debug_data \<Rightarrow> debug_flag \<Rightarrow> (bool \<times> debug_flag) res" where
  "is_debugged_cached source d f =
     bindR (if is_debugged_first f
            then bindR (is_debugged source d) (\<lambda>r. Inr (r \<noteq> 0, \<lparr>is_debugged_first = False, is_debugged_result = r\<rparr>))
            else Inr (False, f)) (\<lambda>(b, f).
     Inr (b \<or> is_debugged_result f \<noteq> 0, f))"

text \<open>The messages of one file, each with the table at its time: without and with the cache.\<close>

fun messages :: "string \<Rightarrow> (debug_data \<times> string) list \<Rightarrow> string res" where
  "messages source [] = Inr []"
| "messages source ((d, msg) # ms) =
     bindR (debug_raw source msg d) (\<lambda>out. bindR (messages source ms) (\<lambda>rest. Inr (out @ rest)))"

fun messages_cached :: "string \<Rightarrow> (debug_data \<times> string) list \<Rightarrow> debug_flag \<Rightarrow> string res" where
  "messages_cached source [] f = Inr []"
| "messages_cached source ((d, msg) # ms) f =
     bindR (is_debugged_cached source d f) (\<lambda>(on, f).
     bindR (messages_cached source ms f) (\<lambda>rest. Inr ((if on then msg else []) @ rest)))"

section \<open>Which messages are printed\<close>

lemma is_debugged_names: "wf_debug d \<Longrightarrow> is_debugged source d = Inr (if source \<in> set (names d) then 1 else 0)"
  using search_debugged_correct [of d 0 "int (nb_debugged_files d) - 1" source] by (simp add: is_debugged_def)

lemma messages_eq:
  "\<forall>(d, msg) \<in> set ms. wf_debug d \<Longrightarrow>
    messages source ms = Inr (concat (map snd (filter (\<lambda>(d, msg). source \<in> set (names d)) ms)))"
  by (induction ms) (auto simp: debug_raw_def is_debugged_names)

lemma messages_cached_later:
  "messages_cached source ms \<lparr>is_debugged_first = False, is_debugged_result = r\<rparr>
    = Inr (if r \<noteq> 0 then concat (map snd ms) else [])"
  by (induction ms) (auto simp: is_debugged_cached_def)

lemma messages_cached_eq:
  "wf_debug d \<Longrightarrow> messages_cached source ((d, msg) # ms) flag_initial
    = Inr (if source \<in> set (names d) then msg @ concat (map snd ms) else [])"
  by (simp add: flag_initial_def is_debugged_cached_def is_debugged_names messages_cached_later)

text \<open>
  The cache changes nothing as long as the table says the same of the file at all its messages; when the
  file is added after its first message, its messages are lost.
\<close>

theorem cached_messages:
  assumes "\<forall>(d, msg) \<in> set ms. wf_debug d"
  shows "\<forall>(d, msg) \<in> set ms. (source \<in> set (names d)) = on \<Longrightarrow>
      messages_cached source ms flag_initial = messages source ms"
    and "ms = (d, msg) # rest \<Longrightarrow> source \<notin> set (names d) \<Longrightarrow> messages_cached source ms flag_initial = Inr []"
proof -
  assume same: "\<forall>(d, msg) \<in> set ms. (source \<in> set (names d)) = on"
  show "messages_cached source ms flag_initial = messages source ms"
  proof (cases ms)
    case (Cons m ms')
    obtain d msg where m: "m = (d, msg)" by fastforce
    have "filter (\<lambda>(d, msg). source \<in> set (names d)) ms = (if on then ms else [])"
      using same by (cases on) (auto simp: filter_id_conv filter_empty_conv)
    then show ?thesis
      using same assms Cons m messages_cached_eq [of d source msg ms'] messages_eq [OF assms, of source] by auto
  qed simp
qed (use assms messages_cached_eq [of d source msg rest] in auto)

end
