(* ===== verification/Spec2Isabelle.thy ===== *)
theory Spec2Isabelle
  imports Session Guest_Run Unit_Tests Release Sockets Locking Traced Tictactoe Clock Debug_Macros
begin

text \<open>
  \<^bold>\<open>A simulator of the ARMv5 instruction set with a remote debugger\<close>

  \<^bold>\<open>The program.\<close> The sources simulate an ARMv5 processor for teaching. A core
  (\<^verbatim>\<open>arm_core.c\<close>) holds banked registers (\<^verbatim>\<open>registers.c\<close>), a byte-addressed memory
  (\<^verbatim>\<open>memory.c\<close>) and a cycle counter. The instruction cycle (\<^verbatim>\<open>arm_instruction.c\<close>) fetches,
  tests the condition, decodes and calls the handlers of the instruction groups
  (\<^verbatim>\<open>arm_data_processing.c\<close>, \<^verbatim>\<open>arm_load_store.c\<close>, \<^verbatim>\<open>arm_branch_other.c\<close>); a code that is not 0
  goes to \<^verbatim>\<open>arm_exception.c\<close>, which serves software interrupts, resets and interrupts. The process
  (\<^verbatim>\<open>arm_simulator.c\<close>) has two threads: one serves a debugger, whose bytes a scanner generated
  from \<^verbatim>\<open>scanner.l\<close> cuts into packets for \<^verbatim>\<open>gdb_protocol.c\<close>; the other receives exception numbers
  from the client \<^verbatim>\<open>send_irq.c\<close>. \<^verbatim>\<open>trace.c\<close> prints accesses and states, \<^verbatim>\<open>debug.c\<close> keeps the table
  of files with debug messages, \<^verbatim>\<open>csapp.c\<close> wraps system calls.

  \<^bold>\<open>Common ground.\<close> Every operation that can go wrong in C returns a sum: \<open>Inl\<close> is undefined
  behaviour or the end of the process (access outside an array, null pointer, uninitialised
  value, failed assertion, undefined conversion, use of freed memory, broken connection, exit), \<open>Inr\<close> the result; error codes of the
  program are values of \<open>Inr\<close>. Words are words of their width. What the C standard leaves to the
  machine is a parameter of type \<open>host\<close>: the byte order and the result of shifts that are too long;
  theorems hold for every host. Loops are recursive functions with a termination proof; three that
  may run for ever or whose end needs an argument (the continue command, the scanner, the read loop
  of \<^verbatim>\<open>csapp.c\<close>) are partial functions in the option type, \<open>None\<close> being no return, with theorems on
  when they return. No fuel is used.

  \<^bold>\<open>Theories, in the order of the code.\<close>
  \<^item> \<open>Prelude\<close>: results, array accesses and the facts on outcomes all proofs share.
  \<^item> \<open>Util\<close>, \<open>Arm_Constants\<close>, \<open>Stdio\<close>: \<^verbatim>\<open>util.h\<close>, \<^verbatim>\<open>util.c\<close>, \<^verbatim>\<open>arm_constants.c\<close> and what is used of the C
    library (conversions of \<^verbatim>\<open>printf\<close> and \<^verbatim>\<open>scanf\<close>, strings in arrays).
  \<^item> \<open>Memory\<close>: \<^verbatim>\<open>memory.c\<close>; round trips in both byte orders, the outcome of every access, and that the
    guard lets words pass the end.
  \<^item> \<open>Registers\<close>: \<^verbatim>\<open>registers.c\<close>; the cell a register has in a mode, reads after writes, and the two
    kinds of faults.
  \<^item> \<open>Arm_Core\<close>, \<open>Core_Invariant\<close>: \<^verbatim>\<open>arm_core.c\<close>, and the invariant of the core (form of the data, host,
    shape of the memory, a set of modes) with what every access keeps of it.
  \<^item> \<open>Arm_Exception\<close>: \<^verbatim>\<open>arm_exception.c\<close>; entry into IRQ mode, reset, software interrupts with their input
    and output.
  \<^item> \<open>Branch_Other\<close>, \<open>Data_Processing\<close>, \<open>Load_Store\<close>, \<open>Load_Store_Facts\<close>: the handlers; operands, flags
    and addressing modes against the architecture written with integers and bits, deviations included, what
    an operator leaves of every register of every mode, the four kinds of stacks, and what refused accesses
    leave behind.
  \<^item> \<open>Arm_Instruction\<close>: \<^verbatim>\<open>arm_instruction.c\<close>; conditions, one step, absence of faults in all instructions
    without memory access.
  \<^item> \<open>Breakpoints\<close>, \<open>Gdb_Protocol\<close>, \<open>Gdb_Packets\<close>, \<open>Gdb_Commands\<close>, \<open>Gdb_Execution\<close>, \<open>Gdb_Invariant\<close>:
    \<^verbatim>\<open>gdb_protocol.c\<close>; the sorted table implements a bounded set, packets are accepted exactly with their
    checksum, registers and memory survive a round trip through their textual form, when a continue
    command returns in terms of the steps of the processor and the set of breakpoints, the invariant every
    packet keeps that is answered, and which packets always are.
  \<^item> \<open>Trace\<close>, \<open>Debug_Messages\<close>, \<open>Send_Irq\<close>, \<open>Rio\<close>: \<^verbatim>\<open>trace.c\<close>, \<^verbatim>\<open>debug.c\<close>, \<^verbatim>\<open>send_irq.c\<close> and the robust
    input and output of \<^verbatim>\<open>csapp.c\<close>, which reads and writes whole buffers whatever the system calls do.
  \<^item> \<open>Scanner\<close>: the generated scanner of \<^verbatim>\<open>scanner.c\<close>, tables, buffer, jumps and refills included, and the
    actions of \<^verbatim>\<open>scanner.l\<close>. \<open>Scanner_Automaton\<close> shows which automaton the compressed tables are and that
    its longest match is the one of the rules; \<open>Scanner_Loops\<close> and \<open>Scanner_Input\<close> follow a token through
    refills and null characters: the tokens do not depend on how the input arrives.
  \<^item> \<open>Simulator\<close>: \<^verbatim>\<open>arm_simulator.c\<close>; options, start, and the two threads as a step relation with the
    invariant of all reachable states. \<open>Session\<close>: a debugger session as the code runs it, from the bytes
    on, implements the events of that relation.
  \<^item> \<open>Locking\<close>: the two threads again, with the lock as a value and steps as fine as the code before the lock,
    the lock, the rounds of the continue command and the release. The lock makes commands and interrupts
    the atomic steps of \<open>Simulator\<close>; a continue command that does not end keeps every interrupt out.
  \<^item> \<open>Guest_Run\<close>: programs on the machine. The routines of \<^verbatim>\<open>Showcase/my_syscalls.s\<close> as instructions, a
    loop run to its end by a continue command, calls of the routines, the return from an interrupt.
  \<^item> \<open>Allocation\<close>, \<open>Release\<close>: the same program seen from the heap, with blocks that are allocated, used
    and freed and requests that may be refused. What each part creates it releases; a whole run leaves
    the stream of each trace file and at most one block more. The end of \<^verbatim>\<open>main\<close> is a step relation with the
    thread of the interrupts and the lock: an exception delivered after the release uses freed memory.
  \<^item> \<open>Csapp\<close>, \<open>Sockets\<close>: the wrappers of \<^verbatim>\<open>csapp.c\<close> as functions of what their call returns; servers, listeners
    and the client with a table of descriptors that may be full and calls that may fail. What the
    listener does with all connections, what a failure loses, and an interrupt from the command line of
    the client to the processor.
  \<^item> \<open>Traced\<close>: the accesses of \<^verbatim>\<open>arm_core.c\<close> with their trace calls and the macros of
    \<^verbatim>\<open>trace_location.h\<close>; for code that is a sequence of such accesses, tracing only observes, and what it
    writes.
  \<^item> \<open>Showcase\<close>, \<open>Tictactoe\<close>, \<open>Clock\<close>: the example programs as C programs; sorting, the rules of the game, the
    running texts that leave their arrays, when the count down ends.
  \<^item> \<open>Debug_Macros\<close>: the macros of \<^verbatim>\<open>debug.h\<close>, and when the cache of the flag changes what they print.
  \<^item> \<open>Unit_Tests\<close>: \<^verbatim>\<open>memory_test.c\<close> and \<^verbatim>\<open>registers_test.c\<close>, which pass on every host.

  \<^bold>\<open>Interfaces.\<close> The contracts between the parts are locales, interpreted on the model: \<open>word_store\<close>
  (words in a memory of bytes), \<open>register_bank\<close> (registers and the cells they share), \<open>bounded_set\<close> (the
  table of breakpoints), \<open>core_invariant\<close> (what instructions keep, for a set of modes and of faults,
  interpreted for all modes and for all but FIQ), \<open>reader\<close> (the pieces of a stream, interpreted for
  unbuffered and buffered reads), \<open>lifecycle\<close> (what is created is released completely, interpreted for
  the memory, the registers, the core and the protocol data).

  \<^bold>\<open>Bounds and parameters.\<close> Sizes are those of the code (memory of 0x8000 bytes, 1024 breakpoints,
  packets of 4096 bytes, 64 debug files, error buffer of 1024, scanner buffer of 16384 that doubles,
  with sizes as natural numbers). Allocations may be refused in \<open>Allocation\<close>, \<open>Release\<close> and where a definition takes
  their result as a parameter, elsewhere they succeed; contents of uninitialised arrays are parameters. System calls are parameters or explicit
  schedules: how many bytes a read delivers, which calls are interrupted or fail, which files can be opened.

  \<^bold>\<open>Not modelled.\<close> The wrappers of \<^verbatim>\<open>csapp.c\<close> that pass a call on unchecked; the messages on standard error
  of the other components (\<open>Debug_Macros\<close> has the macros, not their uses); the parsing of the command line by
  \<^verbatim>\<open>getopt_long\<close> and the text of its usage; what the generated scanner offers and nobody calls (switching
  between several buffers, start conditions, \<^verbatim>\<open>yyinput\<close>, accessors), which is the fixed part of every flex
  scanner; which machine registers a compiler gives the inline assembler of \<^verbatim>\<open>Showcase/clock.c\<close>. The instruction handlers are written over the accesses without
  trace; the entry of an interrupt is given over the traced ones too, with its places in the sources. Macros
  of \<^verbatim>\<open>trace_location.h\<close> inside the argument of another are not represented. A handler other than that of the continue command is one
  step of its thread in \<open>Locking\<close>, because it holds the lock for its whole duration; the end of \<^verbatim>\<open>main\<close>, which
  does not take it, is the relation of \<open>Release\<close>. System calls are simpler in three places: a read of the
  scanner delivers bytes or the end of the input and never fails, so the fatal error of a failing read is left
  out; the writes of \<open>Gdb_Protocol\<close> succeed unless the connection is shut down, so the exit on a failing write
  is left out there; and in \<open>Rio\<close> a write of at least one byte does not return 0. The buffer of the scanner is a
  list of its contents: its allocated size is not compared with what is written into it.
\<close>

end
